(* ===== verification/Prelude.thy ===== *)
theory Prelude
  imports Main "HOL-Library.Word"
begin

text \<open>
  Shared vocabulary of the development: the machine types of the C++ sources, the
  two-word ASCII bitmaps used by several components, the reads of a character sequence,
  and the lemmas on words and lists that the components share.

  \<^item> \<open>byte\<close> is \<open>char\<close>/\<open>uint8_t\<close>; a \<open>std::string\<close> or \<open>std::string_view\<close> is a
    \<open>byte list\<close>;
  \<^item> \<open>rune\<close> is \<open>rune_t\<close> (\<open>uint32_t\<close>, \<open>include/trieste/rune.h\<close>);
  \<^item> \<open>u64\<close> is \<open>uint64_t\<close>, and \<open>size_t\<close> where its width matters; positions and sizes
    that cannot overflow are \<open>nat\<close>.
\<close>

unbundle bit_operations_syntax

type_synonym byte = "8 word"
type_synonym rune = "32 word"
type_synonym u32 = "32 word"
type_synonym u64 = "64 word"
type_synonym bytes = "byte list"

text \<open>Character literals of the sources, at the two widths they are compared at.\<close>

abbreviation c8 :: "char \<Rightarrow> byte" where
  "c8 c \<equiv> of_char c"

abbreviation c32 :: "char \<Rightarrow> rune" where
  "c32 c \<equiv> of_char c"

abbreviation lit :: "string \<Rightarrow> bytes" where
  "lit s \<equiv> map of_char s"

text \<open>Collections of the development.\<close>

named_theorems word_masks \<open>masking, shifting and joining words as arithmetic\<close>
named_theorems bitmap_simps \<open>reading and writing two-word bitmaps\<close>

subsection \<open>Words by their bits\<close>

text \<open>Equality of words of a fixed width by a case distinction on the bit index.\<close>

lemma less_numeral_cases: "(n::nat) < numeral k \<longleftrightarrow> n = pred_numeral k \<or> n < pred_numeral k" by (simp add: numeral_eq_Suc less_Suc_eq) auto

lemmas bit_cases = less_numeral_cases pred_numeral_simps BitM.simps

lemma byte_eqI: "(\<And>n. n < 8 \<Longrightarrow> bit (a::byte) n = bit b n) \<Longrightarrow> a = b"
  by (rule bit_word_eqI) simp

lemma rune_eqI: "(\<And>n. n < 32 \<Longrightarrow> bit (a::rune) n = bit b n) \<Longrightarrow> a = b"
  by (rule bit_word_eqI) simp

lemma take_bit_le:
  assumes "(v::rune) \<le> m" "unat m < 2 ^ k" shows "take_bit k v = v"
  using assms by (simp add: word_unat_eq_iff unsigned_take_bit_eq take_bit_nat_eq_self word_le_nat_alt)

lemma take_bit_not_bit: "take_bit k v = v \<Longrightarrow> k \<le> n \<Longrightarrow> \<not> bit (v::rune) n"
  by (metis bit_take_bit_iff not_le)

subsection \<open>Results and the arithmetic of sizes\<close>

text \<open>A call that may throw is a sum: \<open>Inl\<close> the exception, \<open>Inr\<close> the result.\<close>

definition and_then :: "'e + 'a \<Rightarrow> ('a \<Rightarrow> 'e + 'b) \<Rightarrow> 'e + 'b" where
  "and_then r f = (case r of Inl e \<Rightarrow> Inl e | Inr x \<Rightarrow> f x)"

lemma and_then_simps [simp]:
  "and_then (Inl e) f = Inl e"
  "and_then (Inr x) f = f x"
  by (simp_all add: and_then_def)

lemma and_then_Inr_iff: "and_then r f = Inr y \<longleftrightarrow> (\<exists>x. r = Inr x \<and> f x = Inr y)"
  by (cases r) simp_all

text \<open>A \<open>size_t\<close> that is a \<open>nat\<close> of the model is below \<open>size_mod\<close>; sums and differences of the code
  that may leave that range wrap around.\<close>

definition size_mod :: nat where "size_mod = 2 ^ 64"

definition size_add :: "nat \<Rightarrow> nat \<Rightarrow> nat" where
  "size_add a b = (a + b) mod size_mod"

definition size_sub :: "nat \<Rightarrow> nat \<Rightarrow> nat" where
  "size_sub a b = (a + (size_mod - b)) mod size_mod"

lemma size_add_eq: "a + b < size_mod \<Longrightarrow> size_add a b = a + b"
  by (simp add: size_add_def)

lemma size_sub_eq: "b \<le> a \<Longrightarrow> a < size_mod \<Longrightarrow> size_sub a b = a - b"
proof -
  assume "b \<le> a" "a < size_mod"
  then have "a + (size_mod - b) = (a - b) + size_mod" by simp
  then show ?thesis using \<open>a < size_mod\<close> unfolding size_sub_def by (simp only: mod_add_self2 mod_less less_imp_diff_less)
qed

end
