(* ===== verification/IntrusivePtr.thy ===== *)
theory IntrusivePtr
  imports Prelude "HOL-Library.Multiset" "HOL-Library.Monad_Syntax"
begin

text \<open>
  \<open>include/trieste/intrusive_ptr.h\<close>: reference counted objects and the pointers that own them. The
  heap is the list of the objects ever made, a freed one is \<open>None\<close>; an object has its count and the
  intrusive pointers among its members, in the order in which its destructor drops them. The
  pointers of the running code are the list \<open>vars\<close>; \<open>released\<close> are the raw pointers that \<open>release\<close>
  has handed out, each with a count that no pointer gives back. A failing assertion, and an access to
  an object that was freed (undefined behaviour), are \<open>None\<close>. One thread runs; a count is a number
  that does not wrap, which would need as many pointers as \<open>size_t\<close> has values. Objects that were never
  given to a pointer, which may live on the stack, have the count 0 and are left out.

  The lemmas show that every operation keeps the invariant that each count is the number of
  pointers to the object, those released included, so no assertion fails and no freed object is
  accessed or freed again, and that an object is freed as soon as no pointer to it is left, its
  members' objects with it.
\<close>

record obj =
  refcount :: nat
  members :: "nat option list"

type_synonym objects = "obj option list"

record heap =
  objs :: objects
  vars :: "nat option list"
  released :: "nat list"

definition obj_at :: "objects \<Rightarrow> nat \<Rightarrow> obj option" where
  "obj_at os a = (if a < length os then os ! a else None)"

subsection \<open>Counting\<close>

definition inc_ref :: "nat option \<Rightarrow> objects \<Rightarrow> objects option" where
  "inc_ref p os =
     (case p of
        None \<Rightarrow> Some os
      | Some a \<Rightarrow>
          (case obj_at os a of
             None \<Rightarrow> None
           | Some ob \<Rightarrow> Some (os[a := Some (ob\<lparr>refcount := refcount ob + 1\<rparr>)])))"

text \<open>\<open>intrusive_dec_ref\<close> while the work list is set up: an object that is no longer counted goes
  to its end.\<close>

definition dec_count :: "nat \<Rightarrow> objects \<times> nat list \<Rightarrow> (objects \<times> nat list) option" where
  "dec_count a s =
     (let (os, work_list) = s
      in (case obj_at os a of
            None \<Rightarrow> None
          | Some ob \<Rightarrow>
              let prev_rc = refcount ob
              in if \<not> 0 < prev_rc then None
                 else Some (os[a := Some (ob\<lparr>refcount := prev_rc - 1\<rparr>)],
                   if prev_rc = 1 then work_list @ [a] else work_list)))"

fun drop_members :: "nat option list \<Rightarrow> objects \<times> nat list \<Rightarrow> (objects \<times> nat list) option" where
  "drop_members [] s = Some s"
| "drop_members (None # ps) s = drop_members ps s"
| "drop_members (Some a # ps) s = (case dec_count a s of None \<Rightarrow> None | Some s \<Rightarrow> drop_members ps s)"

text \<open>\<open>delete ptr\<close>: the members are dropped, the count is asserted to be zero, the object is freed.\<close>

definition delete_obj :: "nat \<Rightarrow> objects \<times> nat list \<Rightarrow> (objects \<times> nat list) option" where
  "delete_obj a s =
     (let (os, work_list) = s
      in (case obj_at os a of
            None \<Rightarrow> None
          | Some ob \<Rightarrow>
              (case drop_members (members ob) (os[a := Some (ob\<lparr>members := []\<rparr>)], work_list) of
                 None \<Rightarrow> None
               | Some (os, work_list) \<Rightarrow>
                   (case obj_at os a of
                      None \<Rightarrow> None
                    | Some ob \<Rightarrow> if refcount ob \<noteq> 0 then None else Some (os[a := None], work_list)))))"

definition live_count :: "objects \<Rightarrow> nat" where
  "live_count os = length (filter (\<lambda>x. x \<noteq> None) os)"

definition live_objs :: "objects \<Rightarrow> nat set" where
  "live_objs os = {a. obj_at os a \<noteq> None}"

lemma live_count_card: "live_count os = card (live_objs os)"
  by (auto simp: live_count_def live_objs_def obj_at_def length_filter_conv_card intro: arg_cong [where f = card])

lemma finite_live [simp]: "finite (live_objs os)"
  by (rule finite_subset [of _ "{..<length os}"]) (auto simp: live_objs_def obj_at_def split: if_splits)

lemma obj_at_update: "a < length os \<Longrightarrow> obj_at (os[a := x]) b = (if b = a then x else obj_at os b)"
  by (auto simp: obj_at_def)

lemma obj_at_less: "obj_at os a = Some ob \<Longrightarrow> a < length os"
  by (simp add: obj_at_def split: if_splits)

lemma live_update:
  assumes "obj_at os a = Some ob"
  shows "live_objs (os[a := Some x]) = live_objs os" "live_objs (os[a := None]) = live_objs os - {a}"
  using assms obj_at_less [OF assms] by (auto simp: live_objs_def obj_at_update split: if_splits)

lemma dec_count_live: "dec_count a (os, w) = Some (os', w') \<Longrightarrow> live_objs os' = live_objs os"
  by (auto simp: dec_count_def Let_def live_update split: option.splits if_splits)

lemma drop_members_live: "drop_members ps (os, w) = Some (os', w') \<Longrightarrow> live_objs os' = live_objs os"
proof (induction ps arbitrary: os w)
  case (Cons p ps)
  then show ?case
    by (cases p) (auto dest!: dec_count_live split: option.splits)
qed simp

lemma delete_obj_live:
  assumes "delete_obj a (os, w) = Some (os', w')"
  shows "live_objs os' = live_objs os - {a}" "a \<in> live_objs os"
proof -
  from assms obtain ob os1 ob1 where o1: "obj_at os a = Some ob"
    "drop_members (members ob) (os[a := Some (ob\<lparr>members := []\<rparr>)], w) = Some (os1, w')" "obj_at os1 a = Some ob1"
    "os' = os1[a := None]"
    by (auto simp: delete_obj_def Let_def split: option.splits if_splits)
  from drop_members_live [OF o1(2)] live_update(1) [OF o1(1)] have "live_objs os1 = live_objs os" by simp
  then show "live_objs os' = live_objs os - {a}" using live_update(2) [OF o1(3)] o1(4) by simp
  show "a \<in> live_objs os" using o1(1) by (simp add: live_objs_def)
qed

text \<open>The loop of \<open>recursion_safe_delete_this\<close>, which takes the last of the work list.\<close>

function delete_loop :: "objects \<times> nat list \<Rightarrow> objects option" where
  "delete_loop (os, work_list) =
     (if work_list = [] then Some os
      else (case delete_obj (last work_list) (os, butlast work_list) of
          None \<Rightarrow> None
        | Some s \<Rightarrow> delete_loop s))"
  by pat_completeness auto
termination
proof (relation "measure (\<lambda>(os, w). live_count os)", goal_cases)
  case (2 os w s)
  obtain os' w' where s: "s = (os', w')" by (cases s)
  from delete_obj_live [OF 2(2) [unfolded s]] show ?case
    by (simp add: s live_count_card card_Diff1_less del: card_Diff_insert)
qed simp

declare delete_loop.simps [simp del]

text \<open>\<open>dec_ref\<close> of a pointer, from the outside: the object starts the work list.\<close>

definition dec_ref :: "nat option \<Rightarrow> objects \<Rightarrow> objects option" where
  "dec_ref p os =
     (case p of
        None \<Rightarrow> Some os
      | Some a \<Rightarrow> Option.bind (dec_count a (os, [])) delete_loop)"

subsection \<open>Pointers\<close>

text \<open>An intrusive pointer is a variable of the code, or a member of an object. Constructors make a new
  variable, at the end of \<open>vars\<close>; a destroyed variable stays as a null pointer.\<close>

datatype place = Var nat | Member nat nat

fun read_ptr :: "place \<Rightarrow> heap \<Rightarrow> nat option option" where
  "read_ptr (Var v) h = (if v < length (vars h) then Some (vars h ! v) else None)"
| "read_ptr (Member a i) h =
     (case obj_at (objs h) a of
        None \<Rightarrow> None
      | Some ob \<Rightarrow> if i < length (members ob) then Some (members ob ! i) else None)"

fun write_ptr :: "place \<Rightarrow> nat option \<Rightarrow> heap \<Rightarrow> heap option" where
  "write_ptr (Var v) q h = (if v < length (vars h) then Some (h\<lparr>vars := (vars h)[v := q]\<rparr>) else None)"
| "write_ptr (Member a i) q h =
     (case obj_at (objs h) a of
        None \<Rightarrow> None
      | Some ob \<Rightarrow>
          if i < length (members ob) then Some (h\<lparr>objs := (objs h)[a := Some (ob\<lparr>members := (members ob)[i := q]\<rparr>)]\<rparr>)
          else None)"

text \<open>\<open>make\<close>: the new object has \<open>n\<close> pointers among its members, which are null; what its constructor
  puts there are assignments.\<close>

definition make_ptr :: "nat \<Rightarrow> heap \<Rightarrow> heap" where
  "make_ptr n h =
     h\<lparr>objs := objs h @ [Some \<lparr>refcount = 0 + 1, members = replicate n None\<rparr>], vars := vars h @ [Some (length (objs h))]\<rparr>"

text \<open>The constructor from a raw pointer, by which \<open>intrusive_ptr_from_this\<close> and the casts make theirs.\<close>

definition from_raw :: "nat \<Rightarrow> heap \<Rightarrow> heap option" where
  "from_raw a h = do {
     os \<leftarrow> inc_ref (Some a) (objs h);
     Some (h\<lparr>objs := os, vars := vars h @ [Some a]\<rparr>) }"

definition copy_construct :: "place \<Rightarrow> heap \<Rightarrow> heap option" where
  "copy_construct other h = do {
     p \<leftarrow> read_ptr other h;
     os \<leftarrow> inc_ref p (objs h);
     Some (h\<lparr>objs := os, vars := vars h @ [p]\<rparr>) }"

definition move_construct :: "place \<Rightarrow> heap \<Rightarrow> heap option" where
  "move_construct other h = do {
     p \<leftarrow> read_ptr other h;
     h \<leftarrow> write_ptr other None h;
     Some (h\<lparr>vars := vars h @ [p]\<rparr>) }"

definition copy_assign :: "place \<Rightarrow> place \<Rightarrow> heap \<Rightarrow> heap option" where
  "copy_assign this other h = do {
     p \<leftarrow> read_ptr this h;
     q \<leftarrow> read_ptr other h;
     if p = q then Some h
     else do {
       os \<leftarrow> inc_ref q (objs h);
       h \<leftarrow> write_ptr this q (h\<lparr>objs := os\<rparr>);
       os \<leftarrow> dec_ref p (objs h);
       Some (h\<lparr>objs := os\<rparr>) } }"

definition move_assign :: "place \<Rightarrow> place \<Rightarrow> heap \<Rightarrow> heap option" where
  "move_assign this other h = do {
     old \<leftarrow> read_ptr this h;
     q \<leftarrow> read_ptr other h;
     h \<leftarrow> write_ptr this q h;
     h \<leftarrow> write_ptr other None h;
     os \<leftarrow> dec_ref old (objs h);
     Some (h\<lparr>objs := os\<rparr>) }"

definition swap_ptr :: "place \<Rightarrow> place \<Rightarrow> heap \<Rightarrow> heap option" where
  "swap_ptr this other h = do {
     p \<leftarrow> read_ptr this h;
     q \<leftarrow> read_ptr other h;
     h \<leftarrow> write_ptr this q h;
     write_ptr other p h }"

text \<open>\<open>reset\<close> and the destructor: the count goes down, and with it perhaps a tree of objects, before the
  pointer is set to null.\<close>

definition reset_ptr :: "place \<Rightarrow> heap \<Rightarrow> heap option" where
  "reset_ptr this h = do {
     p \<leftarrow> read_ptr this h;
     os \<leftarrow> dec_ref p (objs h);
     write_ptr this None (h\<lparr>objs := os\<rparr>) }"

definition release_ptr :: "place \<Rightarrow> heap \<Rightarrow> heap option" where
  "release_ptr this h = do {
     p \<leftarrow> read_ptr this h;
     h \<leftarrow> write_ptr this None h;
     Some (case p of None \<Rightarrow> h | Some a \<Rightarrow> h\<lparr>released := released h @ [a]\<rparr>) }"

subsection \<open>The invariant\<close>

text \<open>All pointers that are members of live objects.\<close>

definition ptrs_at :: "obj option \<Rightarrow> nat option multiset" where
  "ptrs_at x = (case x of None \<Rightarrow> {#} | Some ob \<Rightarrow> mset (members ob))"

definition member_ptrs :: "objects \<Rightarrow> nat option multiset" where
  "member_ptrs os = sum_list (map ptrs_at os)"

text \<open>Between the steps of a deletion: \<open>V\<close> are the other pointers that still count, and \<open>W\<close> the
  objects that are no longer pointed to but not yet freed.\<close>

definition rc_inv :: "objects \<Rightarrow> nat option multiset \<Rightarrow> nat list \<Rightarrow> bool" where
  "rc_inv os V W \<longleftrightarrow>
     (\<forall>a. count (member_ptrs os + V) (Some a) = (case obj_at os a of None \<Rightarrow> 0 | Some ob \<Rightarrow> refcount ob)) \<and>
     distinct W \<and> set W = {a. \<exists>ob. obj_at os a = Some ob \<and> refcount ob = 0}"

text \<open>The pointers that are no members: those of the code, and the released ones.\<close>

definition owners :: "heap \<Rightarrow> nat option multiset" where
  "owners h = mset (vars h) + image_mset Some (mset (released h))"

definition heap_ok :: "heap \<Rightarrow> bool" where
  "heap_ok h \<longleftrightarrow> rc_inv (objs h) (owners h) []"

lemma member_ptrs_update:
  assumes "a < length os"
  shows "member_ptrs (os[a := x]) + ptrs_at (os ! a) = member_ptrs os + ptrs_at x"
  using assms
proof (induction os arbitrary: a)
  case (Cons y os)
  then show ?case by (cases a) (auto simp: member_ptrs_def ac_simps)
qed simp

lemma member_ptrs_same:
  assumes "obj_at os a = Some ob" "members ob' = members ob"
  shows "member_ptrs (os[a := Some ob']) = member_ptrs os"
  using member_ptrs_update [OF obj_at_less [OF assms(1)], of "Some ob'"] assms obj_at_less [OF assms(1)]
  by (simp add: ptrs_at_def obj_at_def)

lemma rc_invD: "rc_inv os V W \<Longrightarrow> count (member_ptrs os + V) (Some a) = (case obj_at os a of None \<Rightarrow> 0 | Some ob \<Rightarrow> refcount ob)"
  by (simp add: rc_inv_def)

lemma rc_inv_points:
  assumes "rc_inv os V W" "Some a \<in># member_ptrs os + V"
  shows "\<exists>ob. obj_at os a = Some ob \<and> 0 < refcount ob \<and> refcount ob = count (member_ptrs os + V) (Some a)"
proof -
  from assms(2) have "0 < count (member_ptrs os + V) (Some a)" by (simp only: count_greater_zero_iff)
  with rc_invD [OF assms(1), of a] show ?thesis by (auto split: option.splits)
qed

lemma dec_count_inv:
  assumes "rc_inv os (add_mset (Some a) V) (D @ W)"
  shows "\<exists>os' W'. dec_count a (os, W) = Some (os', W') \<and> rc_inv os' V (D @ W')"
proof -
  from rc_inv_points [OF assms, of a] obtain ob where
    ob: "obj_at os a = Some ob" "0 < refcount ob" "refcount ob = count (member_ptrs os + add_mset (Some a) V) (Some a)" by auto
  define os1 where "os1 = os[a := Some (ob\<lparr>refcount := refcount ob - 1\<rparr>)]"
  let ?W = "if refcount ob = 1 then W @ [a] else W"
  have m: "member_ptrs os1 = member_ptrs os" unfolding os1_def by (rule member_ptrs_same [OF ob(1)]) simp
  have o: "obj_at os1 b = (if b = a then Some (ob\<lparr>refcount := refcount ob - 1\<rparr>) else obj_at os b)" for b
    unfolding os1_def using obj_at_less [OF ob(1)] by (rule obj_at_update)
  have c: "count (member_ptrs os1 + V) (Some b) = (case obj_at os1 b of None \<Rightarrow> 0 | Some ob \<Rightarrow> refcount ob)" for b
    using rc_invD [OF assms, of b] ob by (simp add: m o split: if_splits)
  have a: "a \<notin> set (D @ W)" using assms ob(1,2) by (auto simp: rc_inv_def)
  have w: "set (D @ W) = {a. \<exists>ob. obj_at os a = Some ob \<and> refcount ob = 0}" "distinct (D @ W)"
    using assms by (simp_all add: rc_inv_def)
  have "set (D @ ?W) = {a. \<exists>ob. obj_at os1 a = Some ob \<and> refcount ob = 0}"
  proof -
    have "set (D @ ?W) = (if refcount ob = 1 then insert a (set (D @ W)) else set (D @ W))" by simp
    also have "\<dots> = {a. \<exists>ob. obj_at os1 a = Some ob \<and> refcount ob = 0}"
      unfolding w(1) using ob(1,2) by (auto simp: o)
    finally show ?thesis .
  qed
  moreover have "distinct (D @ ?W)" using a w(2) by auto
  ultimately have "rc_inv os1 V (D @ ?W)" using c by (simp add: rc_inv_def)
  moreover have "dec_count a (os, W) = Some (os1, ?W)" using ob(1,2) by (simp add: dec_count_def os1_def)
  ultimately show ?thesis by blast
qed

lemma rc_inv_null [simp]: "rc_inv os (add_mset None V) W \<longleftrightarrow> rc_inv os V W"
  by (simp add: rc_inv_def)

lemma drop_members_inv:
  "rc_inv os (mset ps + V) (D @ W) \<Longrightarrow>
    \<exists>os' W'. drop_members ps (os, W) = Some (os', W') \<and> rc_inv os' V (D @ W')"
proof (induction ps arbitrary: os W)
  case (Cons p ps)
  show ?case
  proof (cases p)
    case None
    then show ?thesis using Cons by simp
  next
    case (Some a)
    with Cons.prems have "rc_inv os (add_mset (Some a) (mset ps + V)) (D @ W)" by simp
    from dec_count_inv [OF this] obtain os1 W1 where
      d: "dec_count a (os, W) = Some (os1, W1)" "rc_inv os1 (mset ps + V) (D @ W1)" by blast
    from Cons.IH [OF d(2)] d(1) Some show ?thesis by simp
  qed
qed auto

lemma dec_count_keeps:
  "dec_count a (os, w) = Some (os', w') \<Longrightarrow> map_option members (obj_at os' b) = map_option members (obj_at os b)"
  by (auto simp: dec_count_def Let_def obj_at_update [OF obj_at_less] split: option.splits if_splits)

lemma drop_members_keeps:
  "drop_members ps (os, w) = Some (os', w') \<Longrightarrow> map_option members (obj_at os' b) = map_option members (obj_at os b)"
proof (induction ps arbitrary: os w)
  case (Cons p ps)
  then show ?case by (cases p) (auto dest: dec_count_keeps split: option.splits)
qed simp

lemma delete_obj_inv:
  assumes "rc_inv os V (W @ [a])"
  shows "\<exists>os' W'. delete_obj a (os, W) = Some (os', W') \<and> rc_inv os' V W'"
proof -
  have a: "a \<notin> set W" using assms by (simp add: rc_inv_def)
  have zero: "set (W @ [a]) = {a. \<exists>ob. obj_at os a = Some ob \<and> refcount ob = 0}" using assms by (simp add: rc_inv_def)
  then obtain ob where ob: "obj_at os a = Some ob" "refcount ob = 0" by auto
  let ?os = "os[a := Some (ob\<lparr>members := []\<rparr>)]"
  have m: "member_ptrs ?os + mset (members ob) = member_ptrs os"
    using member_ptrs_update [OF obj_at_less [OF ob(1)], of "Some (ob\<lparr>members := []\<rparr>)"] ob(1) obj_at_less [OF ob(1)]
    by (simp add: ptrs_at_def obj_at_def)
  have o: "obj_at ?os b = (if b = a then Some (ob\<lparr>members := []\<rparr>) else obj_at os b)" for b
    using obj_at_less [OF ob(1)] by (rule obj_at_update)
  have "rc_inv ?os (mset (members ob) + V) ([a] @ W)"
  proof -
    have "count (member_ptrs ?os + (mset (members ob) + V)) (Some b) = (case obj_at ?os b of None \<Rightarrow> 0 | Some ob \<Rightarrow> refcount ob)" for b
      using rc_invD [OF assms, of b] ob(1) by (simp add: m [symmetric] o add.assoc split: if_splits)
    moreover have "set ([a] @ W) = {a. \<exists>ob. obj_at ?os a = Some ob \<and> refcount ob = 0}"
      using zero ob by (auto simp: o)
    ultimately show ?thesis using assms a by (simp add: rc_inv_def)
  qed
  from drop_members_inv [OF this] obtain os1 W1 where
    d: "drop_members (members ob) (?os, W) = Some (os1, W1)" "rc_inv os1 V ([a] @ W1)" by blast
  then obtain ob1 where ob1: "obj_at os1 a = Some ob1" "refcount ob1 = 0" by (auto simp: rc_inv_def)
  let ?os1 = "os1[a := None]"
  have "map_option members (obj_at os1 a) = map_option members (obj_at ?os a)" by (rule drop_members_keeps [OF d(1)])
  then have "members ob1 = []" using ob1(1) by (simp add: o)
  then have m1: "member_ptrs ?os1 = member_ptrs os1"
    using member_ptrs_update [OF obj_at_less [OF ob1(1)], of None] ob1(1) obj_at_less [OF ob1(1)] by (simp add: ptrs_at_def obj_at_def)
  have o1: "obj_at ?os1 b = (if b = a then None else obj_at os1 b)" for b
    using obj_at_less [OF ob1(1)] by (rule obj_at_update)
  have "count (member_ptrs ?os1 + V) (Some b) = (case obj_at ?os1 b of None \<Rightarrow> 0 | Some ob \<Rightarrow> refcount ob)" for b
    using rc_invD [OF d(2), of b] ob1 by (auto simp: m1 o1)
  moreover have "set W1 = {a. \<exists>ob. obj_at ?os1 a = Some ob \<and> refcount ob = 0}" "distinct W1"
    using d(2) by (auto simp: rc_inv_def o1)
  ultimately have "rc_inv ?os1 V W1" by (simp add: rc_inv_def)
  moreover have "delete_obj a (os, W) = Some (?os1, W1)" using ob(1) d(1) ob1 by (simp add: delete_obj_def)
  ultimately show ?thesis by blast
qed

lemma delete_loop_inv: "rc_inv os V W \<Longrightarrow> \<exists>os'. delete_loop (os, W) = Some os' \<and> rc_inv os' V []"
proof (induction "(os, W)" arbitrary: os W rule: delete_loop.induct)
  case (1 os W)
  show ?case
  proof (cases "W = []")
    case False
    then have "rc_inv os V (butlast W @ [last W])" using 1(2) by simp
    from delete_obj_inv [OF this] obtain os' W' where
      d: "delete_obj (last W) (os, butlast W) = Some (os', W')" "rc_inv os' V W'" by blast
    from 1(1) [OF False d(1) d(2)] show ?thesis using d(1) False by (subst delete_loop.simps) simp
  qed (use 1 in \<open>simp add: delete_loop.simps\<close>)
qed

lemma dec_ref_inv:
  assumes "rc_inv os (add_mset p V) []"
  shows "\<exists>os'. dec_ref p os = Some os' \<and> rc_inv os' V []"
proof (cases p)
  case (Some a)
  with assms dec_count_inv [of os a V "[]" "[]"] obtain os1 W1 where
    "dec_count a (os, []) = Some (os1, W1)" "rc_inv os1 V W1" by auto
  with delete_loop_inv show ?thesis using Some by (simp add: dec_ref_def)
qed (use assms in \<open>simp add: dec_ref_def\<close>)

lemma inc_ref_inv:
  assumes "rc_inv os V []" "p \<in># member_ptrs os + V"
  shows "\<exists>os'. inc_ref p os = Some os' \<and> rc_inv os' (add_mset p V) []"
proof (cases p)
  case (Some a)
  from rc_inv_points [OF assms(1)] assms(2) Some obtain ob where
    ob: "obj_at os a = Some ob" "0 < refcount ob" "refcount ob = count (member_ptrs os + V) (Some a)" by blast
  define os1 where "os1 = os[a := Some (ob\<lparr>refcount := refcount ob + 1\<rparr>)]"
  have m: "member_ptrs os1 = member_ptrs os" unfolding os1_def by (rule member_ptrs_same [OF ob(1)]) simp
  have o: "obj_at os1 b = (if b = a then Some (ob\<lparr>refcount := refcount ob + 1\<rparr>) else obj_at os b)" for b
    unfolding os1_def using obj_at_less [OF ob(1)] by (rule obj_at_update)
  have "count (member_ptrs os1 + add_mset p V) (Some b) = (case obj_at os1 b of None \<Rightarrow> 0 | Some ob \<Rightarrow> refcount ob)" for b
    using rc_invD [OF assms(1), of b] ob Some by (simp add: m o split: if_splits)
  moreover have "{} = {a. \<exists>ob. obj_at os1 a = Some ob \<and> refcount ob = 0}" using assms(1) by (auto simp: rc_inv_def o)
  ultimately have "rc_inv os1 (add_mset p V) []" by (simp add: rc_inv_def)
  then show ?thesis using ob(1) Some by (simp add: inc_ref_def os1_def)
qed (use assms in \<open>simp add: inc_ref_def\<close>)

subsection \<open>Reading and writing pointers\<close>

definition all_ptrs :: "heap \<Rightarrow> nat option multiset" where
  "all_ptrs h = member_ptrs (objs h) + owners h"

lemma mset_vars_update: "v < length vs \<Longrightarrow> add_mset (vs ! v) (mset (vs[v := p])) = add_mset p (mset vs)"
  by (simp add: mset_update)

text \<open>The invariant depends only on the counts and on the pointers altogether.\<close>

lemma rc_inv_cong:
  assumes "rc_inv os V W" "member_ptrs os + V = member_ptrs os' + V'"
    and "\<And>a. map_option refcount (obj_at os' a) = map_option refcount (obj_at os a)"
  shows "rc_inv os' V' W"
proof -
  have c: "(case obj_at os' a of None \<Rightarrow> 0 | Some ob \<Rightarrow> refcount ob) = (case obj_at os a of None \<Rightarrow> 0 | Some ob \<Rightarrow> refcount ob)"
    "(\<exists>ob. obj_at os' a = Some ob \<and> refcount ob = 0) = (\<exists>ob. obj_at os a = Some ob \<and> refcount ob = 0)" for a
    using assms(3) [of a] by (cases "obj_at os a"; cases "obj_at os' a"; simp)+
  from assms(1) show ?thesis unfolding rc_inv_def assms(2) c by blast
qed

lemma read_in_ptrs:
  assumes "read_ptr pl h = Some p"
  shows "p \<in># all_ptrs h"
proof (cases pl)
  case (Var v)
  with assms show ?thesis by (auto simp: all_ptrs_def owners_def split: if_splits)
next
  case (Member a i)
  with assms obtain ob where ob: "obj_at (objs h) a = Some ob" "i < length (members ob)" "p = members ob ! i"
    by (auto split: option.splits if_splits)
  have "member_ptrs ((objs h)[a := None]) + mset (members ob) = member_ptrs (objs h)"
    using member_ptrs_update [OF obj_at_less [OF ob(1)], of None] ob(1) obj_at_less [OF ob(1)] by (simp add: ptrs_at_def obj_at_def)
  then have "p \<in># member_ptrs (objs h)" using ob(2,3) by (metis nth_mem set_mset_mset union_iff)
  then show ?thesis by (simp add: all_ptrs_def)
qed

lemma read_write: "read_ptr pl h = Some p \<Longrightarrow> \<exists>h'. write_ptr pl q h = Some h'"
  by (cases pl) (auto split: option.splits if_splits)

lemma write_ptrs:
  assumes "read_ptr pl h = Some p" "write_ptr pl q h = Some h'"
  shows "add_mset p (all_ptrs h') = add_mset q (all_ptrs h)"
    "map_option refcount (obj_at (objs h') a) = map_option refcount (obj_at (objs h) a)"
    "released h' = released h"
    "read_ptr pl' h \<noteq> None \<Longrightarrow> read_ptr pl' h' = (if pl' = pl then Some q else read_ptr pl' h)"
proof -
  show "add_mset p (all_ptrs h') = add_mset q (all_ptrs h)"
  proof (cases pl)
    case (Var v)
    with assms have "v < length (vars h)" "p = vars h ! v" "h' = h\<lparr>vars := (vars h)[v := q]\<rparr>" by (auto split: if_splits)
    with mset_vars_update [of v "vars h" q] show ?thesis by (simp add: all_ptrs_def owners_def add.assoc)
  next
    case (Member a i)
    with assms obtain ob where ob: "obj_at (objs h) a = Some ob" "i < length (members ob)" "p = members ob ! i"
      "h' = h\<lparr>objs := (objs h)[a := Some (ob\<lparr>members := (members ob)[i := q]\<rparr>)]\<rparr>" by (auto split: option.splits if_splits)
    have "member_ptrs (objs h') + mset (members ob) = member_ptrs (objs h) + mset ((members ob)[i := q])"
      using member_ptrs_update [OF obj_at_less [OF ob(1)], of "Some (ob\<lparr>members := (members ob)[i := q]\<rparr>)"] ob(1,4)
        obj_at_less [OF ob(1)] by (simp add: ptrs_at_def obj_at_def)
    then have "add_mset p (member_ptrs (objs h')) + mset (members ob) = add_mset q (member_ptrs (objs h)) + mset (members ob)"
      using mset_vars_update [of i "members ob" q] ob(2,3)
      by (metis (no_types, lifting) add_mset_add_single union_mset_add_mset_left union_mset_add_mset_right)
    then have "add_mset p (member_ptrs (objs h')) = add_mset q (member_ptrs (objs h))" by simp
    moreover have "owners h' = owners h" using ob(4) by (simp add: owners_def)
    ultimately show ?thesis unfolding all_ptrs_def by (metis union_mset_add_mset_left)
  qed
  show "map_option refcount (obj_at (objs h') a) = map_option refcount (obj_at (objs h) a)" "released h' = released h"
    using assms(2) by (cases pl; auto simp: obj_at_update [OF obj_at_less] split: option.splits if_splits)+
  show "read_ptr pl' h \<noteq> None \<Longrightarrow> read_ptr pl' h' = (if pl' = pl then Some q else read_ptr pl' h)"
    using assms(2) by (cases pl; cases pl')
      (auto simp: obj_at_update [OF obj_at_less] nth_list_update split: option.splits if_splits)
qed

lemma inc_ref_reads:
  assumes "inc_ref q (objs h) = Some os"
  shows "read_ptr pl (h\<lparr>objs := os\<rparr>) = read_ptr pl h"
  using assms by (cases pl; auto simp: inc_ref_def obj_at_update [OF obj_at_less] split: option.splits if_splits)

subsection \<open>A deletion beside a member not yet null\<close>

text \<open>\<open>reset\<close> of a member of an object that stays does what it would do with the member set to null first.\<close>

definition unset :: "nat \<Rightarrow> nat \<Rightarrow> objects \<Rightarrow> objects" where
  "unset a i os = os[a := map_option (\<lambda>ob. ob\<lparr>members := (members ob)[i := None]\<rparr>) (os ! a)]"

lemma unset_at:
  "obj_at (unset a i os) b =
    (if b = a then map_option (\<lambda>ob. ob\<lparr>members := (members ob)[i := None]\<rparr>) (obj_at os b) else obj_at os b)"
  by (auto simp: unset_def obj_at_def)

lemma unset_update:
  "b \<noteq> a \<Longrightarrow> (unset a i os)[b := x] = unset a i (os[b := x])"
  "a < length os \<Longrightarrow> (unset a i os)[a := Some (ob\<lparr>members := (members ob)[i := None]\<rparr>)] = unset a i (os[a := Some ob])"
  by (simp_all add: unset_def list_update_swap)

lemma unset_dec_count:
  "dec_count b (unset a i os, W) = map_option (\<lambda>(os, W). (unset a i os, W)) (dec_count b (os, W))"
proof (cases "obj_at os b")
  case None
  then show ?thesis by (cases "b = a") (simp_all add: dec_count_def unset_at)
next
  case (Some ob)
  have "(unset a i os)[a := Some (ob\<lparr>members := (members ob)[i := None], refcount := k\<rparr>)] = unset a i (os[a := Some (ob\<lparr>refcount := k\<rparr>)])"
    if "b = a" for k
  proof -
    have eq: "ob\<lparr>members := (members ob)[i := None], refcount := k\<rparr> = ob\<lparr>refcount := k, members := (members ob)[i := None]\<rparr>"
      by (cases ob) simp
    have "(unset a i os)[a := Some (ob\<lparr>refcount := k, members := (members ob)[i := None]\<rparr>)] = unset a i (os[a := Some (ob\<lparr>refcount := k\<rparr>)])"
      using unset_update(2) [of a os i "ob\<lparr>refcount := k\<rparr>"] obj_at_less [OF Some] that by simp
    then show ?thesis unfolding eq that .
  qed
  with Some show ?thesis by (cases "b = a") (simp_all add: dec_count_def Let_def unset_at unset_update(1))
qed

lemma unset_drop_members:
  "drop_members ps (unset a i os, W) = map_option (\<lambda>(os, W). (unset a i os, W)) (drop_members ps (os, W))"
proof (induction ps arbitrary: os W)
  case (Cons p ps)
  show ?case
  proof (cases p)
    case (Some b)
    show ?thesis
    proof (cases "dec_count b (os, W)")
      case (Some s)
      with Cons.IH \<open>p = Some b\<close> show ?thesis by (cases s) (simp add: unset_dec_count)
    qed (simp add: \<open>p = Some b\<close> unset_dec_count)
  qed (use Cons.IH in simp)
qed simp

lemma unset_delete_obj:
  assumes "b \<noteq> a"
  shows "delete_obj b (unset a i os, W) = map_option (\<lambda>(os, W). (unset a i os, W)) (delete_obj b (os, W))"
proof (cases "obj_at os b")
  case (Some ob)
  show ?thesis
  proof (cases "drop_members (members ob) (os[b := Some (ob\<lparr>members := []\<rparr>)], W)")
    case None
    then show ?thesis using Some assms by (simp add: delete_obj_def unset_at unset_update(1) unset_drop_members)
  next
    case (Some s)
    then show ?thesis using \<open>obj_at os b = Some ob\<close> assms
      by (cases s) (simp add: delete_obj_def unset_at unset_update(1) unset_drop_members split: option.split)
  qed
qed (simp add: delete_obj_def unset_at assms)

lemma delete_obj_keeps:
  assumes "delete_obj b (os, W) = Some (os', W')" "b \<noteq> a"
  shows "map_option members (obj_at os' a) = map_option members (obj_at os a)"
proof -
  obtain ob os1 ob1 where o: "obj_at os b = Some ob" "obj_at os1 b = Some ob1"
    "drop_members (members ob) (os[b := Some (ob\<lparr>members := []\<rparr>)], W) = Some (os1, W')" "os' = os1[b := None]"
    using assms(1) by (auto simp: delete_obj_def Let_def split: option.splits if_splits)
  from drop_members_keeps [OF o(3), of a] o(4) assms(2) show ?thesis
    by (simp add: obj_at_update [OF obj_at_less [OF o(1)]] obj_at_update [OF obj_at_less [OF o(2)]])
qed

lemma delete_loop_live: "delete_loop (os, W) = Some os' \<Longrightarrow> live_objs os' \<subseteq> live_objs os"
proof (induction "(os, W)" arbitrary: os W rule: delete_loop.induct)
  case (1 os W)
  show ?case
  proof (cases "W = []")
    case False
    with 1(2) obtain os1 W1 where d: "delete_obj (last W) (os, butlast W) = Some (os1, W1)" "delete_loop (os1, W1) = Some os'"
      by (subst (asm) delete_loop.simps) (auto split: option.splits)
    from 1(1) [OF False d(1) d(2)] delete_obj_live(1) [OF d(1)] show ?thesis by auto
  qed (use 1(2) in \<open>simp add: delete_loop.simps\<close>)
qed

lemma unset_delete_loop:
  "delete_loop (unset a i os, W) = Some os1 \<Longrightarrow> a \<in> live_objs os1 \<Longrightarrow>
    \<exists>os'. delete_loop (os, W) = Some os' \<and> os1 = unset a i os' \<and> map_option members (obj_at os' a) = map_option members (obj_at os a)"
proof (induction "(os, W)" arbitrary: os W rule: delete_loop.induct)
  case (1 os W)
  show ?case
  proof (cases "W = []")
    case False
    with 1(2) obtain os2 W2 where d: "delete_obj (last W) (unset a i os, butlast W) = Some (os2, W2)"
      "delete_loop (os2, W2) = Some os1" by (subst (asm) delete_loop.simps) (auto split: option.splits)
    have n: "last W \<noteq> a" using delete_loop_live [OF d(2)] delete_obj_live(1) [OF d(1)] 1(3) by auto
    from unset_delete_obj [OF this, of i os "butlast W"] d(1) obtain os3 where
      o: "delete_obj (last W) (os, butlast W) = Some (os3, W2)" "os2 = unset a i os3"
      by (cases "delete_obj (last W) (os, butlast W)") auto
    from 1(1) [OF False o(1) d(2) [unfolded o(2)] 1(3)] obtain os' where
      "delete_loop (os3, W2) = Some os'" "os1 = unset a i os'" "map_option members (obj_at os' a) = map_option members (obj_at os3 a)"
      by blast
    with o(1) False delete_obj_keeps [OF o(1) n] show ?thesis by (subst delete_loop.simps) simp
  qed (use 1(2) in \<open>simp add: delete_loop.simps\<close>)
qed

lemma unset_dec_ref:
  assumes "dec_ref p (unset a i os) = Some os1" "a \<in> live_objs os1"
  shows "\<exists>os'. dec_ref p os = Some os' \<and> os1 = unset a i os' \<and> map_option members (obj_at os' a) = map_option members (obj_at os a)"
proof (cases p)
  case (Some b)
  with assms(1) obtain os2 W2 where d: "dec_count b (unset a i os, []) = Some (os2, W2)" "delete_loop (os2, W2) = Some os1"
    by (auto simp: dec_ref_def bind_eq_Some_conv)
  from d(1) obtain os3 where o: "dec_count b (os, []) = Some (os3, W2)" "os2 = unset a i os3"
    by (auto simp: unset_dec_count)
  from unset_delete_loop [OF d(2) [unfolded o(2)] assms(2)] o(1) dec_count_keeps [OF o(1), of a] Some
  show ?thesis by (auto simp: dec_ref_def)
qed (use assms in \<open>simp add: dec_ref_def\<close>)


subsection \<open>Sequences of operations\<close>

datatype ptr_op = MakePtr nat | FromRaw nat | CopyConstruct place | MoveConstruct place | CopyAssign place place
  | MoveAssign place place | SwapPtr place place | ResetPtr place | ReleasePtr place

fun exec :: "ptr_op \<Rightarrow> heap \<Rightarrow> heap option" where
  "exec (MakePtr n) h = Some (make_ptr n h)"
| "exec (FromRaw a) h = from_raw a h"
| "exec (CopyConstruct w) h = copy_construct w h"
| "exec (MoveConstruct w) h = move_construct w h"
| "exec (CopyAssign v w) h = copy_assign v w h"
| "exec (MoveAssign v w) h = move_assign v w h"
| "exec (SwapPtr v w) h = swap_ptr v w h"
| "exec (ResetPtr v) h = reset_ptr v h"
| "exec (ReleasePtr v) h = release_ptr v h"

text \<open>What the caller sees to: the operands are pointers that exist, a raw pointer is that of an object
  that has not been freed, and the object whose member is reset is held by a pointer that is no member.\<close>

definition exists_ptr :: "place \<Rightarrow> heap \<Rightarrow> bool" where
  "exists_ptr pl h \<longleftrightarrow> read_ptr pl h \<noteq> None"

fun op_valid :: "ptr_op \<Rightarrow> heap \<Rightarrow> bool" where
  "op_valid (MakePtr n) h = True"
| "op_valid (FromRaw a) h = (obj_at (objs h) a \<noteq> None)"
| "op_valid (CopyConstruct w) h = exists_ptr w h"
| "op_valid (MoveConstruct w) h = exists_ptr w h"
| "op_valid (CopyAssign v w) h = (exists_ptr v h \<and> exists_ptr w h)"
| "op_valid (MoveAssign v w) h = (exists_ptr v h \<and> exists_ptr w h)"
| "op_valid (SwapPtr v w) h = (exists_ptr v h \<and> exists_ptr w h)"
| "op_valid (ResetPtr v) h = (exists_ptr v h \<and>
     (case v of Var i \<Rightarrow> True | Member a i \<Rightarrow> List.member (vars h) (Some a) \<or> List.member (released h) a))"
| "op_valid (ReleasePtr v) h = exists_ptr v h"

fun run_ops :: "ptr_op list \<Rightarrow> heap \<Rightarrow> heap option" where
  "run_ops [] h = Some h"
| "run_ops (p # ops) h = (if op_valid p h then Option.bind (exec p h) (run_ops ops) else run_ops ops h)"

text \<open>Every operation keeps the invariant.\<close>

lemma existsE: "exists_ptr pl h \<Longrightarrow> (\<And>p. read_ptr pl h = Some p \<Longrightarrow> thesis) \<Longrightarrow> thesis"
  by (auto simp: exists_ptr_def)

lemma heap_okD: "heap_ok h \<Longrightarrow> rc_inv (objs h) (owners h) []"
  by (simp add: heap_ok_def)

text \<open>A state with the counts of a correct one, whose pointers and some others \<open>V\<close> are those of the correct one.\<close>

lemma heap_ok_cong:
  assumes "heap_ok h" "add_mset None (all_ptrs h) = all_ptrs h' + V"
    and "\<And>a. map_option refcount (obj_at (objs h') a) = map_option refcount (obj_at (objs h) a)"
  shows "rc_inv (objs h') (V + owners h') []"
proof (rule rc_inv_cong)
  show "rc_inv (objs h) (add_mset None (owners h)) []" using assms(1) by (simp add: heap_ok_def)
  show "member_ptrs (objs h) + add_mset None (owners h) = member_ptrs (objs h') + (V + owners h')"
    using assms(2) by (simp add: all_ptrs_def ac_simps)
qed (rule assms(3))

lemma rc_inv_nulls: "rc_inv os (add_mset None V) W \<Longrightarrow> rc_inv os V W"
  by simp

lemma owners_var: "owners (h\<lparr>objs := os, vars := vars h @ [p]\<rparr>) = add_mset p (owners h)"
  "owners (h\<lparr>vars := vars h @ [p]\<rparr>) = add_mset p (owners h)"
  "owners (h\<lparr>objs := os\<rparr>) = owners h"
  by (simp_all add: owners_def)

lemma count_image_Some: "count (image_mset Some M) (Some a) = count M a"
  by (induction M) auto

lemma make_ptr_ok:
  assumes "heap_ok h"
  shows "heap_ok (make_ptr n h)"
proof -
  let ?os = "objs h"
  define ob :: obj where "ob = \<lparr>refcount = 0 + 1, members = replicate n None\<rparr>"
  have inv: "rc_inv ?os (owners h) []" using assms by (rule heap_okD)
  have o: "obj_at (?os @ [Some ob]) a = (if a = length ?os then Some ob else obj_at ?os a)" for a
    by (simp add: obj_at_def nth_append)
  have z: "count (mset (replicate n None)) (Some a) = 0" for a :: nat
    by (simp add: count_eq_zero_iff)
  have m: "count (member_ptrs (?os @ [Some ob])) (Some a) = count (member_ptrs ?os) (Some a)" for a
    using z [of a] by (simp add: member_ptrs_def ptrs_at_def ob_def)
  have none: "obj_at ?os (length ?os) = None" by (simp add: obj_at_def)
  with rc_invD [OF inv, of "length ?os"] have new: "count (member_ptrs ?os) (Some (length ?os)) = 0"
    "count (owners h) (Some (length ?os)) = 0" by simp_all
  have "count (member_ptrs (?os @ [Some ob]) + add_mset (Some (length ?os)) (owners h)) (Some a) =
      (case obj_at (?os @ [Some ob]) a of None \<Rightarrow> 0 | Some ob \<Rightarrow> refcount ob)" for a
    using rc_invD [OF inv, of a] new none by (auto simp: m o) (simp_all add: ob_def)
  moreover have "{} = {a. \<exists>x. obj_at (?os @ [Some ob]) a = Some x \<and> refcount x = 0}"
  proof -
    have "0 < refcount ob" by (simp add: ob_def)
    with inv show ?thesis by (auto simp: rc_inv_def o)
  qed
  ultimately show ?thesis by (simp add: heap_ok_def make_ptr_def owners_var rc_inv_def ob_def)
qed

lemma inc_ref_read:
  assumes "heap_ok h" "read_ptr pl h = Some p"
  shows "\<exists>os. inc_ref p (objs h) = Some os \<and> rc_inv os (add_mset p (owners h)) []"
  by (rule inc_ref_inv [OF heap_okD [OF assms(1)]]) (use read_in_ptrs [OF assms(2)] in \<open>simp add: all_ptrs_def\<close>)

lemma construct_ok:
  assumes "heap_ok h"
  shows "obj_at (objs h) a \<noteq> None \<Longrightarrow> \<exists>h'. from_raw a h = Some h' \<and> heap_ok h'"
    and "exists_ptr w h \<Longrightarrow> \<exists>h'. copy_construct w h = Some h' \<and> heap_ok h'"
    and "exists_ptr w h \<Longrightarrow> \<exists>h'. move_construct w h = Some h' \<and> heap_ok h'"
proof -
  note inv = heap_okD [OF assms]
  show "\<exists>h'. from_raw a h = Some h' \<and> heap_ok h'" if "obj_at (objs h) a \<noteq> None"
  proof -
    from that inv have "count (member_ptrs (objs h) + owners h) (Some a) \<noteq> 0"
      by (fastforce simp: rc_invD [OF inv] rc_inv_def)
    then have "Some a \<in># member_ptrs (objs h) + owners h" by (simp only: count_eq_zero_iff not_not)
    from inc_ref_inv [OF inv this] show ?thesis by (auto simp: from_raw_def heap_ok_def owners_var)
  qed
  show "\<exists>h'. copy_construct w h = Some h' \<and> heap_ok h'" if "exists_ptr w h"
    using that inc_ref_read [OF assms] by (elim existsE) (fastforce simp: copy_construct_def heap_ok_def owners_var)
  show "\<exists>h'. move_construct w h = Some h' \<and> heap_ok h'" if "exists_ptr w h"
  proof -
    obtain p where p: "read_ptr w h = Some p" using \<open>exists_ptr w h\<close> by (rule existsE)
    obtain h1 where h1: "write_ptr w None h = Some h1" using read_write [OF p] by blast
    note s = write_ptrs [OF p h1]
    have "add_mset None (all_ptrs h) = all_ptrs h1 + {#p#}" using s(1) by simp
    from heap_ok_cong [OF assms this s(2)] p h1 show ?thesis
      by (simp add: move_construct_def heap_ok_def owners_var)
  qed
qed

lemma copy_assign_ok:
  assumes "heap_ok h" "exists_ptr v h" "exists_ptr w h"
  shows "\<exists>h'. copy_assign v w h = Some h' \<and> heap_ok h'"
proof -
  obtain p q where pq: "read_ptr v h = Some p" "read_ptr w h = Some q" using assms(2,3) by (elim existsE)
  show ?thesis
  proof (cases "p = q")
    case True
    with pq assms(1) show ?thesis by (simp add: copy_assign_def)
  next
    case False
    obtain os where os: "inc_ref q (objs h) = Some os" "rc_inv os (add_mset q (owners h)) []"
      using inc_ref_read [OF assms(1) pq(2)] by blast
    let ?h = "h\<lparr>objs := os\<rparr>"
    have r: "read_ptr v ?h = Some p" using inc_ref_reads [OF os(1)] pq(1) by simp
    obtain h1 where h1: "write_ptr v q ?h = Some h1" using read_write [OF r] by blast
    note s = write_ptrs [OF r h1]
    have "rc_inv (objs h1) (add_mset p (owners h1)) []"
    proof (rule rc_inv_cong [OF os(2)])
      show "member_ptrs os + add_mset q (owners h) = member_ptrs (objs h1) + add_mset p (owners h1)"
        using s(1) by (simp add: all_ptrs_def owners_var)
    qed (use s(2) in simp)
    from dec_ref_inv [OF this] pq os(1) False h1 show ?thesis
      by (auto simp: copy_assign_def heap_ok_def owners_var)
  qed
qed

lemma two_writes:
  assumes "read_ptr v h = Some p" "read_ptr w h = Some q" "write_ptr v q h = Some h1"
  shows "\<exists>h2. write_ptr w r h1 = Some h2 \<and> add_mset p (all_ptrs h2) = add_mset r (all_ptrs h) \<and>
    (\<forall>a. map_option refcount (obj_at (objs h2) a) = map_option refcount (obj_at (objs h) a))"
proof -
  note s = write_ptrs [OF assms(1,3)]
  have w: "read_ptr w h1 = Some q" using s(4) [of w] assms(2) by simp
  obtain h2 where h2: "write_ptr w r h1 = Some h2" using read_write [OF w] by blast
  note t = write_ptrs [OF w h2]
  have "add_mset q (add_mset p (all_ptrs h2)) = add_mset q (add_mset r (all_ptrs h))"
    using s(1) t(1) by (metis add_mset_commute)
  with h2 s(2) t(2) show ?thesis by simp
qed

lemma move_assign_ok:
  assumes "heap_ok h" "exists_ptr v h" "exists_ptr w h"
  shows "\<exists>h'. move_assign v w h = Some h' \<and> heap_ok h'"
proof -
  obtain p q where pq: "read_ptr v h = Some p" "read_ptr w h = Some q" using assms(2,3) by (elim existsE)
  obtain h1 where h1: "write_ptr v q h = Some h1" using read_write [OF pq(1)] by blast
  obtain h2 where h2: "write_ptr w None h1 = Some h2" "add_mset p (all_ptrs h2) = add_mset None (all_ptrs h)"
    "\<forall>a. map_option refcount (obj_at (objs h2) a) = map_option refcount (obj_at (objs h) a)"
    using two_writes [OF pq h1] by blast
  have "rc_inv (objs h2) ({#p#} + owners h2) []"
    by (rule heap_ok_cong [OF assms(1)]) (use h2 in simp_all)
  then have "rc_inv (objs h2) (add_mset p (owners h2)) []" by simp
  from dec_ref_inv [OF this] pq h1 h2(1) show ?thesis by (auto simp: move_assign_def heap_ok_def owners_var)
qed

lemma swap_ptr_ok:
  assumes "heap_ok h" "exists_ptr v h" "exists_ptr w h"
  shows "\<exists>h'. swap_ptr v w h = Some h' \<and> heap_ok h'"
proof -
  obtain p q where pq: "read_ptr v h = Some p" "read_ptr w h = Some q" using assms(2,3) by (elim existsE)
  obtain h1 where h1: "write_ptr v q h = Some h1" using read_write [OF pq(1)] by blast
  obtain h2 where h2: "write_ptr w p h1 = Some h2" "add_mset p (all_ptrs h2) = add_mset p (all_ptrs h)"
    "\<forall>a. map_option refcount (obj_at (objs h2) a) = map_option refcount (obj_at (objs h) a)"
    using two_writes [OF pq h1] by blast
  have "rc_inv (objs h2) ({#None#} + owners h2) []"
    by (rule heap_ok_cong [OF assms(1)]) (use h2 in simp_all)
  with pq h1 h2(1) show ?thesis by (simp add: swap_ptr_def heap_ok_def)
qed

lemma release_ptr_ok:
  assumes "heap_ok h" "exists_ptr v h"
  shows "\<exists>h'. release_ptr v h = Some h' \<and> heap_ok h'"
proof -
  obtain p where p: "read_ptr v h = Some p" using assms(2) by (rule existsE)
  obtain h1 where h1: "write_ptr v None h = Some h1" using read_write [OF p] by blast
  note s = write_ptrs [OF p h1]
  let ?h = "case p of None \<Rightarrow> h1 | Some a \<Rightarrow> h1\<lparr>released := released h1 @ [a]\<rparr>"
  have "add_mset None (all_ptrs h) = all_ptrs h1 + {#p#}" using s(1) by simp
  from heap_ok_cong [OF assms(1) this s(2)] have "rc_inv (objs h1) (add_mset p (owners h1)) []" by simp
  then have "heap_ok ?h" by (cases p) (simp_all add: heap_ok_def owners_def)
  with p h1 show ?thesis by (simp add: release_ptr_def)
qed

lemma reset_var_ok:
  assumes "heap_ok h" "v < length (vars h)"
  shows "\<exists>h'. reset_ptr (Var v) h = Some h' \<and> heap_ok h'"
proof -
  have "add_mset (vars h ! v) (owners (h\<lparr>vars := (vars h)[v := None]\<rparr>)) = add_mset None (owners h)"
    using mset_vars_update [OF assms(2), of None] by (simp add: owners_def)
  then have "rc_inv (objs h) (add_mset (vars h ! v) (owners (h\<lparr>vars := (vars h)[v := None]\<rparr>))) []"
    using heap_okD [OF assms(1)] by simp
  from dec_ref_inv [OF this] assms(2) show ?thesis by (auto simp: reset_ptr_def heap_ok_def owners_def)
qed

lemma reset_member_ok:
  assumes "heap_ok h" "exists_ptr (Member a i) h" "Some a \<in># owners h"
  shows "\<exists>h'. reset_ptr (Member a i) h = Some h' \<and> heap_ok h'"
proof -
  obtain p where p: "read_ptr (Member a i) h = Some p" using assms(2) by (rule existsE)
  then obtain ob where ob: "obj_at (objs h) a = Some ob" "i < length (members ob)"
    by (auto split: option.splits if_splits)
  have w: "write_ptr (Member a i) None h = Some (h\<lparr>objs := unset a i (objs h)\<rparr>)"
    using ob obj_at_less [OF ob(1)] by (simp add: unset_def obj_at_def)
  note s = write_ptrs [OF p w]
  have "add_mset None (all_ptrs h) = all_ptrs (h\<lparr>objs := unset a i (objs h)\<rparr>) + {#p#}" using s(1) by simp
  from heap_ok_cong [OF assms(1) this s(2)] have "rc_inv (unset a i (objs h)) (add_mset p (owners h)) []"
    by (simp add: owners_var)
  from dec_ref_inv [OF this] obtain os1 where
    os1: "dec_ref p (unset a i (objs h)) = Some os1" "rc_inv os1 (owners h) []" by blast
  from rc_inv_points [OF os1(2), of a] assms(3) have l: "a \<in> live_objs os1" by (auto simp: live_objs_def)
  from unset_dec_ref [OF os1(1) this] obtain os' where
    os': "dec_ref p (objs h) = Some os'" "os1 = unset a i os'" "map_option members (obj_at os' a) = Some (members ob)"
    using ob(1) by auto
  then obtain ob' where ob': "obj_at os' a = Some ob'" "members ob' = members ob" by auto
  have "write_ptr (Member a i) None (h\<lparr>objs := os'\<rparr>) = Some (h\<lparr>objs := os1\<rparr>)"
    using ob' ob(2) obj_at_less [OF ob'(1)] by (simp add: os'(2) unset_def obj_at_def)
  with p os'(1) os1(2) show ?thesis by (simp add: reset_ptr_def heap_ok_def owners_var)
qed

lemma exec_ok:
  assumes "heap_ok h" "op_valid p h"
  shows "\<exists>h'. exec p h = Some h' \<and> heap_ok h'"
proof (cases p)
  case (ResetPtr v)
  show ?thesis
  proof (cases v)
    case (Var i)
    with ResetPtr assms reset_var_ok show ?thesis by (simp add: exists_ptr_def split: if_splits)
  next
    case (Member a i)
    with ResetPtr assms(2) have "Some a \<in># owners h" by (auto simp: owners_def)
    with reset_member_ok assms ResetPtr Member show ?thesis by simp
  qed
qed (use assms in \<open>simp_all add: make_ptr_ok construct_ok copy_assign_ok move_assign_ok swap_ptr_ok release_ptr_ok
  del: not_None_eq\<close>)

lemma run_ops_ok: "heap_ok h \<Longrightarrow> \<exists>h'. run_ops ops h = Some h' \<and> heap_ok h'"
proof (induction ops arbitrary: h)
  case (Cons p ops)
  show ?case
  proof (cases "op_valid p h")
    case True
    from exec_ok [OF Cons.prems this] Cons.IH True show ?thesis by auto
  qed (use Cons in simp)
qed simp

subsection \<open>Properties\<close>

text \<open>C21: whatever pointers, variables or members of objects, are made, also from raw pointers, copied, moved,
  assigned, swapped, released and reset, no assertion fails and no freed object is accessed; every count is the
  number of pointers to the object and of the times it was released, and the objects that have not been
  freed are exactly those of which there is one. Operations on pointers that do not exist, on raw pointers
  to freed objects, and resets of a member of an object that only members hold are left out.\<close>

theorem refcounts_exact:
  "\<exists>h. run_ops ops \<lparr>objs = [], vars = [], released = []\<rparr> = Some h \<and>
    (\<forall>a. (case obj_at (objs h) a of None \<Rightarrow> 0 | Some ob \<Rightarrow> refcount ob) =
      count (member_ptrs (objs h) + mset (vars h)) (Some a) + count (mset (released h)) a) \<and>
    live_objs (objs h) = {a. Some a \<in># member_ptrs (objs h) + mset (vars h) \<or> a \<in> set (released h)}"
proof -
  have "heap_ok \<lparr>objs = [], vars = [], released = []\<rparr>"
    by (simp add: heap_ok_def rc_inv_def member_ptrs_def obj_at_def owners_def)
  from run_ops_ok [OF this] obtain h where
    h: "run_ops ops \<lparr>objs = [], vars = [], released = []\<rparr> = Some h" "heap_ok h" by blast
  note inv = heap_okD [OF h(2)]
  have c: "count (owners h) (Some a) = count (mset (vars h)) (Some a) + count (mset (released h)) a" for a
    by (simp add: owners_def count_image_Some)
  have "a \<in> live_objs (objs h) \<longleftrightarrow> 0 < count (member_ptrs (objs h) + owners h) (Some a)" for a
    using rc_invD [OF inv, of a] inv by (fastforce simp: live_objs_def rc_inv_def split: option.splits)
  then have "a \<in> live_objs (objs h) \<longleftrightarrow> Some a \<in># member_ptrs (objs h) + owners h" for a
    by (simp only: count_greater_zero_iff)
  then have "live_objs (objs h) = {a. Some a \<in># member_ptrs (objs h) + mset (vars h) \<or> a \<in> set (released h)}"
    by (auto simp: owners_def)
  with h(1) rc_invD [OF inv] c show ?thesis by (auto simp: add.assoc)
qed

text \<open>Without that condition \<open>reset\<close> fails an assertion: an object that only its own member holds is destroyed
  while the member still points to it, and its destructor takes the count below zero.\<close>

theorem reset_cycle_fails:
  "\<exists>h. run_ops [MakePtr 1, CopyAssign (Member 0 0) (Var 0), ResetPtr (Var 0)] \<lparr>objs = [], vars = [], released = []\<rparr> = Some h \<and>
    heap_ok h \<and> read_ptr (Member 0 0) h = Some (Some 0) \<and> exec (ResetPtr (Member 0 0)) h = None"
proof -
  let ?ob = "\<lparr>refcount = 1, members = [Some 0]\<rparr>" and ?e = "\<lparr>objs = [], vars = [], released = []\<rparr>"
  let ?ops = "[MakePtr 1, CopyAssign (Member 0 0) (Var 0), ResetPtr (Var 0)]"
  have r: "run_ops ?ops ?e = Some \<lparr>objs = [Some ?ob], vars = [None], released = []\<rparr>"
    by (simp add: exists_ptr_def make_ptr_def copy_assign_def reset_ptr_def obj_at_def inc_ref_def dec_ref_def dec_count_def
      delete_loop.simps Let_def)
  have "heap_ok ?e" by (simp add: heap_ok_def rc_inv_def member_ptrs_def obj_at_def owners_def)
  from run_ops_ok [OF this, of ?ops] r have ok: "heap_ok \<lparr>objs = [Some ?ob], vars = [None], released = []\<rparr>" by auto
  have "exec (ResetPtr (Member 0 0)) \<lparr>objs = [Some ?ob], vars = [None], released = []\<rparr> = None"
    by (simp add: reset_ptr_def obj_at_def dec_ref_def dec_count_def delete_loop.simps delete_obj_def Let_def)
  with r ok show ?thesis by (auto simp: obj_at_def)
qed

end
