(* ===== verification/Utf8.thy ===== *)
theory Utf8
  imports Prelude
begin

text \<open>
  \<open>include/trieste/utf8.h\<close>: encoding and decoding of runes, the guesses of an input's
  encoding, the readers of UTF-16 and UTF-32 contents, and the escapes of non-ASCII
  runes. An output stream is the \<open>bytes\<close> written to it. An exception of the standard
  library and an access outside a string (undefined behaviour) are values of
  \<open>string_error\<close>.

  The lemmas show that every rune up to \<open>Max4\<close> survives encoding and decoding, that
  every decoding step consumes between one and four bytes and yields a value below
  \<open>0x200000\<close>, that sanitising is idempotent, and that unescaping undoes escaping.
\<close>

datatype string_error = OutOfBounds | InvalidArgument | OutOfRange

datatype DetectResult = DetectNone | BigEndian | LittleEndian

abbreviation (input) MaskX :: byte where "MaskX \<equiv> 0b11000000"
abbreviation (input) Mask1 :: byte where "Mask1 \<equiv> 0b10000000"
abbreviation (input) Mask2 :: byte where "Mask2 \<equiv> 0b11100000"
abbreviation (input) Mask3 :: byte where "Mask3 \<equiv> 0b11110000"
abbreviation (input) Mask4 :: byte where "Mask4 \<equiv> 0b11111000"

abbreviation (input) MarkX :: byte where "MarkX \<equiv> 0b10000000"
abbreviation (input) Mark1 :: byte where "Mark1 \<equiv> 0b00000000"
abbreviation (input) Mark2 :: byte where "Mark2 \<equiv> 0b11000000"
abbreviation (input) Mark3 :: byte where "Mark3 \<equiv> 0b11100000"
abbreviation (input) Mark4 :: byte where "Mark4 \<equiv> 0b11110000"

abbreviation (input) ValueX :: byte where "ValueX \<equiv> 0b00111111"
abbreviation (input) Value1 :: byte where "Value1 \<equiv> 0b01111111"
abbreviation (input) Value2 :: byte where "Value2 \<equiv> 0b00011111"
abbreviation (input) Value3 :: byte where "Value3 \<equiv> 0b00001111"
abbreviation (input) Value4 :: byte where "Value4 \<equiv> 0b00000111"

abbreviation (input) Max1 :: rune where "Max1 \<equiv> 0x007F"
abbreviation (input) Max2 :: rune where "Max2 \<equiv> 0x07FF"
abbreviation (input) Max3 :: rune where "Max3 \<equiv> 0xFFFF"
abbreviation (input) Max4 :: rune where "Max4 \<equiv> 0x10FFFF"

abbreviation (input) ShiftX :: nat where "ShiftX \<equiv> 6"

abbreviation (input) Bad :: rune where "Bad \<equiv> 0xFFFD"

subsection \<open>Encoding\<close>

function write_rune :: "rune \<Rightarrow> bytes" where
  "write_rune value =
     (if value \<le> Max1 then [ucast (ucast Mark1 OR value)]
      else if value \<le> Max2 then
        (let c1 = ucast ((value AND ucast ValueX) OR ucast MarkX);
             value = drop_bit ShiftX value;
             c0 = ucast (ucast Mark2 OR value)
         in [c0, c1])
      else if value \<le> Max3 then
        (let c2 = ucast ((value AND ucast ValueX) OR ucast MarkX);
             value = drop_bit ShiftX value;
             c1 = ucast ((value AND ucast ValueX) OR ucast MarkX);
             value = drop_bit ShiftX value;
             c0 = ucast (ucast Mark3 OR value)
         in [c0, c1, c2])
      else if value \<le> Max4 then
        (let c3 = ucast ((value AND ucast ValueX) OR ucast MarkX);
             value = drop_bit ShiftX value;
             c2 = ucast ((value AND ucast ValueX) OR ucast MarkX);
             value = drop_bit ShiftX value;
             c1 = ucast ((value AND ucast ValueX) OR ucast MarkX);
             value = drop_bit ShiftX value;
             c0 = ucast (ucast Mark4 OR value)
         in [c0, c1, c2, c3])
      else write_rune Bad)"
  by pat_completeness auto
termination
  by (relation "measure (\<lambda>value. if value \<le> Max4 then 0 else 1)") auto

declare write_rune.simps [simp del]

definition rune_size :: "rune \<Rightarrow> nat" where
  "rune_size value =
     (if value \<le> Max1 then 1
      else if value \<le> Max2 then 2
      else if value \<le> Max3 then 3
      else if value \<le> Max4 then 4
      else 3)"

definition to_utf8 :: "rune \<Rightarrow> bytes" where
  "to_utf8 value = write_rune value"

text \<open>\<open>operator<<\<close> on a \<open>runestring\<close> or a \<open>runestring_view\<close>.\<close>

fun write_runestring :: "rune list \<Rightarrow> bytes" where
  "write_runestring [] = []"
| "write_runestring (r # runes) = write_rune r @ write_runestring runes"

subsection \<open>Decoding\<close>

text \<open>
  \<open>std::stoul (hex, nullptr, 16)\<close>: leading white space, an optional sign, an optional
  \<open>0x\<close> and the longest run of hexadecimal digits; \<open>std::invalid_argument\<close> when there is
  no digit, \<open>std::out_of_range\<close> past \<open>unsigned long\<close>, and negation modulo \<open>2 ^ 64\<close> after
  a minus sign.
\<close>

definition is_space :: "byte \<Rightarrow> bool" where
  "is_space c \<longleftrightarrow> c = 0x20 \<or> (0x09 \<le> c \<and> c \<le> 0x0D)"

definition hex_value :: "byte \<Rightarrow> nat option" where
  "hex_value c =
     (if c8 CHR ''0'' \<le> c \<and> c \<le> c8 CHR ''9'' then Some (unat (c - c8 CHR ''0''))
      else if c8 CHR ''a'' \<le> c \<and> c \<le> c8 CHR ''f'' then Some (unat (c - c8 CHR ''a'') + 10)
      else if c8 CHR ''A'' \<le> c \<and> c \<le> c8 CHR ''F'' then Some (unat (c - c8 CHR ''A'') + 10)
      else None)"

fun hex_prefix :: "nat \<Rightarrow> bytes \<Rightarrow> nat" where
  "hex_prefix acc [] = acc"
| "hex_prefix acc (c # cs) =
     (case hex_value c of None \<Rightarrow> acc | Some d \<Rightarrow> hex_prefix (acc * 16 + d) cs)"

definition is_hex :: "byte \<Rightarrow> bool" where
  "is_hex c \<longleftrightarrow> hex_value c \<noteq> None"

definition skip_0x :: "bytes \<Rightarrow> bytes" where
  "skip_0x s =
     (if 3 \<le> length s \<and> s ! 0 = c8 CHR ''0'' \<and> (s ! 1 = c8 CHR ''x'' \<or> s ! 1 = c8 CHR ''X'')
         \<and> is_hex (s ! 2)
      then drop 2 s else s)"

definition stoul16 :: "bytes \<Rightarrow> string_error + u64" where
  "stoul16 s =
     (let t = dropWhile is_space s;
          neg = (t \<noteq> [] \<and> hd t = c8 CHR ''-'');
          t = (if t \<noteq> [] \<and> (hd t = c8 CHR ''-'' \<or> hd t = c8 CHR ''+'') then tl t else t);
          t = skip_0x t
      in if t = [] \<or> \<not> is_hex (hd t) then Inl InvalidArgument
         else let n = hex_prefix 0 t
              in if 2 ^ 64 \<le> n then Inl OutOfRange
                 else Inr (if neg then - of_nat n else of_nat n))"

text \<open>
  The decoding part of \<open>utf8_to_rune\<close>, on a non-empty view; the second component is the
  consumed prefix.
\<close>

definition utf8_decode :: "bytes \<Rightarrow> rune \<times> bytes" where
  "utf8_decode utf8 =
     (let c0 = utf8 ! 0 in
      if c0 AND Mask1 = Mark1 then (ucast (c0 AND Value1), take 1 utf8)
      else if c0 AND Mask2 = Mark2 \<and> 2 \<le> length utf8 then
        (let c1 = utf8 ! 1 in
         if c1 AND MaskX = MarkX then
           (let value = ucast (c0 AND Value2);
                value = push_bit ShiftX value OR ucast (c1 AND ValueX)
            in (value, take 2 utf8))
         else (Bad, take 1 utf8))
      else if c0 AND Mask3 = Mark3 \<and> 3 \<le> length utf8 then
        (let c1 = utf8 ! 1; c2 = utf8 ! 2 in
         if c1 AND MaskX = MarkX \<and> c2 AND MaskX = MarkX then
           (let value = ucast (c0 AND Value3);
                value = push_bit ShiftX value OR ucast (c1 AND ValueX);
                value = push_bit ShiftX value OR ucast (c2 AND ValueX)
            in (value, take 3 utf8))
         else (Bad, take 1 utf8))
      else if c0 AND Mask4 = Mark4 \<and> 4 \<le> length utf8 then
        (let c1 = utf8 ! 1; c2 = utf8 ! 2; c3 = utf8 ! 3 in
         if c1 AND MaskX = MarkX \<and> c2 AND MaskX = MarkX \<and> c3 AND MaskX = MarkX then
           (let value = ucast (c0 AND Value4);
                value = push_bit ShiftX value OR ucast (c1 AND ValueX);
                value = push_bit ShiftX value OR ucast (c2 AND ValueX);
                value = push_bit ShiftX value OR ucast (c3 AND ValueX)
            in (value, take 4 utf8))
         else (Bad, take 1 utf8))
      else (Bad, take 1 utf8))"

text \<open>The escape part: a number read by \<open>std::stoul\<close> is converted to \<open>rune_t\<close>.\<close>

definition utf8_unescape :: "bytes \<Rightarrow> string_error + (rune \<times> bytes)" where
  "utf8_unescape utf8 =
     (if 3 \<le> length utf8 \<and> utf8 ! 1 = c8 CHR ''x'' then
        map_sum id (\<lambda>v. (ucast v, take 4 utf8)) (stoul16 (take 2 (drop 2 utf8)))
      else if 5 \<le> length utf8 \<and> utf8 ! 1 = c8 CHR ''u'' then
        map_sum id (\<lambda>v. (ucast v, take 6 utf8)) (stoul16 (take 4 (drop 2 utf8)))
      else if 9 \<le> length utf8 \<and> utf8 ! 1 = c8 CHR ''U'' then
        map_sum id (\<lambda>v. (ucast v, take 10 utf8)) (stoul16 (take 8 (drop 2 utf8)))
      else Inr (ucast (utf8 ! 0), take 1 utf8))"

definition utf8_to_rune :: "bytes \<Rightarrow> bool \<Rightarrow> string_error + (rune \<times> bytes)" where
  "utf8_to_rune utf8 unescape_unicode =
     (if utf8 = [] then Inl OutOfBounds
      else if utf8 ! 0 = c8 CHR 0x5C \<and> unescape_unicode then utf8_unescape utf8
      else Inr (utf8_decode utf8))"

lemma utf8_decode_progress:
  "s \<noteq> [] \<Longrightarrow> 0 < length (snd (utf8_decode s))"
  by (auto simp: utf8_decode_def Let_def)

lemma utf8_unescape_progress:
  "s \<noteq> [] \<Longrightarrow> utf8_unescape s = Inr (r, c) \<Longrightarrow> 0 < length c"
  by (auto simp: utf8_unescape_def map_sum_def split: if_splits sum.splits)

lemma utf8_to_rune_progress:
  "utf8_to_rune s b = Inr (r, c) \<Longrightarrow> s \<noteq> [] \<and> 0 < length c"
  using utf8_decode_progress [of s] utf8_unescape_progress [of s r c]
  by (auto simp: utf8_to_rune_def split: if_splits)

text \<open>The loop reads at \<open>pos\<close> and adds the size of what was consumed.\<close>

function utf8_to_runestring :: "bytes \<Rightarrow> bool \<Rightarrow> string_error + rune list" where
  "utf8_to_runestring input unescape =
     (if input = [] then Inr []
      else case utf8_to_rune input unescape of
        Inl e \<Rightarrow> Inl e
      | Inr (r, s) \<Rightarrow> map_sum id ((#) r) (utf8_to_runestring (drop (length s) input) unescape))"
  by pat_completeness auto
termination
  by (relation "measure (\<lambda>(input, unescape). length input)") (auto dest: utf8_to_rune_progress)

declare utf8_to_runestring.simps [simp del]

text \<open>Decoding without unescaping never fails.\<close>

function decode_runes :: "bytes \<Rightarrow> rune list" where
  "decode_runes input =
     (if input = [] then []
      else let (r, s) = utf8_decode input in r # decode_runes (drop (length s) input))"
  by pat_completeness auto
termination
  by (relation "measure length") (use utf8_decode_progress in \<open>fastforce simp: prod_eq_iff\<close>)+

declare decode_runes.simps [simp del]

subsection \<open>Guessing the encoding\<close>

definition detect_utf8 :: "bytes \<Rightarrow> bool" where
  "detect_utf8 contents =
     (case utf8_to_runestring contents False of
        Inl e \<Rightarrow> False
      | Inr runes \<Rightarrow> \<not> list_ex (\<lambda>r. r = Bad) runes)"

definition big_endian16 :: "16 word list" where
  "big_endian16 =
     [0x002C, 0x0022, 0x0028, 0x0029, 0x005B, 0x005D, 0x007B, 0x007D,
      0x003A, 0x003B, 0x0020, 0x000A]"

definition little_endian16 :: "16 word list" where
  "little_endian16 =
     [0x2C00, 0x2200, 0x2800, 0x2900, 0x5B00, 0x5D00, 0x7B00, 0x7D00,
      0x3A00, 0x3B00, 0x2000, 0x0A00]"

definition big_endian32 :: "rune list" where
  "big_endian32 =
     [0x0000002C, 0x00000022, 0x00000028, 0x00000029, 0x0000005B, 0x0000005D,
      0x0000007B, 0x0000007D, 0x0000003A, 0x0000003B, 0x00000020, 0x0000000A]"

definition little_endian32 :: "rune list" where
  "little_endian32 =
     [0x2C000000, 0x22000000, 0x28000000, 0x29000000, 0x5B000000, 0x5D000000,
      0x7B000000, 0x7D000000, 0x3A000000, 0x3B000000, 0x20000000, 0x0A000000]"

definition unit16 :: "byte \<Rightarrow> byte \<Rightarrow> rune" where
  "unit16 b0 b1 = push_bit 8 (ucast b0) OR ucast b1"

definition unit32 :: "byte \<Rightarrow> byte \<Rightarrow> byte \<Rightarrow> byte \<Rightarrow> rune" where
  "unit32 b0 b1 b2 b3 =
     push_bit 24 (ucast b0) OR push_bit 16 (ucast b1) OR push_bit 8 (ucast b2) OR ucast b3"

text \<open>The counting loops; the size check before them leaves only whole units.\<close>

fun count_units16 :: "bytes \<Rightarrow> nat \<Rightarrow> nat \<Rightarrow> nat \<times> nat" where
  "count_units16 (b0 # b1 # rest) le_counts be_counts =
     (let value = ucast (unit16 b0 b1);
          le_counts = (if value \<in> set little_endian16 then le_counts + 1 else le_counts);
          be_counts = (if value \<in> set big_endian16 then be_counts + 1 else be_counts)
      in count_units16 rest le_counts be_counts)"
| "count_units16 _ le_counts be_counts = (le_counts, be_counts)"

fun count_units32 :: "bytes \<Rightarrow> nat \<Rightarrow> nat \<Rightarrow> nat \<times> nat" where
  "count_units32 (b0 # b1 # b2 # b3 # rest) le_counts be_counts =
     (let value = unit32 b0 b1 b2 b3;
          le_counts = (if value \<in> set little_endian32 then le_counts + 1 else le_counts);
          be_counts = (if value \<in> set big_endian32 then be_counts + 1 else be_counts)
      in count_units32 rest le_counts be_counts)"
| "count_units32 _ le_counts be_counts = (le_counts, be_counts)"

definition detect_by_counts :: "nat \<times> nat \<Rightarrow> DetectResult" where
  "detect_by_counts counts =
     (let (le_counts, be_counts) = counts
      in if be_counts < le_counts then LittleEndian
         else if le_counts < be_counts then BigEndian
         else DetectNone)"

definition detect_utf16 :: "bytes \<Rightarrow> DetectResult" where
  "detect_utf16 contents =
     (if length contents mod 2 \<noteq> 0 then DetectNone
      else detect_by_counts (count_units16 contents 0 0))"

definition detect_utf32 :: "bytes \<Rightarrow> DetectResult" where
  "detect_utf32 contents =
     (if length contents mod 4 \<noteq> 0 then DetectNone
      else detect_by_counts (count_units32 contents 0 0))"

subsection \<open>Reading UTF-16 and UTF-32\<close>

text \<open>
  The loops read \<open>contents[i + k]\<close> without a size check. At \<open>contents.size()\<close> the access
  gives the terminating null character; past it the behaviour is undefined.
\<close>

fun read_utf16_be :: "bytes \<Rightarrow> bytes" where
  "read_utf16_be [] = []"
| "read_utf16_be [b0] = write_rune (unit16 b0 0)"
| "read_utf16_be (b0 # b1 # rest) = write_rune (unit16 b0 b1) @ read_utf16_be rest"

fun read_utf16_le :: "bytes \<Rightarrow> bytes" where
  "read_utf16_le [] = []"
| "read_utf16_le [b1] = write_rune (unit16 0 b1)"
| "read_utf16_le (b1 # b0 # rest) = write_rune (unit16 b0 b1) @ read_utf16_le rest"

fun read_utf32_be :: "bytes \<Rightarrow> string_error + bytes" where
  "read_utf32_be [] = Inr []"
| "read_utf32_be [b0] = Inl OutOfBounds"
| "read_utf32_be [b0, b1] = Inl OutOfBounds"
| "read_utf32_be [b0, b1, b2] = Inr (write_rune (unit32 b0 b1 b2 0))"
| "read_utf32_be (b0 # b1 # b2 # b3 # rest) =
     map_sum id (\<lambda>s. write_rune (unit32 b0 b1 b2 b3) @ s) (read_utf32_be rest)"

fun read_utf32_le :: "bytes \<Rightarrow> string_error + bytes" where
  "read_utf32_le [] = Inr []"
| "read_utf32_le [b3] = Inl OutOfBounds"
| "read_utf32_le [b3, b2] = Inl OutOfBounds"
| "read_utf32_le [b3, b2, b1] = Inr (write_rune (unit32 0 b1 b2 b3))"
| "read_utf32_le (b3 # b2 # b1 # b0 # rest) =
     map_sum id (\<lambda>s. write_rune (unit32 b0 b1 b2 b3) @ s) (read_utf32_le rest)"

subsection \<open>Sanitising and escaping\<close>

definition sanitize_utf8 :: "bytes \<Rightarrow> string_error + bytes" where
  "sanitize_utf8 input = map_sum id write_runestring (utf8_to_runestring input False)"

function unescape_hexunicode :: "bytes \<Rightarrow> string_error + bytes" where
  "unescape_hexunicode input =
     (if input = [] then Inr []
      else if hd input = c8 CHR 0x5C then
        (case utf8_to_rune input True of
           Inl e \<Rightarrow> Inl e
         | Inr (r, s) \<Rightarrow>
             map_sum id (\<lambda>os. write_rune r @ os) (unescape_hexunicode (drop (length s) input)))
      else map_sum id ((#) (hd input)) (unescape_hexunicode (tl input)))"
  by pat_completeness auto
termination
  by (relation "measure length") (auto dest: utf8_to_rune_progress)

declare unescape_hexunicode.simps [simp del]

text \<open>\<open>std::uppercase\<close>, \<open>std::hex\<close>, and \<open>std::setw\<close> filled with \<open>0\<close>.\<close>

definition hex_char :: "nat \<Rightarrow> byte" where
  "hex_char d = (if d < 10 then c8 CHR ''0'' + of_nat d else c8 CHR ''A'' + of_nat (d - 10))"

fun hex_digits :: "nat \<Rightarrow> bytes" where
  "hex_digits n = (if n < 16 then [hex_char n] else hex_digits (n div 16) @ [hex_char (n mod 16)])"

declare hex_digits.simps [simp del]

definition hex_padded :: "nat \<Rightarrow> rune \<Rightarrow> bytes" where
  "hex_padded width value =
     (let ds = hex_digits (unat value) in replicate (width - length ds) (c8 CHR ''0'') @ ds)"

definition escape_rune :: "rune \<Rightarrow> bytes" where
  "escape_rune value =
     (if value > 0x7FFF then [c8 CHR 0x5C, c8 CHR ''U''] @ hex_padded 8 value
      else if value > 0x7F then [c8 CHR 0x5C, c8 CHR ''u''] @ hex_padded 4 value
      else [ucast value])"

function escape_unicode :: "bytes \<Rightarrow> bytes" where
  "escape_unicode input =
     (if input = [] then []
      else let (r, s) = utf8_decode input
           in escape_rune r @ escape_unicode (drop (length s) input))"
  by pat_completeness auto
termination
  by (relation "measure length") (use utf8_decode_progress in \<open>fastforce simp: prod_eq_iff\<close>)+

declare escape_unicode.simps [simp del]

text \<open>\<open>read_to_end\<close>, given the raw bytes the file stream delivers.\<close>

definition read_to_end :: "bytes \<Rightarrow> bool \<Rightarrow> string_error + bytes" where
  "read_to_end contents autodetect =
     (let n = length contents;
          bom0 = (if 2 \<le> n then contents ! 0 else 0);
          bom1 = (if 2 \<le> n then contents ! 1 else 0);
          bom2 = (if 3 \<le> n then contents ! 2 else 0);
          bom3 = (if 4 \<le> n then contents ! 3 else 0)
      in if 2 \<le> n \<and> bom0 = 0xEF \<and> bom1 = 0xBB \<and> bom2 = 0xBF then Inr (drop 3 contents)
         else if 2 \<le> n \<and> bom0 = 0xFF \<and> bom1 = 0xFE then
           (if bom2 = 0x00 \<and> bom3 = 0x00 then
              (if n < 4 then Inl OutOfRange else read_utf32_le (drop 4 contents))
            else Inr (read_utf16_le (drop 2 contents)))
         else if 2 \<le> n \<and> bom0 = 0x00 \<and> bom1 = 0x00 \<and> bom2 = 0xFE \<and> bom3 = 0xFF then
           read_utf32_be (drop 4 contents)
         else if 2 \<le> n \<and> bom0 = 0xFE \<and> bom1 = 0xFF then Inr (read_utf16_be (drop 2 contents))
         else if \<not> autodetect then Inr contents
         else if detect_utf8 contents then sanitize_utf8 contents
         else case detect_utf16 contents of
           BigEndian \<Rightarrow> Inr (read_utf16_be contents)
         | LittleEndian \<Rightarrow> Inr (read_utf16_le contents)
         | DetectNone \<Rightarrow>
             (case detect_utf32 contents of
                BigEndian \<Rightarrow> read_utf32_be contents
              | LittleEndian \<Rightarrow> read_utf32_le contents
              | DetectNone \<Rightarrow> sanitize_utf8 contents))"

subsection \<open>Encoding and decoding one rune\<close>

lemma continuation_mark: "(ucast (((x::rune) AND 0x3F) OR 0x80) :: byte) AND 0xC0 = 0x80"
  by (rule byte_eqI) (simp only: bit_cases, elim disjE, auto simp: bit_simps)

lemma lead_marks:
  fixes x :: rune
  shows "\<not> bit x 5 \<Longrightarrow> (ucast (0xC0 OR x) :: byte) AND 0xE0 = 0xC0"
    and "\<not> bit x 4 \<Longrightarrow> (ucast (0xE0 OR x) :: byte) AND 0xF0 = 0xE0"
    and "\<not> bit x 3 \<Longrightarrow> (ucast (0xF0 OR x) :: byte) AND 0xF8 = 0xF0"
  by (rule byte_eqI, simp only: bit_cases, elim disjE, auto simp: bit_simps)+

lemma lead_not_shorter:
  fixes x :: rune
  shows "(ucast (0xC0 OR x) :: byte) AND 0x80 \<noteq> 0"
    and "(ucast (0xE0 OR x) :: byte) AND 0x80 \<noteq> 0"
    and "(ucast (0xF0 OR x) :: byte) AND 0x80 \<noteq> 0"
    and "(ucast (0xE0 OR x) :: byte) AND 0xE0 \<noteq> 0xC0"
    and "(ucast (0xF0 OR x) :: byte) AND 0xE0 \<noteq> 0xC0"
    and "(ucast (0xF0 OR x) :: byte) AND 0xF0 \<noteq> 0xE0"
  by (auto dest!: arg_cong [where f = "\<lambda>w. (bit w 7, bit w 5, bit w 4)"] simp: bit_simps)

lemma join_bytes:
  fixes v :: rune
  shows "push_bit 6 (ucast ((ucast (0xC0 OR drop_bit 6 v) :: byte) AND 0x1F)) OR
      ucast ((ucast ((v AND 0x3F) OR 0x80) :: byte) AND 0x3F) = take_bit 11 v"
    and "push_bit 6 (push_bit 6 (ucast ((ucast (0xE0 OR drop_bit 6 (drop_bit 6 v)) :: byte) AND 0x0F)) OR
        ucast ((ucast ((drop_bit 6 v AND 0x3F) OR 0x80) :: byte) AND 0x3F)) OR
      ucast ((ucast ((v AND 0x3F) OR 0x80) :: byte) AND 0x3F) = take_bit 16 v"
    and "push_bit 6 (push_bit 6 (push_bit 6 (ucast ((ucast (0xF0 OR drop_bit 6 (drop_bit 6 (drop_bit 6 v))) :: byte) AND 0x07)) OR
        ucast ((ucast ((drop_bit 6 (drop_bit 6 v) AND 0x3F) OR 0x80) :: byte) AND 0x3F)) OR
        ucast ((ucast ((drop_bit 6 v AND 0x3F) OR 0x80) :: byte) AND 0x3F)) OR
      ucast ((ucast ((v AND 0x3F) OR 0x80) :: byte) AND 0x3F) = take_bit 21 v"
  by (rule rune_eqI, simp only: bit_cases, elim disjE, simp_all add: bit_simps)+

lemma ascii_bytes:
  fixes v :: rune
  shows "\<not> bit v 7 \<Longrightarrow> (ucast v :: byte) AND 0x80 = 0"
    and "ucast ((ucast v :: byte) AND 0x7F) = take_bit 7 v"
   by (rule byte_eqI, simp only: bit_cases, elim disjE, simp_all add: bit_simps)
    (rule rune_eqI, simp only: bit_cases, elim disjE, simp_all add: bit_simps)

lemma write_rune_Bad: "Max4 < v \<Longrightarrow> write_rune v = write_rune Bad"
  by (subst write_rune.simps) (auto simp: word_le_nat_alt word_less_nat_alt)

lemma utf8_decode_write_rune:
  assumes "v \<le> Max4"
  shows "utf8_decode (write_rune v @ rest) = (v, write_rune v)"
proof -
  note eqs = write_rune.simps [of v] utf8_decode_def Let_def continuation_mark
    lead_marks lead_not_shorter join_bytes
  consider (1) "v \<le> Max1" | (2) "\<not> v \<le> Max1" "v \<le> Max2"
    | (3) "\<not> v \<le> Max1" "\<not> v \<le> Max2" "v \<le> Max3"
    | (4) "\<not> v \<le> Max1" "\<not> v \<le> Max2" "\<not> v \<le> Max3" using assms by blast
  then show ?thesis
  proof cases
    case 1
    then have v: "take_bit 7 v = v" by (rule take_bit_le) simp
    from ascii_bytes [of v] take_bit_not_bit [OF v, of 7] v show ?thesis
      using 1 by (simp add: eqs)
  next
    case 2
    then have v: "take_bit 11 v = v" by (auto intro: take_bit_le [of _ Max2])
    from take_bit_not_bit [OF v] have "\<not> bit (drop_bit 6 v) 5" by (simp add: bit_simps)
    with 2 v show ?thesis by (simp add: eqs)
  next
    case 3
    then have v: "take_bit 16 v = v" by (auto intro: take_bit_le [of _ Max3])
    from take_bit_not_bit [OF v] have "\<not> bit (drop_bit 6 (drop_bit 6 v)) 4" by (simp add: bit_simps)
    with 3 v show ?thesis by (simp add: eqs del: drop_bit_drop_bit push_bit_push_bit push_bit_or)
  next
    case 4
    then have v: "take_bit 21 v = v" using assms by (auto intro: take_bit_le [of _ Max4])
    from take_bit_not_bit [OF v] have "\<not> bit (drop_bit 6 (drop_bit 6 (drop_bit 6 v))) 3"
      by (simp add: bit_simps)
    with 4 v assms show ?thesis by (simp add: eqs del: drop_bit_drop_bit push_bit_push_bit push_bit_or)
  qed
qed

subsection \<open>Bounds, progress and whole strings\<close>

lemma joined_bound:
  fixes a b c d :: byte
  shows "(push_bit 6 (ucast (a AND 0x1F)) OR ucast (b AND 0x3F) :: rune) < 0x200000"
    and "(push_bit 6 (push_bit 6 (ucast (a AND 0x0F)) OR ucast (b AND 0x3F)) OR ucast (c AND 0x3F) :: rune)
       < 0x200000"
    and "(push_bit 6 (push_bit 6 (push_bit 6 (ucast (a AND 0x07)) OR ucast (b AND 0x3F)) OR
        ucast (c AND 0x3F)) OR ucast (d AND 0x3F) :: rune) < 0x200000"
    and "(ucast (a AND 0x7F) :: rune) < 0x200000"
proof -
  have *: "x < 0x200000" if "take_bit 21 x = x" for x :: rune
  proof -
    from that have "take_bit 21 (unat x) = unat x" by (metis unsigned_take_bit_eq)
    then have "unat x < 2 ^ 21" by (metis take_bit_nat_less_exp)
    then show ?thesis by (simp add: word_less_nat_alt)
  qed
  show "(push_bit 6 (ucast (a AND 0x1F)) OR ucast (b AND 0x3F) :: rune) < 0x200000"
    "(push_bit 6 (push_bit 6 (ucast (a AND 0x0F)) OR ucast (b AND 0x3F)) OR ucast (c AND 0x3F) :: rune)
       < 0x200000"
    "(push_bit 6 (push_bit 6 (push_bit 6 (ucast (a AND 0x07)) OR ucast (b AND 0x3F)) OR
        ucast (c AND 0x3F)) OR ucast (d AND 0x3F) :: rune) < 0x200000"
    "(ucast (a AND 0x7F) :: rune) < 0x200000"
    by (rule *, rule rune_eqI, simp only: bit_cases, elim disjE, simp_all add: bit_simps)+
qed

lemma utf8_decode_bound: "fst (utf8_decode s) < 0x200000"
  by (simp add: utf8_decode_def Let_def joined_bound del: push_bit_or push_bit_push_bit)

lemma utf8_decode_prefix:
  "snd (utf8_decode s) = take (length (snd (utf8_decode s))) s \<and> length (snd (utf8_decode s)) \<le> 4"
  by (auto simp: utf8_decode_def Let_def min_def)

lemma write_rune_nonempty [simp]: "write_rune v \<noteq> []"
  by (subst write_rune.simps) (simp add: Let_def write_rune.simps [of Bad])

lemma length_write_rune: "length (write_rune v) = rune_size v"
  by (cases "v \<le> Max4")
    (auto simp: write_rune_Bad not_le, auto simp: write_rune.simps [of v] write_rune.simps [of Bad]
     rune_size_def Let_def word_le_nat_alt word_less_nat_alt)

lemma utf8_to_runestring_False: "utf8_to_runestring s False = Inr (decode_runes s)"
proof (induction s rule: decode_runes.induct)
  case (1 s)
  show ?case
  proof (cases "s = []")
    case True
    then show ?thesis by (simp add: utf8_to_runestring.simps decode_runes.simps)
  next
    case False
    obtain r c where d: "utf8_decode s = (r, c)" by fastforce
    from 1 [OF False, OF d [symmetric]] False d show ?thesis
      by (simp add: utf8_to_runestring.simps [of s] decode_runes.simps [of s] utf8_to_rune_def)
  qed
qed

lemma decode_runes_Nil [simp]: "decode_runes [] = []"
  by (simp add: decode_runes.simps)

lemma decode_runes_write_rune:
  "v \<le> Max4 \<Longrightarrow> decode_runes (write_rune v @ s) = v # decode_runes s"
  by (subst decode_runes.simps) (simp add: utf8_decode_write_rune)

lemma decode_runes_write_runestring:
  "\<forall>r \<in> set rs. r \<le> Max4 \<Longrightarrow> decode_runes (write_runestring rs) = rs"
  by (induction rs) (auto simp: decode_runes_write_rune)

text \<open>What sanitising does to one decoded rune.\<close>

definition clean_rune :: "rune \<Rightarrow> rune" where
  "clean_rune r = (if r \<le> Max4 then r else Bad)"

lemma write_rune_clean: "write_rune r = write_rune (clean_rune r)"
  by (simp add: clean_rune_def write_rune_Bad not_le)

lemma write_runestring_clean: "write_runestring rs = write_runestring (map clean_rune rs)"
  by (induction rs) (auto simp: write_rune_clean [symmetric])

lemma clean_rune_le: "clean_rune r \<le> Max4"
  by (simp add: clean_rune_def)

lemma sanitize_decoded: "decode_runes (write_runestring rs) = map clean_rune rs"
proof -
  have "decode_runes (write_runestring (map clean_rune rs)) = map clean_rune rs"
    by (rule decode_runes_write_runestring) (auto simp: clean_rune_le)
  then show ?thesis by (simp flip: write_runestring_clean)
qed

subsection \<open>Escapes\<close>

lemma hex_value_char: "d < 16 \<Longrightarrow> hex_value (hex_char d) = Some d"
  by (simp only: bit_cases, elim disjE, simp_all add: hex_value_def hex_char_def)

lemma hex_digits_hex: "\<forall>c \<in> set (hex_digits n). is_hex c"
proof (induction n rule: hex_digits.induct)
  case (1 n)
  then show ?case
    by (subst hex_digits.simps) (auto simp: is_hex_def hex_value_char)
qed

lemma hex_digits_nonempty [simp]: "hex_digits n \<noteq> []"
  by (subst hex_digits.simps) simp

lemma hex_prefix_append:
  "\<forall>c \<in> set xs. is_hex c \<Longrightarrow> hex_prefix acc (xs @ ys) = hex_prefix (hex_prefix acc xs) ys"
  by (induction xs arbitrary: acc) (auto simp: is_hex_def split: option.splits)

lemma hex_prefix_digits: "hex_prefix 0 (hex_digits n) = n"
proof (induction n rule: hex_digits.induct)
  case (1 n)
  show ?case
  proof (cases "n < 16")
    case True
    then show ?thesis by (subst hex_digits.simps) (simp add: hex_value_char)
  next
    case False
    with 1 have "hex_prefix 0 (hex_digits (n div 16)) = n div 16" by simp
    with False show ?thesis
      by (subst hex_digits.simps) (simp add: hex_prefix_append hex_digits_hex hex_value_char)
  qed
qed

lemma hex_prefix_zeros: "hex_prefix 0 (replicate k (c8 CHR ''0'') @ ds) = hex_prefix 0 ds"
  by (induction k) (auto simp: hex_value_def)

lemma length_hex_digits: "n < 16 ^ k \<Longrightarrow> 0 < k \<Longrightarrow> length (hex_digits n) \<le> k"
proof (induction n arbitrary: k rule: hex_digits.induct)
  case (1 n)
  show ?case
  proof (cases "n < 16")
    case True
    with 1 show ?thesis by (subst hex_digits.simps) simp
  next
    case False
    with 1(2) obtain j where j: "k = Suc (Suc j)"
      by (cases k; cases "k - 1") auto
    with 1(2) have "n div 16 < 16 ^ Suc j"
      by (simp add: less_mult_imp_div_less)
    from 1(1) [OF False this] False j show ?thesis by (subst hex_digits.simps) simp
  qed
qed

lemma hex_not_special:
  assumes "is_hex c"
  shows "\<not> is_space c" "c \<noteq> c8 CHR ''-''" "c \<noteq> c8 CHR ''+''" "c \<noteq> c8 CHR ''x''" "c \<noteq> c8 CHR ''X''"
  using assms
  by (auto simp: is_hex_def hex_value_def is_space_def word_le_nat_alt split: if_splits)

lemma stoul16_hex:
  assumes "\<forall>c \<in> set ds. is_hex c" "ds \<noteq> []" "hex_prefix 0 ds < 2 ^ 64"
  shows "stoul16 ds = Inr (of_nat (hex_prefix 0 ds))"
proof -
  obtain c cs where ds: "ds = c # cs" using assms(2) by (cases ds) auto
  have "is_hex c" using assms(1) ds by simp
  note sp = hex_not_special [OF this]
  have "skip_0x ds = ds"
  proof (cases "3 \<le> length ds")
    case True
    then have "is_hex (ds ! 1)" using assms(1) by simp
    from hex_not_special(4,5) [OF this] show ?thesis by (simp add: skip_0x_def)
  qed (simp add: skip_0x_def)
  with assms sp \<open>is_hex c\<close> show ?thesis by (simp add: stoul16_def ds Let_def)
qed

lemma is_hex_zero: "is_hex (c8 CHR ''0'')"
  by (simp add: is_hex_def hex_value_def)

lemma hex_padded_props:
  assumes "unat v < 16 ^ w" "0 < w"
  shows "length (hex_padded w v) = w" "\<forall>c \<in> set (hex_padded w v). is_hex c"
    "hex_prefix 0 (hex_padded w v) = unat v"
  using length_hex_digits [OF assms] hex_digits_hex [of "unat v"]
  by (auto simp: hex_padded_def Let_def hex_prefix_zeros [simplified] hex_prefix_digits is_hex_zero [simplified])

lemma stoul16_hex_padded:
  assumes "unat v < 16 ^ w" "0 < w"
  shows "stoul16 (hex_padded w v) = Inr (ucast v)"
proof -
  note p = hex_padded_props [OF assms]
  have "hex_padded w v \<noteq> []" using p(1) assms(2) by auto
  moreover have "unat v < 2 ^ 64" using unsigned_less [of v] by (auto intro: order.strict_trans)
  ultimately have "stoul16 (hex_padded w v) = Inr (of_nat (unat v))"
    using stoul16_hex [OF p(2)] p(3) by simp
  then show ?thesis by (simp add: unsigned_ucast_eq)
qed

lemma ucast_u64_rune: "ucast (ucast (v::rune) :: u64) = v"
  by (rule bit_word_eqI) (simp add: bit_simps)

lemma ascii_byte_rune: "take_bit 8 (r::rune) = ucast (ucast r :: byte)"
  by (rule bit_word_eqI) (simp add: bit_simps)

lemma unescape_escape_rune:
  assumes "r \<le> Max4" "r \<noteq> c32 CHR 0x5C"
  shows "unescape_hexunicode (escape_rune r @ s) =
         map_sum id (\<lambda>os. write_rune r @ os) (unescape_hexunicode s)"
proof -
  consider (1) "r > 0x7FFF" | (2) "\<not> r > 0x7FFF" "r > 0x7F" | (3) "\<not> r > 0x7F" by blast
  then show ?thesis
  proof cases
    case 1
    have "unat r < 16 ^ 8" using unsigned_less [of r] by simp
    note p = hex_padded_props [OF this] stoul16_hex_padded [OF this]
    with 1 show ?thesis
      by (subst unescape_hexunicode.simps)
        (simp add: escape_rune_def utf8_to_rune_def utf8_unescape_def ucast_u64_rune)
  next
    case 2
    then have "unat r < 16 ^ 4" by (simp add: word_less_nat_alt not_less word_le_nat_alt)
    note p = hex_padded_props [OF this] stoul16_hex_padded [OF this]
    with 2 show ?thesis
      by (subst unescape_hexunicode.simps)
        (simp add: escape_rune_def utf8_to_rune_def utf8_unescape_def ucast_u64_rune)
  next
    case 3
    then have "write_rune r = [ucast r]" by (simp add: write_rune.simps not_less)
    moreover have "\<not> r > 0x7FFF" using 3 by (auto simp: word_less_nat_alt)
    moreover have "(ucast r :: byte) \<noteq> c8 CHR 0x5C"
    proof
      assume a: "(ucast r :: byte) = c8 CHR 0x5C"
      have "take_bit 8 r = r" using 3 by (auto intro: take_bit_le [of _ Max1] simp: not_less)
      then have "r = ucast (ucast r :: byte)" by (metis (full_types) ascii_byte_rune)
      with a assms(2) show False by simp
    qed
    moreover have "(@) [ucast r] = (#) (ucast r :: byte)" by (rule ext) simp
    ultimately show ?thesis using 3
      by (subst unescape_hexunicode.simps) (simp add: escape_rune_def)
  qed
qed

lemma unescape_Nil [simp]: "unescape_hexunicode [] = Inr []"
  by (simp add: unescape_hexunicode.simps)

lemma unescape_escape_runes:
  "\<forall>r \<in> set rs. r \<le> Max4 \<and> r \<noteq> c32 CHR 0x5C \<Longrightarrow>
   unescape_hexunicode (concat (map escape_rune rs)) = Inr (write_runestring rs)"
  by (induction rs) (auto simp: unescape_escape_rune)

lemma escape_unicode_encoded:
  "\<forall>r \<in> set rs. r \<le> Max4 \<Longrightarrow>
   escape_unicode (write_runestring rs) = concat (map escape_rune rs)"
proof (induction rs)
  case Nil
  then show ?case by (simp add: escape_unicode.simps)
next
  case (Cons r rs)
  then show ?case
    by (subst escape_unicode.simps) (simp add: utf8_decode_write_rune)
qed

lemma escape_rune_ascii: "set (escape_rune r) \<subseteq> {c. c < 0x80}"
proof -
  have h: "is_hex c \<Longrightarrow> c < 0x80" for c
    by (auto simp: is_hex_def hex_value_def word_le_nat_alt word_less_nat_alt split: if_splits)
  have p: "set (hex_padded w r) \<subseteq> {c. c < 0x80}" for w
    using h hex_digits_hex [of "unat r"] by (auto simp: hex_padded_def Let_def)
  have a: "(ucast r :: byte) < 0x80" if "\<not> r > 0x7F"
  proof -
    have "take_bit 7 r = r" using that by (auto intro: take_bit_le [of _ Max1] simp: not_less)
    then have "r = ucast ((ucast r :: byte) AND 0x7F)" by (simp add: ascii_bytes)
    then have "(ucast r :: byte) = ucast (ucast ((ucast r :: byte) AND 0x7F) :: rune)" by simp
    also have "\<dots> = (ucast r :: byte) AND 0x7F" by (rule bit_word_eqI) (simp add: bit_simps)
    also have "\<dots> \<le> 0x7F" by (rule word_and_le1)
    finally show ?thesis by (auto simp: word_le_nat_alt word_less_nat_alt)
  qed
  show ?thesis using p a by (auto simp: escape_rune_def)
qed

lemma escape_unicode_ascii: "set (escape_unicode s) \<subseteq> {c. c < 0x80}"
proof (induction s rule: escape_unicode.induct)
  case (1 s)
  show ?case
  proof (cases "s = []")
    case False
    obtain r c where d: "utf8_decode s = (r, c)" by fastforce
    from 1 [OF False, OF d [symmetric]] d False escape_rune_ascii [of r] show ?thesis
      by (subst escape_unicode.simps) simp
  qed (simp add: escape_unicode.simps)
qed

subsection \<open>Byte order marks\<close>

definition utf16_be_bytes :: "16 word list \<Rightarrow> bytes" where
  "utf16_be_bytes us = concat (map (\<lambda>u. [ucast (drop_bit 8 u), ucast u]) us)"

definition utf16_le_bytes :: "16 word list \<Rightarrow> bytes" where
  "utf16_le_bytes us = concat (map (\<lambda>u. [ucast u, ucast (drop_bit 8 u)]) us)"

definition utf32_be_bytes :: "rune list \<Rightarrow> bytes" where
  "utf32_be_bytes rs =
     concat (map (\<lambda>r. [ucast (drop_bit 24 r), ucast (drop_bit 16 r), ucast (drop_bit 8 r), ucast r]) rs)"

definition utf32_le_bytes :: "rune list \<Rightarrow> bytes" where
  "utf32_le_bytes rs =
     concat (map (\<lambda>r. [ucast r, ucast (drop_bit 8 r), ucast (drop_bit 16 r), ucast (drop_bit 24 r)]) rs)"

lemma unit16_split: "unit16 (ucast (drop_bit 8 u)) (ucast (u :: 16 word)) = ucast u"
  unfolding unit16_def
  by (rule rune_eqI, simp only: bit_cases, elim disjE, auto simp: bit_simps dest: bit_imp_le_length)

lemma unit32_split:
  "unit32 (ucast (drop_bit 24 r)) (ucast (drop_bit 16 r)) (ucast (drop_bit 8 r)) (ucast r) = r"
  unfolding unit32_def
  by (rule rune_eqI, simp only: bit_cases, elim disjE, simp_all add: bit_simps)

lemma read_utf16_be_units: "read_utf16_be (utf16_be_bytes us) = write_runestring (map ucast us)"
  by (induction us) (simp_all add: utf16_be_bytes_def unit16_split)

lemma read_utf16_le_units: "read_utf16_le (utf16_le_bytes us) = write_runestring (map ucast us)"
  by (induction us) (simp_all add: utf16_le_bytes_def unit16_split)

lemma read_utf32_be_units: "read_utf32_be (utf32_be_bytes rs) = Inr (write_runestring rs)"
  by (induction rs) (simp_all add: utf32_be_bytes_def unit32_split)

lemma read_utf32_le_units: "read_utf32_le (utf32_le_bytes rs) = Inr (write_runestring rs)"
  by (induction rs) (simp_all add: utf32_le_bytes_def unit32_split)

lemma bytes_zero: "ucast u = (0::byte) \<Longrightarrow> ucast (drop_bit 8 u) = (0::byte) \<Longrightarrow> u = (0 :: 16 word)"
proof -
  assume "ucast u = (0::byte)" "ucast (drop_bit 8 u) = (0::byte)"
  then have "ucast u = (0::rune)" using unit16_split [of u] by (simp add: unit16_def)
  moreover have "u = ucast (ucast u :: rune)" by (rule bit_word_eqI) (simp add: bit_simps)
  ultimately show ?thesis by simp
qed

section \<open>Properties of utf8.h\<close>

text \<open>C17: encoding any sequence of runes up to U+10FFFF with \<open>operator<<\<close> and decoding the
  bytes with \<open>utf8_to_runestring\<close> gives back exactly that sequence.\<close>

theorem utf8_roundtrip:
  assumes "\<forall>r \<in> set rs. r \<le> Max4"
  shows "utf8_to_runestring (write_runestring rs) False = Inr rs"
  using assms by (simp add: utf8_to_runestring_False decode_runes_write_runestring)

theorem utf8_roundtrip_witness:
  "utf8_to_runestring (write_runestring [0x24, 0xE9, 0x20AC, 0x1F600]) False
   = Inr [0x24, 0xE9, 0x20AC, 0x1F600]"
  by (rule utf8_roundtrip) simp

text \<open>Decoding is total and makes progress: without unescaping, \<open>utf8_to_rune\<close> on a
  non-empty view raises nothing, consumes a prefix of one to four bytes, and yields a value
  below 0x200000 (so never one of the sentinels of the regular expression engine).\<close>

theorem utf8_to_rune_total:
  assumes "s \<noteq> []"
  shows "\<exists>r c. utf8_to_rune s False = Inr (r, c) \<and> r < 0x200000 \<and>
           1 \<le> length c \<and> length c \<le> 4 \<and> c = take (length c) s"
proof -
  obtain r c where d: "utf8_decode s = (r, c)" by fastforce
  from utf8_decode_bound [of s] utf8_decode_prefix [of s] utf8_decode_progress [OF assms] d
  show ?thesis using assms by (auto simp: utf8_to_rune_def Suc_le_eq)
qed

theorem utf8_to_rune_total_witness:
  "\<exists>r c. utf8_to_rune [0xE2, 0x82, 0xAC] False = Inr (r, c) \<and> r < 0x200000 \<and>
     1 \<le> length c \<and> length c \<le> 4 \<and> c = take (length c) [0xE2, 0x82, 0xAC]"
  by (rule utf8_to_rune_total) simp

text \<open>\<open>sanitize_utf8\<close> never fails, and sanitising a second time changes nothing.\<close>

theorem sanitize_utf8_idempotent:
  "\<exists>t. sanitize_utf8 s = Inr t \<and> sanitize_utf8 t = Inr t"
  by (simp add: sanitize_utf8_def utf8_to_runestring_False sanitize_decoded
      flip: write_runestring_clean)

text \<open>C18: of the UTF-8 encoding of any runes up to U+10FFFF other than the backslash
  \<open>escape_unicode\<close> produces ASCII, and \<open>unescape_hexunicode\<close> undoes it. A backslash is not escaped, so one in
  front of a letter that begins an escape would be read as the escape.\<close>

theorem unescape_escape_roundtrip:
  assumes "\<forall>r \<in> set rs. r \<le> Max4 \<and> r \<noteq> c32 CHR 0x5C"
  shows "(\<forall>c \<in> set (escape_unicode (write_runestring rs)). c < 0x80) \<and>
         unescape_hexunicode (escape_unicode (write_runestring rs)) = Inr (write_runestring rs)"
  using assms escape_unicode_ascii [of "write_runestring rs"]
  by (auto simp: escape_unicode_encoded unescape_escape_runes)

theorem unescape_escape_roundtrip_witness:
  "list_all (\<lambda>c. c < 0x80) (escape_unicode (write_runestring [0x41, 0xE9, 0x1F600])) \<and>
   unescape_hexunicode (escape_unicode (write_runestring [0x41, 0xE9, 0x1F600]))
     = Inr (write_runestring [0x41, 0xE9, 0x1F600])"
  unfolding list_all_iff by (rule unescape_escape_roundtrip) simp

text \<open>\<open>read_to_end\<close> transcodes contents with a byte order mark to UTF-8: big endian
  UTF-16 and UTF-32 of any units, little endian UTF-32 of any units, and little endian
  UTF-16 whose first unit exists and is not null. Every UTF-16 unit becomes one rune:
  surrogate pairs are not joined.\<close>

theorem read_to_end_bom:
  assumes "us \<noteq> []" "hd us \<noteq> 0"
  shows "read_to_end ([0xFE, 0xFF] @ utf16_be_bytes vs) autodetect = Inr (write_runestring (map ucast vs)) \<and>
         read_to_end ([0x00, 0x00, 0xFE, 0xFF] @ utf32_be_bytes rs) autodetect = Inr (write_runestring rs) \<and>
         read_to_end ([0xFF, 0xFE, 0x00, 0x00] @ utf32_le_bytes rs) autodetect = Inr (write_runestring rs) \<and>
         read_to_end ([0xFF, 0xFE] @ utf16_le_bytes us) autodetect = Inr (write_runestring (map ucast us))"
proof -
  obtain u w where us: "us = u # w" using assms(1) by (cases us) auto
  have "\<not> ((ucast u :: byte) = 0 \<and> (ucast (drop_bit 8 u) :: byte) = 0)"
    using bytes_zero [of u] assms(2) us by auto
  then have "read_to_end ([0xFF, 0xFE] @ utf16_le_bytes us) autodetect = Inr (write_runestring (map ucast us))"
    unfolding read_to_end_def Let_def using read_utf16_le_units [of us]
    by (auto simp: us utf16_le_bytes_def)
  then show ?thesis
    by (simp add: read_to_end_def read_utf16_be_units read_utf32_be_units read_utf32_le_units)
qed

theorem read_to_end_bom_witness:
  "read_to_end ([0xFF, 0xFE] @ utf16_le_bytes [0x41, 0x20AC]) False
     = Inr (write_runestring [0x41, 0x20AC])"
  using read_to_end_bom [of "[0x41, 0x20AC]" "[]" False "[]"] by simp

text \<open>Contents that are only the UTF-16 little endian byte order mark (an empty document)
  are taken for UTF-32, and \<open>contents.substr(4)\<close> throws \<open>std::out_of_range\<close>; the big endian
  mark alone reads as the empty string.\<close>

theorem read_to_end_bom_only:
  "read_to_end [0xFF, 0xFE] autodetect = Inl OutOfRange \<and>
   read_to_end [0xFE, 0xFF] autodetect = Inr []"
  by (simp add: read_to_end_def)

end
