(* ===== verification/RuneClass.thy ===== *)
theory RuneClass
  imports Utf8 "HOL-Library.Product_Lexorder"
begin

text \<open>
  The constants, label predicates and character classes of
  \<open>include/trieste/regex_engine.h\<close>. A class is a list of code point ranges together with
  a bitmap of its ASCII members. The lemmas show that \<open>finalize\<close> keeps the set of runes
  and establishes the invariant under which the binary search of \<open>contains\<close> is exact,
  and that \<open>complement\<close> is the complement over the Unicode scalar values.
\<close>

subsection \<open>Sentinels and limits\<close>

abbreviation (input) Backslash :: rune where "Backslash \<equiv> c32 CHR 0x5C"
abbreviation (input) LParen :: rune where "LParen \<equiv> c32 CHR ''(''"
abbreviation (input) RParen :: rune where "RParen \<equiv> c32 CHR '')''"
abbreviation (input) Pipe :: rune where "Pipe \<equiv> c32 CHR ''|''"
abbreviation (input) Question :: rune where "Question \<equiv> c32 CHR ''?''"
abbreviation (input) Asterisk :: rune where "Asterisk \<equiv> c32 CHR ''*''"
abbreviation (input) PlusSign :: rune where "PlusSign \<equiv> c32 CHR ''+''"
abbreviation (input) Catenation :: rune where "Catenation \<equiv> 0xAFFF00"
abbreviation (input) Alternation :: rune where "Alternation \<equiv> 0xAFFF01"
abbreviation (input) ZeroOrOne :: rune where "ZeroOrOne \<equiv> 0xAFFF02"
abbreviation (input) ZeroOrMore :: rune where "ZeroOrMore \<equiv> 0xAFFF03"
abbreviation (input) OneOrMore :: rune where "OneOrMore \<equiv> 0xAFFF04"
abbreviation (input) Split :: rune where "Split \<equiv> 0xAFFF05"
abbreviation (input) WordBoundary :: rune where "WordBoundary \<equiv> 0xAFFF06"
abbreviation (input) LazyZeroOrOne :: rune where "LazyZeroOrOne \<equiv> 0xAFFF07"
abbreviation (input) LazyZeroOrMore :: rune where "LazyZeroOrMore \<equiv> 0xAFFF08"
abbreviation (input) LazyOneOrMore :: rune where "LazyOneOrMore \<equiv> 0xAFFF09"
abbreviation (input) StartAnchor :: rune where "StartAnchor \<equiv> 0xAFFF0A"
abbreviation (input) EndAnchor :: rune where "EndAnchor \<equiv> 0xAFFF0B"
abbreviation (input) Match :: rune where "Match \<equiv> 0xAFFFFF"

abbreviation (input) CaptureOpen :: rune where "CaptureOpen \<equiv> 0xAFFE00"
abbreviation (input) CaptureClose :: rune where "CaptureClose \<equiv> 0xAFFD00"
abbreviation (input) CaptureGroup :: rune where "CaptureGroup \<equiv> 0xAFFC00"
abbreviation (input) MaxCaptures :: nat where "MaxCaptures \<equiv> 64"

abbreviation (input) RuneClassBase :: rune where "RuneClassBase \<equiv> 0xBF0000"
abbreviation (input) RuneClassMax :: rune where "RuneClassMax \<equiv> 0xBFFFFF"

abbreviation (input) MaxRepetition :: nat where "MaxRepetition \<equiv> 1000"
abbreviation (input) MaxPostfixSize :: nat where "MaxPostfixSize \<equiv> 100000"
abbreviation (input) MaxStates :: nat where "MaxStates \<equiv> 100000"
abbreviation (input) MaxClosureCacheEntries :: nat where "MaxClosureCacheEntries \<equiv> 1000000"
abbreviation (input) MaxGroupNesting :: nat where "MaxGroupNesting \<equiv> 256"
abbreviation (input) MaxCaptureFrameEntries :: nat where "MaxCaptureFrameEntries \<equiv> 1000000"

datatype ErrorCode =
    NoError
  | ErrorBadEscape
  | ErrorMissingBracket
  | ErrorMissingParen
  | ErrorUnexpectedParen
  | ErrorTrailingBackslash
  | ErrorRepeatSize
  | ErrorRepeatOp
  | ErrorBadCharClass
  | ErrorBadCharRange
  | ErrorPatternTooLarge
  | ErrorNestingTooDeep
  | ErrorTooManyCaptures
  | ErrorStrictSyntax
  | ErrorStrictGroup
  | ErrorInternalError

fun error_code_string :: "ErrorCode \<Rightarrow> string" where
  "error_code_string NoError = ''''"
| "error_code_string ErrorBadEscape = ''invalid escape sequence''"
| "error_code_string ErrorMissingBracket = ''missing closing ]''"
| "error_code_string ErrorMissingParen = ''missing closing )''"
| "error_code_string ErrorUnexpectedParen = ''unexpected )''"
| "error_code_string ErrorTrailingBackslash = ''trailing backslash''"
| "error_code_string ErrorRepeatSize = ''invalid repetition size''"
| "error_code_string ErrorRepeatOp = ''invalid nested repetition''"
| "error_code_string ErrorBadCharClass = ''invalid character class''"
| "error_code_string ErrorBadCharRange = ''invalid character range''"
| "error_code_string ErrorPatternTooLarge = ''pattern too large''"
| "error_code_string ErrorNestingTooDeep = ''nesting too deep''"
| "error_code_string ErrorTooManyCaptures = ''too many capture groups''"
| "error_code_string ErrorStrictSyntax = ''syntax not permitted in strict iregexp mode''"
| "error_code_string ErrorStrictGroup = ''groups not permitted in strict iregexp mode''"
| "error_code_string ErrorInternalError = ''internal error''"

subsection \<open>Label predicates\<close>

definition is_class_ref :: "rune \<Rightarrow> bool" where
  "is_class_ref label \<longleftrightarrow> RuneClassBase \<le> label \<and> label \<le> RuneClassMax"

definition class_ref_index :: "rune \<Rightarrow> nat" where
  "class_ref_index label = unat (label - RuneClassBase)"

definition is_capture_open :: "rune \<Rightarrow> bool" where
  "is_capture_open label \<longleftrightarrow> CaptureOpen \<le> label \<and> label < CaptureOpen + of_nat MaxCaptures"

definition is_capture_close :: "rune \<Rightarrow> bool" where
  "is_capture_close label \<longleftrightarrow> CaptureClose \<le> label \<and> label < CaptureClose + of_nat MaxCaptures"

definition capture_index :: "rune \<Rightarrow> nat" where
  "capture_index label =
     (if is_capture_open label then unat (label - CaptureOpen) else unat (label - CaptureClose))"

definition is_word_char :: "rune \<Rightarrow> bool" where
  "is_word_char r \<longleftrightarrow>
     (c32 CHR ''0'' \<le> r \<and> r \<le> c32 CHR ''9'') \<or> (c32 CHR ''A'' \<le> r \<and> r \<le> c32 CHR ''Z'') \<or>
     (c32 CHR ''a'' \<le> r \<and> r \<le> c32 CHR ''z'') \<or> r = c32 CHR ''_''"

definition is_ascii :: "rune \<Rightarrow> bool" where
  "is_ascii r \<longleftrightarrow> r < 128"

text \<open>\<open>decode_rune\<close> at a position inside the string: the rune and its width.\<close>

definition decode_rune :: "bytes \<Rightarrow> nat \<Rightarrow> rune \<times> nat" where
  "decode_rune utf8_str pos =
     (let byte = utf8_str ! pos in
      if is_ascii (ucast byte) then (ucast byte, 1)
      else let (r, consumed) = utf8_decode (drop pos utf8_str) in (r, length consumed))"

subsection \<open>ASCII bitmaps\<close>

text \<open>\<open>uint64_t ascii_bitmap[2]\<close>: word \<open>r >> 6\<close>, bit \<open>r & 63\<close>.\<close>

type_synonym bitmap = "u64 \<times> u64"

definition bitmap_word :: "bitmap \<Rightarrow> rune \<Rightarrow> u64" where
  "bitmap_word bm r = (if drop_bit 6 r = 0 then fst bm else snd bm)"

definition bitmap_test :: "bitmap \<Rightarrow> rune \<Rightarrow> bool" where
  "bitmap_test bm r \<longleftrightarrow> drop_bit (unat (r AND 63)) (bitmap_word bm r) AND 1 = 1"

definition bitmap_set :: "bitmap \<Rightarrow> rune \<Rightarrow> bitmap" where
  "bitmap_set bm r =
     (let w = bitmap_word bm r OR push_bit (unat (r AND 63)) 1
      in if drop_bit 6 r = 0 then (w, snd bm) else (fst bm, w))"

definition bitmap_or :: "bitmap \<Rightarrow> bitmap \<Rightarrow> bitmap" where
  "bitmap_or a b = (fst a OR fst b, snd a OR snd b)"

subsection \<open>Character classes\<close>

type_synonym range = "rune \<times> rune"

record rune_class =
  ranges :: "range list"
  ascii_bitmap :: bitmap

definition empty_class :: rune_class where
  "empty_class = \<lparr>ranges = [], ascii_bitmap = (0, 0)\<rparr>"

text \<open>\<open>std::upper_bound\<close>: the first position whose range starts after \<open>r\<close>, by bisection.\<close>

function upper_bound :: "range list \<Rightarrow> rune \<Rightarrow> nat \<Rightarrow> nat \<Rightarrow> nat" where
  "upper_bound rs r first len =
     (if len = 0 then first
      else let half = len div 2; middle = first + half
           in if r < fst (rs ! middle) then upper_bound rs r first half
              else upper_bound rs r (middle + 1) (len - half - 1))"
  by pat_completeness auto
termination
  by (relation "measure (\<lambda>(rs, r, first, len). len)") auto

declare upper_bound.simps [simp del]

definition contains :: "rune_class \<Rightarrow> rune \<Rightarrow> bool" where
  "contains rc r =
     (if is_ascii r then bitmap_test (ascii_bitmap rc) r
      else if ranges rc = [] then False
      else let it = upper_bound (ranges rc) r 0 (length (ranges rc))
           in if it = 0 then False
              else fst (ranges rc ! (it - 1)) \<le> r \<and> r \<le> snd (ranges rc ! (it - 1)))"

definition add_range :: "rune \<Rightarrow> rune \<Rightarrow> rune_class \<Rightarrow> rune_class" where
  "add_range lo hi rc = rc\<lparr>ranges := ranges rc @ [(lo, hi)]\<rparr>"

definition merge_class :: "rune_class \<Rightarrow> rune_class \<Rightarrow> rune_class" where
  "merge_class other rc = rc\<lparr>ranges := ranges rc @ ranges other\<rparr>"

text \<open>The inner loop of \<open>rebuild_ascii_bitmap\<close> runs over \<open>lo, ..., clamped_hi\<close>.\<close>

definition bitmap_range :: "bitmap \<Rightarrow> range \<Rightarrow> bitmap" where
  "bitmap_range bm rg =
     (let (lo, hi) = rg in
      if 128 \<le> lo then bm
      else let clamped_hi = (if hi < 128 then hi else 127)
           in foldl bitmap_set bm (map of_nat [unat lo ..< Suc (unat clamped_hi)]))"

definition rebuild_ascii_bitmap :: "rune_class \<Rightarrow> rune_class" where
  "rebuild_ascii_bitmap rc = rc\<lparr>ascii_bitmap := foldl bitmap_range (0, 0) (ranges rc)\<rparr>"

text \<open>The merging loop, \<open>back\<close> being the last element of \<open>merged\<close>.\<close>

fun merge_ranges :: "range \<Rightarrow> range list \<Rightarrow> range list" where
  "merge_ranges back [] = [back]"
| "merge_ranges back (rg # rest) =
     (if fst rg \<le> snd back + 1 then merge_ranges (fst back, max (snd back) (snd rg)) rest
      else back # merge_ranges rg rest)"

definition finalize_class :: "rune_class \<Rightarrow> rune_class" where
  "finalize_class rc =
     (if length (ranges rc) \<le> 1 then rebuild_ascii_bitmap rc
      else let sorted_ranges = sort (ranges rc)
           in rebuild_ascii_bitmap
                (rc\<lparr>ranges := merge_ranges (hd sorted_ranges) (tl sorted_ranges)\<rparr>))"

definition add_gap_excluding_surrogates :: "rune \<Rightarrow> rune \<Rightarrow> range list \<Rightarrow> range list" where
  "add_gap_excluding_surrogates gap_lo gap_hi out =
     (if gap_lo < 0xD800 then
        (if gap_hi < 0xD800 then out @ [(gap_lo, gap_hi)]
         else let out = out @ [(gap_lo, 0xD7FF)]
              in if 0xDFFF < gap_hi then out @ [(0xE000, gap_hi)] else out)
      else if gap_lo < 0xE000 then out @ [(0xE000, gap_hi)]
      else out @ [(gap_lo, gap_hi)])"

fun complement_loop :: "range list \<Rightarrow> rune \<Rightarrow> range list \<Rightarrow> range list" where
  "complement_loop [] prev out =
     (if prev \<le> 0x10FFFF then add_gap_excluding_surrogates prev 0x10FFFF out else out)"
| "complement_loop ((lo, hi) # rest) prev out =
     (let out = (if prev < lo then add_gap_excluding_surrogates prev (lo - 1) out else out)
      in complement_loop rest (hi + 1) out)"

definition complement :: "rune_class \<Rightarrow> rune_class" where
  "complement rc =
     rebuild_ascii_bitmap \<lparr>ranges = complement_loop (ranges rc) 0 [], ascii_bitmap = (0, 0)\<rparr>"

definition dot :: rune_class where
  "dot = rebuild_ascii_bitmap \<lparr>ranges = [(0, 0xD7FF), (0xE000, 0x10FFFF)], ascii_bitmap = (0, 0)\<rparr>"

subsection \<open>Bitmaps as sets\<close>

lemma drop_bit_and_1: "drop_bit n (w::u64) AND 1 = 1 \<longleftrightarrow> bit w n"
  by (simp add: and_one_eq bit_iff_odd_drop_bit odd_iff_mod_2_eq_one)

lemma bitmap_test_iff: "bitmap_test bm r \<longleftrightarrow> bit (bitmap_word bm r) (unat (r AND 63))"
  by (simp add: bitmap_test_def drop_bit_and_1)

lemma split_64:
  assumes "(m::nat) < 128" "n < 128"
  shows "m = n \<longleftrightarrow> (m div 64 = 0 \<longleftrightarrow> n div 64 = 0) \<and> m mod 64 = n mod 64"
proof -
  have "m div 64 = 0 \<or> m div 64 = 1" "n div 64 = 0 \<or> n div 64 = 1" using assms by auto
  then show ?thesis by (metis div_mult_mod_eq)
qed

lemma ascii_split:
  assumes "(r::rune) < 128" "q < 128"
  shows "r = q \<longleftrightarrow> (drop_bit 6 r = 0 \<longleftrightarrow> drop_bit 6 q = 0) \<and> unat (r AND 63) = unat (q AND 63)"
proof -
  have a: "unat (x AND 63) = unat x mod 64" for x :: rune
  proof -
    have "x AND 63 = take_bit 6 x" by (simp add: take_bit_eq_mask mask_eq_exp_minus_1)
    then show ?thesis by (simp add: unsigned_take_bit_eq) (simp add: take_bit_eq_mod)
  qed
  have d: "drop_bit 6 x = 0 \<longleftrightarrow> unat x div 64 = 0" for x :: rune
  proof -
    have "unat (drop_bit 6 x) = unat x div 64" by (simp add: drop_bit_eq_div unat_div)
    then show ?thesis by (metis unsigned_0 unsigned_eq_0_iff)
  qed
  have "unat r < 128" "unat q < 128" using assms by (simp_all add: word_less_nat_alt)
  then show ?thesis unfolding a d unfolding word_unat_eq_iff by (rule split_64)
qed

lemma and_63_less: "unat ((r::rune) AND 63) < 64"
  using word_and_le1 [of r 63] by (simp add: word_le_nat_alt)

lemma bitmap_test_set [bitmap_simps]:
  assumes "r < 128" "q < 128"
  shows "bitmap_test (bitmap_set bm r) q \<longleftrightarrow> q = r \<or> bitmap_test bm q"
  using ascii_split [OF assms] and_63_less [of q]
  by (auto simp: bitmap_test_iff bitmap_set_def bitmap_word_def Let_def bit_simps)

lemma bitmap_test_empty [bitmap_simps, simp]: "\<not> bitmap_test (0, 0) q"
  by (simp add: bitmap_test_iff bitmap_word_def)

lemma bitmap_test_or [bitmap_simps]:
  "bitmap_test (bitmap_or a b) q \<longleftrightarrow> bitmap_test a q \<or> bitmap_test b q"
  by (simp add: bitmap_test_iff bitmap_or_def bitmap_word_def bit_simps)

lemma bitmap_test_foldl:
  assumes "\<forall>r \<in> set rs. r < 128" "q < 128"
  shows "bitmap_test (foldl bitmap_set bm rs) q \<longleftrightarrow> q \<in> set rs \<or> bitmap_test bm q"
  using assms by (induction rs arbitrary: bm) (auto simp: bitmap_test_set)

definition in_range :: "range \<Rightarrow> rune \<Rightarrow> bool" where
  "in_range rg r \<longleftrightarrow> fst rg \<le> r \<and> r \<le> snd rg"

definition in_ranges :: "range list \<Rightarrow> rune \<Rightarrow> bool" where
  "in_ranges rs r \<longleftrightarrow> (\<exists>rg \<in> set rs. in_range rg r)"

lemma in_ranges_simps [simp]:
  "\<not> in_ranges [] r"
  "in_ranges (rg # rs) r \<longleftrightarrow> in_range rg r \<or> in_ranges rs r"
  "in_ranges (rs @ rs') r \<longleftrightarrow> in_ranges rs r \<or> in_ranges rs' r"
  by (auto simp: in_ranges_def)

lemma bitmap_test_range:
  assumes "q < 128"
  shows "bitmap_test (bitmap_range bm rg) q \<longleftrightarrow> in_range rg q \<or> bitmap_test bm q"
proof -
  obtain lo hi where rg: "rg = (lo, hi)" by fastforce
  define ch where "ch = (if hi < 128 then hi else 127)"
  have ch: "unat ch < 128" "q \<le> hi \<longleftrightarrow> q \<le> ch"
    using assms by (auto simp: ch_def word_less_nat_alt word_le_nat_alt not_less)
  let ?l = "map (of_nat :: nat \<Rightarrow> rune) [unat lo ..< Suc (unat ch)]"
  have small: "unat (of_nat n :: rune) = n" if "n < 128" for n
    using that by (simp add: unat_of_nat take_bit_nat_eq_self)
  have l: "\<forall>r \<in> set ?l. r < 128"
    using ch(1) by (auto simp: word_less_nat_alt small)
  have "q \<in> set ?l \<longleftrightarrow> lo \<le> q \<and> q \<le> ch"
  proof
    assume "q \<in> set ?l"
    then obtain n where "q = of_nat n" "unat lo \<le> n" "n \<le> unat ch" by auto
    then show "lo \<le> q \<and> q \<le> ch" using ch(1) by (simp add: word_le_nat_alt small)
  next
    assume "lo \<le> q \<and> q \<le> ch"
    then have "unat q \<in> {unat lo ..< Suc (unat ch)}" by (simp add: word_le_nat_alt)
    then show "q \<in> set ?l" unfolding set_map set_upt by (rule image_eqI [rotated]) simp
  qed
  moreover have "\<not> in_range rg q" if "128 \<le> lo" using that assms by (auto simp: rg in_range_def)
  ultimately show ?thesis
    using bitmap_test_foldl [OF l assms, of bm] ch(2)
    by (auto simp: bitmap_range_def rg Let_def ch_def [symmetric] in_range_def)
qed

lemma bitmap_test_ranges:
  "q < 128 \<Longrightarrow> bitmap_test (foldl bitmap_range bm rs) q \<longleftrightarrow> in_ranges rs q \<or> bitmap_test bm q"
  by (induction rs arbitrary: bm) (auto simp: bitmap_test_range)

lemma rebuild_ascii_bitmap_simps [simp]:
  "ranges (rebuild_ascii_bitmap rc) = ranges rc"
  "q < 128 \<Longrightarrow> bitmap_test (ascii_bitmap (rebuild_ascii_bitmap rc)) q \<longleftrightarrow> in_ranges (ranges rc) q"
  by (simp_all add: rebuild_ascii_bitmap_def bitmap_test_ranges)

subsection \<open>The invariant of a finished class\<close>

definition ranges_sorted :: "range list \<Rightarrow> bool" where
  "ranges_sorted rs \<longleftrightarrow> sorted_wrt (\<lambda>a b. fst a \<le> fst b \<and> snd a < fst b) rs"

text \<open>A gap inside the surrogates leaves an empty range that starts at \<open>0xE000\<close>.\<close>

definition range_ok :: "range \<Rightarrow> bool" where
  "range_ok rg \<longleftrightarrow> snd rg < 0x200000 \<and>
     (fst rg \<le> snd rg \<or> fst rg = 0xE000 \<and> 0xD800 \<le> snd rg \<and> snd rg < 0xE000)"

definition class_ok :: "rune_class \<Rightarrow> bool" where
  "class_ok rc \<longleftrightarrow> ranges_sorted (ranges rc) \<and> (\<forall>rg \<in> set (ranges rc). range_ok rg) \<and>
     (\<forall>q < 128. bitmap_test (ascii_bitmap rc) q \<longleftrightarrow> in_ranges (ranges rc) q)"

lemma upper_bound_partition:
  assumes "\<forall>i < first. fst (rs ! i) \<le> r"
    and "\<forall>i. first + len \<le> i \<and> i < length rs \<longrightarrow> r < fst (rs ! i)"
    and "first + len \<le> length rs" and "sorted (map fst rs)"
  shows "(\<forall>i < upper_bound rs r first len. fst (rs ! i) \<le> r) \<and>
         (\<forall>i. upper_bound rs r first len \<le> i \<and> i < length rs \<longrightarrow> r < fst (rs ! i)) \<and>
         upper_bound rs r first len \<le> length rs"
  using assms
proof (induction rs r first len rule: upper_bound.induct)
  case (1 rs r first len)
  show ?case
  proof (cases "len = 0")
    case True
    with 1(3-5) show ?thesis by (simp add: upper_bound.simps [of rs r first 0])
  next
    case False
    define mid where "mid = first + len div 2"
    have mid: "mid < length rs" "first \<le> mid" "mid < first + len" using 1(5) False by (auto simp: mid_def)
    have mono: "i \<le> j \<Longrightarrow> j < length rs \<Longrightarrow> fst (rs ! i) \<le> fst (rs ! j)" for i j
      using sorted_nth_mono [OF 1(6), of i j] by simp
    show ?thesis
    proof (cases "r < fst (rs ! mid)")
      case True
      then have "\<forall>i. mid \<le> i \<and> i < length rs \<longrightarrow> r < fst (rs ! i)" using mono by force
      moreover have "upper_bound rs r first len = upper_bound rs r first (len div 2)"
        using True False by (simp add: upper_bound.simps [of rs r first len] mid_def Let_def)
      ultimately show ?thesis
        using 1(1) [OF False refl refl] True mid 1(3,5,6) by (simp add: mid_def)
    next
      case f: False
      then have "\<forall>i < mid + 1. fst (rs ! i) \<le> r" using mono [OF _ mid(1)] by (auto simp: less_Suc_eq_le not_less intro: order.trans)
      moreover have "upper_bound rs r first len = upper_bound rs r (mid + 1) (len - len div 2 - 1)"
        using f False by (simp add: upper_bound.simps [of rs r first len] mid_def Let_def)
      moreover have "mid + 1 + (len - len div 2 - 1) = first + len" using False by (simp add: mid_def)
      ultimately show ?thesis
        using 1(2) [OF False refl refl] f mid 1(4,5,6) by (simp add: mid_def)
    qed
  qed
qed

lemma ranges_sorted_fst: "ranges_sorted rs \<Longrightarrow> sorted (map fst rs)"
  unfolding ranges_sorted_def by (induction rs) auto

lemma contains_iff:
  assumes "class_ok rc"
  shows "contains rc r \<longleftrightarrow> in_ranges (ranges rc) r"
proof (cases "is_ascii r")
  case True
  with assms show ?thesis by (simp add: contains_def class_ok_def is_ascii_def)
next
  case False
  let ?rs = "ranges rc" let ?it = "upper_bound ?rs r 0 (length ?rs)"
  from assms have s: "ranges_sorted ?rs" by (simp add: class_ok_def)
  have "(\<forall>i < ?it. fst (?rs ! i) \<le> r) \<and> (\<forall>i. ?it \<le> i \<and> i < length ?rs \<longrightarrow> r < fst (?rs ! i)) \<and>
    ?it \<le> length ?rs"
    by (rule upper_bound_partition) (use ranges_sorted_fst [OF s] in auto)
  then have ub: "\<forall>i < ?it. fst (?rs ! i) \<le> r" "\<forall>i. ?it \<le> i \<and> i < length ?rs \<longrightarrow> r < fst (?rs ! i)"
    "?it \<le> length ?rs" by auto
  have "in_ranges ?rs r \<longleftrightarrow> ?it \<noteq> 0 \<and> in_range (?rs ! (?it - 1)) r"
  proof
    assume "in_ranges ?rs r"
    then obtain i where i: "i < length ?rs" "in_range (?rs ! i) r"
      by (auto simp: in_ranges_def in_set_conv_nth)
    with ub(2) have "i < ?it" by (meson in_range_def leD leI)
    have "i = ?it - 1"
    proof (rule ccontr)
      assume "i \<noteq> ?it - 1"
      with \<open>i < ?it\<close> have "i < ?it - 1" by simp
      with s ub(3) have "snd (?rs ! i) < fst (?rs ! (?it - 1))"
        by (auto simp: ranges_sorted_def sorted_wrt_iff_nth_less)
      moreover have "fst (?rs ! (?it - 1)) \<le> r" using ub(1) \<open>i < ?it\<close> by simp
      ultimately show False using i(2) by (auto simp: in_range_def)
    qed
    with i \<open>i < ?it\<close> show "?it \<noteq> 0 \<and> in_range (?rs ! (?it - 1)) r" by auto
  next
    assume "?it \<noteq> 0 \<and> in_range (?rs ! (?it - 1)) r"
    then show "in_ranges ?rs r" using ub(3) by (auto simp: in_ranges_def intro!: bexI [of _ "?rs ! (?it - 1)"])
  qed
  with False show ?thesis by (auto simp: contains_def Let_def in_range_def)
qed

subsection \<open>Finalizing\<close>

lemma unat_Suc_range: "range_ok rg \<Longrightarrow> unat (snd rg + 1) = Suc (unat (snd rg))"
  by (auto simp: range_ok_def word_less_nat_alt unat_word_ariths)

lemma joined_range:
  assumes "range_ok a" "range_ok b" "fst a \<le> fst b" "fst b \<le> snd a + 1"
  defines "m \<equiv> (fst a, max (snd a) (snd b))"
  shows "range_ok m" "in_range m r \<longleftrightarrow> in_range a r \<or> in_range b r"
proof -
  have le: "unat (fst a) \<le> unat (fst b)" "unat (fst b) \<le> Suc (unat (snd a))"
    using assms(3,4) by (simp_all add: word_le_nat_alt unat_Suc_range [OF assms(1)])
  note w = range_ok_def max_def word_le_nat_alt word_less_nat_alt word_unat_eq_iff in_range_def
  show "range_ok m" using assms(1,2) le by (simp add: m_def w) linarith
  show "in_range m r \<longleftrightarrow> in_range a r \<or> in_range b r"
    using assms(1,2) le by (simp add: m_def w) linarith
qed

lemma apart_ranges: "range_ok a \<Longrightarrow> \<not> fst b \<le> snd a + 1 \<Longrightarrow> snd a < fst b"
  by (simp add: word_le_nat_alt word_less_nat_alt unat_Suc_range)

lemma merge_ranges_in:
  assumes "range_ok b" "\<forall>rg \<in> set rs. range_ok rg" "sorted (fst b # map fst rs)"
  shows "in_ranges (merge_ranges b rs) r \<longleftrightarrow> in_range b r \<or> in_ranges rs r"
  using assms
proof (induction b rs rule: merge_ranges.induct)
  case (2 b rg rest)
  then show ?case using joined_range(1) [of b rg] joined_range(2) [of b rg r] by auto
qed simp

lemma merge_ranges_ok:
  assumes "range_ok b" "\<forall>rg \<in> set rs. range_ok rg" "sorted (fst b # map fst rs)"
  shows "(\<forall>rg \<in> set (merge_ranges b rs). range_ok rg \<and> fst b \<le> fst rg) \<and>
         ranges_sorted (merge_ranges b rs)"
  using assms
proof (induction b rs rule: merge_ranges.induct)
  case (1 b)
  then show ?case by (simp add: ranges_sorted_def)
next
  case (2 b rg rest)
  have ok: "range_ok b" "range_ok rg" "\<forall>x \<in> set rest. range_ok x" "fst b \<le> fst rg" using 2 by auto
  show ?case
  proof (cases "fst rg \<le> snd b + 1")
    case True
    with 2 joined_range(1) [OF ok(1,2,4) True] ok show ?thesis by simp
  next
    case False
    have IH: "\<forall>x \<in> set (merge_ranges rg rest). range_ok x \<and> fst rg \<le> fst x"
      "ranges_sorted (merge_ranges rg rest)" using 2(2) [OF False ok(2,3)] 2(5) by auto
    have "fst b \<le> fst x \<and> snd b < fst x" if "x \<in> set (merge_ranges rg rest)" for x
      using IH(1) that ok(4) apart_ranges [OF ok(1) False]
      by (blast intro: order.trans order.strict_trans2)
    with IH ok False show ?thesis by (simp add: ranges_sorted_def)
  qed
qed

lemma sorted_fst_sort: "sorted (map fst (sort (rs :: range list)))"
proof -
  have "sorted (map fst xs)" if "sorted xs" for xs :: "range list"
    using that by (induction xs) (force simp: less_eq_prod_def)+
  then show ?thesis by simp
qed

lemma finalize_class_ok:
  assumes "\<forall>rg \<in> set (ranges rc). range_ok rg"
  shows "class_ok (finalize_class rc) \<and> in_ranges (ranges (finalize_class rc)) r = in_ranges (ranges rc) r"
proof (cases "length (ranges rc) \<le> 1")
  case True
  then have "ranges_sorted (ranges rc)" by (cases "ranges rc") (auto simp: ranges_sorted_def)
  with True assms show ?thesis by (auto simp: finalize_class_def class_ok_def)
next
  case False
  let ?s = "sort (ranges rc)"
  have "?s \<noteq> []" using False by (metis length_sort list.size(3) zero_le_one)
  then have s: "?s = hd ?s # tl ?s" by simp
  have "sorted (fst (hd ?s) # map fst (tl ?s))"
    using sorted_fst_sort [of "ranges rc"] by (metis s list.simps(9))
  moreover have "range_ok (hd ?s)" "\<forall>rg \<in> set (tl ?s). range_ok rg"
    using assms \<open>?s \<noteq> []\<close> by (metis hd_in_set set_sort, metis list.set_sel(2) set_sort)
  moreover have "in_ranges (ranges rc) r \<longleftrightarrow> in_range (hd ?s) r \<or> in_ranges (tl ?s) r"
    by (metis in_ranges_def in_ranges_simps(2) s set_sort)
  ultimately show ?thesis
    using False merge_ranges_ok [of "hd ?s" "tl ?s"] merge_ranges_in [of "hd ?s" "tl ?s" r]
    by (auto simp: finalize_class_def class_ok_def Let_def)
qed

subsection \<open>Complement\<close>

definition surrogate :: "rune \<Rightarrow> bool" where
  "surrogate r \<longleftrightarrow> 0xD800 \<le> r \<and> r \<le> 0xDFFF"

lemmas rune_arith = word_le_nat_alt word_less_nat_alt

lemma add_gap_append:
  "add_gap_excluding_surrogates lo hi out = out @ add_gap_excluding_surrogates lo hi []"
  by (simp add: add_gap_excluding_surrogates_def Let_def)

lemma add_gap_in:
  "in_ranges (add_gap_excluding_surrogates lo hi []) r \<longleftrightarrow> lo \<le> r \<and> r \<le> hi \<and> \<not> surrogate r"
  by (auto simp: add_gap_excluding_surrogates_def in_range_def surrogate_def rune_arith not_less Let_def)

lemma add_gap_ok:
  assumes "lo \<le> hi" "hi < 0x200000" "rg \<in> set (add_gap_excluding_surrogates lo hi [])"
  shows "range_ok rg \<and> lo \<le> fst rg \<and> snd rg \<le> hi \<and> (hi < fst rg \<longrightarrow> fst rg = 0xE000 \<and> 0xD800 \<le> hi)"
  using assms by (auto simp: add_gap_excluding_surrogates_def range_ok_def rune_arith Let_def split: if_splits)

lemma add_gap_sorted: "ranges_sorted (add_gap_excluding_surrogates lo hi [])"
  by (auto simp: add_gap_excluding_surrogates_def ranges_sorted_def rune_arith Let_def)

lemma complement_loop_append:
  "complement_loop rs prev out = out @ complement_loop rs prev []"
proof (induction rs arbitrary: prev out)
  case Nil
  then show ?case by (simp add: add_gap_append [of _ _ out])
next
  case (Cons rg rest)
  obtain lo hi where rg: "rg = (lo, hi)" by fastforce
  show ?case
    by (simp add: rg Let_def Cons.IH [of _ out] Cons.IH [of _ "add_gap_excluding_surrogates _ _ _"]
        add_gap_append [of _ _ out] Cons.IH [of _ "out @ _"])
qed

definition gap :: "rune \<Rightarrow> rune \<Rightarrow> range list" where
  "gap prev lo = (if prev < lo then add_gap_excluding_surrogates prev (lo - 1) [] else [])"

lemma complement_loop_Cons:
  "complement_loop (rg # rest) prev [] = gap prev (fst rg) @ complement_loop rest (snd rg + 1) []"
  by (cases rg) (simp add: gap_def Let_def complement_loop_append [of _ _ "add_gap_excluding_surrogates _ _ _"])

lemma unat_minus_1: "(prev::rune) < lo \<Longrightarrow> unat (lo - 1) = unat lo - 1"
  by (subst unat_sub) (auto simp: rune_arith)

lemma gap_in: "in_ranges (gap prev lo) r \<longleftrightarrow> prev \<le> r \<and> r < lo \<and> \<not> surrogate r"
  by (auto simp: gap_def add_gap_in rune_arith unat_minus_1)

lemma gap_ok:
  assumes "rg \<in> set (gap prev lo)" "lo < 0x200000"
  shows "range_ok rg \<and> prev \<le> fst rg \<and> (0xD800 \<le> prev \<longrightarrow> 0xE000 \<le> fst rg) \<and> snd rg < lo \<and>
         (fst rg < lo \<or> fst rg = 0xE000 \<and> 0xD800 < lo)"
  using assms
  by (auto simp: gap_def add_gap_excluding_surrogates_def range_ok_def rune_arith unat_minus_1 Let_def
      split: if_splits)

lemma gap_sorted: "ranges_sorted (gap prev lo)"
  by (simp add: gap_def add_gap_sorted) (simp add: ranges_sorted_def)

lemma complement_loop_in:
  assumes "ranges_sorted rs" "\<forall>rg \<in> set rs. range_ok rg \<and> prev \<le> fst rg" "r \<le> 0x10FFFF"
  shows "in_ranges (complement_loop rs prev []) r \<longleftrightarrow> prev \<le> r \<and> \<not> surrogate r \<and> \<not> in_ranges rs r"
  using assms
proof (induction rs arbitrary: prev)
  case Nil
  then show ?case by (auto simp: add_gap_in)
next
  case (Cons rg rest)
  have ok: "range_ok rg" "prev \<le> fst rg" using Cons.prems by auto
  have after: "snd rg < fst x \<and> fst rg \<le> fst x" if "x \<in> set rest" for x
    using Cons.prems(1) that by (auto simp: ranges_sorted_def)
  have p: "snd rg + 1 \<le> fst x" if "x \<in> set rest" for x
    using after [OF that] by (simp add: rune_arith unat_Suc_range [OF ok(1)])
  have IH: "in_ranges (complement_loop rest (snd rg + 1) []) r \<longleftrightarrow>
      snd rg < r \<and> \<not> surrogate r \<and> \<not> in_ranges rest r"
    using Cons.IH [of "snd rg + 1"] Cons.prems p
    by (auto simp: ranges_sorted_def rune_arith unat_Suc_range [OF ok(1)])
  have before: "\<not> in_ranges rest r" if "r < fst rg"
    using after that by (fastforce simp: in_ranges_def in_range_def)
  from ok have "fst rg \<le> snd rg \<or> fst rg = 0xE000 \<and> 0xD800 \<le> snd rg \<and> snd rg < 0xE000"
    by (simp add: range_ok_def)
  then show ?case
    using ok(2) before unfolding complement_loop_Cons in_ranges_simps IH gap_in in_range_def surrogate_def
    by (auto simp: rune_arith)
qed

lemma complement_loop_ok:
  assumes "ranges_sorted rs" "\<forall>rg \<in> set rs. range_ok rg \<and> prev \<le> fst rg"
  shows "(\<forall>rg \<in> set (complement_loop rs prev []). range_ok rg \<and> prev \<le> fst rg \<and>
            (0xD800 \<le> prev \<longrightarrow> 0xE000 \<le> fst rg)) \<and>
         ranges_sorted (complement_loop rs prev [])"
  using assms
proof (induction rs arbitrary: prev)
  case Nil
  then show ?case using gap_ok [where prev = prev and lo = "0x110000"] gap_sorted [of prev "0x110000"]
    by (auto simp: gap_def rune_arith not_le ranges_sorted_def)
next
  case (Cons rg rest)
  have ok: "range_ok rg" "prev \<le> fst rg" "fst rg < 0x200000" using Cons.prems
    by (auto simp: range_ok_def rune_arith)
  have p: "snd rg + 1 \<le> fst x" if "x \<in> set rest" for x
    using Cons.prems(1) that by (auto simp: ranges_sorted_def rune_arith unat_Suc_range [OF ok(1)])
  have IH: "\<forall>x \<in> set (complement_loop rest (snd rg + 1) []). range_ok x \<and> snd rg + 1 \<le> fst x \<and>
        (0xD800 \<le> snd rg + 1 \<longrightarrow> 0xE000 \<le> fst x)"
      "ranges_sorted (complement_loop rest (snd rg + 1) [])"
    using Cons.IH [of "snd rg + 1"] Cons.prems p by (auto simp: ranges_sorted_def)
  have shape: "fst rg \<le> snd rg \<or> fst rg = 0xE000 \<and> 0xD800 \<le> snd rg \<and> snd rg < 0xE000"
    using ok by (simp add: range_ok_def)
  have sep: "fst a \<le> fst x \<and> snd a < fst x"
    if "a \<in> set (gap prev (fst rg))" "x \<in> set (complement_loop rest (snd rg + 1) [])" for a x
    using gap_ok [OF that(1) ok(3)] IH(1) [rule_format, OF that(2)] shape
    by (auto simp: rune_arith unat_Suc_range [OF ok(1)] word_unat_eq_iff)
  have low: "prev \<le> fst x \<and> (0xD800 \<le> prev \<longrightarrow> 0xE000 \<le> fst x)"
    if "x \<in> set (complement_loop rest (snd rg + 1) [])" for x
    using IH(1) [rule_format, OF that] shape ok(2)
    by (auto simp: rune_arith unat_Suc_range [OF ok(1)] word_unat_eq_iff)
  show ?case
    unfolding complement_loop_Cons
    using IH gap_ok [OF _ ok(3)] gap_sorted [of prev "fst rg"] sep low
    by (auto simp: ranges_sorted_def sorted_wrt_append)
qed

lemma complement_class:
  assumes "class_ok rc"
  shows "class_ok (complement rc)"
    and "r \<le> 0x10FFFF \<Longrightarrow> contains (complement rc) r \<longleftrightarrow> \<not> surrogate r \<and> \<not> contains rc r"
proof -
  have rs: "ranges_sorted (ranges rc)" "\<forall>rg \<in> set (ranges rc). range_ok rg \<and> 0 \<le> fst rg"
    using assms by (auto simp: class_ok_def)
  from complement_loop_ok [OF rs] show ok: "class_ok (complement rc)"
    by (auto simp: class_ok_def complement_def)
  show "contains (complement rc) r \<longleftrightarrow> \<not> surrogate r \<and> \<not> contains rc r" if "r \<le> 0x10FFFF"
    using complement_loop_in [OF rs that]
    by (simp add: contains_iff [OF ok] contains_iff [OF assms]) (simp add: complement_def)
qed

lemma dot_class: "class_ok dot" "contains dot r \<longleftrightarrow> r \<le> 0x10FFFF \<and> \<not> surrogate r"
proof -
  show ok: "class_ok dot"
    by (auto simp: class_ok_def dot_def ranges_sorted_def range_ok_def)
  show "contains dot r \<longleftrightarrow> r \<le> 0x10FFFF \<and> \<not> surrogate r"
    unfolding contains_iff [OF ok]
    by (auto simp: dot_def in_range_def surrogate_def rune_arith)
qed

subsection \<open>Properties\<close>

lemma ranges_ok: "\<forall>rg \<in> set rs. fst rg \<le> snd rg \<and> snd rg < 0x200000 \<Longrightarrow> \<forall>rg \<in> set rs. range_ok rg"
  by (simp add: range_ok_def)

text \<open>C15: a class built from any ranges, in any order, overlapping or adjacent, contains after
  \<open>finalize\<close> exactly the runes of its ranges, both by the ASCII bitmap and by the binary
  search.\<close>

theorem contains_finalize:
  assumes "\<forall>rg \<in> set (ranges rc). fst rg \<le> snd rg \<and> snd rg < 0x200000"
  shows "contains (finalize_class rc) r \<longleftrightarrow> (\<exists>rg \<in> set (ranges rc). fst rg \<le> r \<and> r \<le> snd rg)"
  using finalize_class_ok [OF ranges_ok [OF assms], of r] contains_iff [of "finalize_class rc" r]
  by (auto simp: in_ranges_def in_range_def)

theorem contains_finalize_witness:
  "contains (finalize_class \<lparr>ranges = [(0x62, 0x64), (0x3B1, 0x3C9), (0x61, 0x62)], ascii_bitmap = (0, 0)\<rparr>) 0x3B2 \<and>
   \<not> contains (finalize_class \<lparr>ranges = [(0x62, 0x64), (0x3B1, 0x3C9), (0x61, 0x62)], ascii_bitmap = (0, 0)\<rparr>) 0x60"
  by (subst (1 2) contains_finalize) simp_all



end
