(* ===== verification/RegexParser.thy ===== *)
theory RegexParser
  imports RuneClass
begin

text \<open>
  \<open>RegexEngine::PostfixBuilder\<close> and \<open>regexp_to_postfix_runes\<close> of
  \<open>include/trieste/regex_engine.h\<close>: the shunting-yard translation of a pattern to a
  postfix token stream with a table of character classes. The builder is a record, one
  field per member; \<open>operator_stack\<close> and \<open>group_start_stack\<close> are kept with their
  \<open>back()\<close> first. A handler returns the new builder, the new position, and whether it
  succeeded.

  The Unicode general category tables are a parameter \<open>fc\<close>, standing for
  \<open>unicode::find_category\<close>: \<open>None\<close> for an unknown name, otherwise the ranges and the ASCII
  bitmap of the category.

  The lemmas show that every handler moves forward, that the builder's invariant (indices
  in range, tokens well formed, limits respected) is preserved by every handler, and hence
  that parsing terminates with a well-formed token stream or an error.
\<close>

datatype SyntaxMode = Extended | IregexpStrict

type_synonym categories = "bytes \<Rightarrow> (range list \<times> bitmap) option"

record group_info =
  postfix_index :: nat
  gi_need_concat :: bool
  capturing :: bool
  capture_id :: nat

record builder =
  postfix :: "rune list"
  rune_classes :: "rune_class list"
  num_captures :: nat
  error_code :: ErrorCode
  error_arg :: bytes
  syntax_mode :: SyntaxMode
  operator_stack :: "rune list"
  need_concat :: bool
  escaped :: bool
  atom_start :: nat
  need_concat_before_atom :: bool
  atom_is_quantified :: bool
  group_start_stack :: "group_info list"

definition init_builder :: "SyntaxMode \<Rightarrow> builder" where
  "init_builder mode =
     \<lparr>postfix = [], rune_classes = [], num_captures = 0, error_code = NoError, error_arg = [],
      syntax_mode = mode, operator_stack = [], need_concat = False, escaped = False,
      atom_start = 0, need_concat_before_atom = False, atom_is_quantified = False,
      group_start_stack = []\<rparr>"

definition builder_ok :: "builder \<Rightarrow> bool" where
  "builder_ok b \<longleftrightarrow> error_code b = NoError"

definition builder_set_error :: "ErrorCode \<Rightarrow> builder \<Rightarrow> builder" where
  "builder_set_error code b = (if error_code b = NoError then b\<lparr>error_code := code\<rparr> else b)"

subsection \<open>Syntax-mode policy\<close>

definition is_extended_mode :: "builder \<Rightarrow> bool" where
  "is_extended_mode b \<longleftrightarrow> syntax_mode b = Extended"

definition allow_standalone_closer_literals :: "builder \<Rightarrow> bool" where
  "allow_standalone_closer_literals b = is_extended_mode b"

definition allow_shorthand_escapes :: "builder \<Rightarrow> bool" where
  "allow_shorthand_escapes b = is_extended_mode b"

definition allow_posix_char_classes :: "builder \<Rightarrow> bool" where
  "allow_posix_char_classes b = is_extended_mode b"

definition allow_word_boundary_escape :: "builder \<Rightarrow> bool" where
  "allow_word_boundary_escape b = is_extended_mode b"

definition allow_lazy_quantifiers :: "builder \<Rightarrow> bool" where
  "allow_lazy_quantifiers b = is_extended_mode b"

definition allow_capturing_groups :: "builder \<Rightarrow> bool" where
  "allow_capturing_groups b = is_extended_mode b"

definition allow_noncapturing_groups :: "builder \<Rightarrow> bool" where
  "allow_noncapturing_groups b = is_extended_mode b"

definition is_ascii_punctuation :: "rune \<Rightarrow> bool" where
  "is_ascii_punctuation ch =
     (if ch < 0x21 \<or> 0x7E < ch then False
      else \<not> ((c32 CHR ''0'' \<le> ch \<and> ch \<le> c32 CHR ''9'') \<or>
             (c32 CHR ''A'' \<le> ch \<and> ch \<le> c32 CHR ''Z'') \<or>
             (c32 CHR ''a'' \<le> ch \<and> ch \<le> c32 CHR ''z'')))"

definition allow_extended_identity_escape :: "builder \<Rightarrow> rune \<Rightarrow> bool" where
  "allow_extended_identity_escape b ch \<longleftrightarrow> is_extended_mode b \<and> is_ascii_punctuation ch"

lemmas mode_defs = is_extended_mode_def allow_standalone_closer_literals_def
  allow_shorthand_escapes_def allow_posix_char_classes_def allow_word_boundary_escape_def
  allow_lazy_quantifiers_def allow_capturing_groups_def allow_noncapturing_groups_def
  allow_extended_identity_escape_def

subsection \<open>Pure helpers\<close>

definition is_ascii_digit_at :: "bytes \<Rightarrow> nat \<Rightarrow> bool" where
  "is_ascii_digit_at pattern pos \<longleftrightarrow>
     pos < length pattern \<and> c8 CHR ''0'' \<le> pattern ! pos \<and> pattern ! pos \<le> c8 CHR ''9''"

definition single_char_escapes :: "rune list" where
  "single_char_escapes = map of_char (''()*+-.?['' @ [CHR 0x5C] @ '']^${|}/,'')"

definition is_class_escape :: "rune \<Rightarrow> bool" where
  "is_class_escape ch \<longleftrightarrow>
     ch = c32 CHR ''n'' \<or> ch = c32 CHR ''r'' \<or> ch = c32 CHR ''t'' \<or> ch \<in> set single_char_escapes"

definition escape_to_rune :: "rune \<Rightarrow> rune" where
  "escape_to_rune ch =
     (if ch = c32 CHR ''n'' then 0x0A
      else if ch = c32 CHR ''r'' then 0x0D
      else if ch = c32 CHR ''t'' then 0x09
      else ch)"

definition shorthand_class :: "rune \<Rightarrow> rune_class \<Rightarrow> rune_class option" where
  "shorthand_class ch rc =
     (if ch = c32 CHR ''d'' then
        Some (finalize_class (add_range (c32 CHR ''0'') (c32 CHR ''9'') rc))
      else if ch = c32 CHR ''s'' then
        Some (finalize_class (add_range 0x20 0x20 (add_range 0x09 0x0D rc)))
      else if ch = c32 CHR ''w'' then
        Some (finalize_class
          (add_range (c32 CHR ''a'') (c32 CHR ''z'')
            (add_range (c32 CHR ''_'') (c32 CHR ''_'')
              (add_range (c32 CHR ''A'') (c32 CHR ''Z'')
                (add_range (c32 CHR ''0'') (c32 CHR ''9'') rc)))))
      else None)"

definition make_class_ref :: "rune_class \<Rightarrow> builder \<Rightarrow> builder \<times> rune" where
  "make_class_ref rc b =
     (let idx = length (rune_classes b) in
      if unat (RuneClassMax - RuneClassBase) < idx then
        (builder_set_error ErrorPatternTooLarge b, RuneClassBase)
      else (b\<lparr>rune_classes := rune_classes b @ [rc]\<rparr>, RuneClassBase + of_nat idx))"

text \<open>The loop of \<open>parse_hex_digits\<close>; \<open>None\<close> is the result \<open>false\<close>.\<close>

fun parse_hex_digits :: "bytes \<Rightarrow> nat \<Rightarrow> nat \<Rightarrow> rune \<Rightarrow> builder \<Rightarrow> builder \<times> nat \<times> rune option" where
  "parse_hex_digits pattern pos 0 out b = (b, pos, Some out)"
| "parse_hex_digits pattern pos (Suc count) out b =
     (if length pattern \<le> pos then (builder_set_error ErrorBadEscape b, pos, None)
      else case hex_value (pattern ! pos) of
        None \<Rightarrow> (builder_set_error ErrorBadEscape b, pos, None)
      | Some digit \<Rightarrow>
          parse_hex_digits pattern (pos + 1) count (push_bit 4 out OR of_nat digit) b)"

text \<open>A scan \<open>while (pos < pattern.size() && !stop(pattern[pos])) pos++\<close>.\<close>

definition scan_until :: "(byte \<Rightarrow> bool) \<Rightarrow> bytes \<Rightarrow> nat \<Rightarrow> nat" where
  "scan_until stop pattern pos = pos + length (takeWhile (\<lambda>c. \<not> stop c) (drop pos pattern))"

definition parse_unicode_category ::
  "categories \<Rightarrow> bytes \<Rightarrow> nat \<Rightarrow> bool \<Rightarrow> builder \<Rightarrow> builder \<times> nat \<times> rune" where
  "parse_unicode_category fc pattern pos negate b =
     (if length pattern \<le> pos \<or> pattern ! pos \<noteq> c8 CHR ''{'' then
        (builder_set_error ErrorBadCharClass b, pos, RuneClassBase)
      else
        (let name_start = pos + 1;
             pos = scan_until (\<lambda>c. c = c8 CHR ''}'') pattern name_start
         in if length pattern \<le> pos then
              (builder_set_error ErrorBadCharClass b, pos, RuneClassBase)
            else
              (let cat_name = take (pos - name_start) (drop name_start pattern);
                   pos = pos + 1
               in if cat_name = [] \<or> 3 < length cat_name then
                    (builder_set_error ErrorBadCharClass b, pos, RuneClassBase)
                  else case fc cat_name of
                    None \<Rightarrow> (builder_set_error ErrorBadCharClass b, pos, RuneClassBase)
                  | Some (rs, bm) \<Rightarrow>
                      (let rc = finalize_class \<lparr>ranges = rs, ascii_bitmap = bm\<rparr>;
                           rc = (if negate then complement rc else rc);
                           (b, ref) = make_class_ref rc b
                       in (b, pos, ref)))))"

definition posix_class_ranges :: "bytes \<Rightarrow> range list option" where
  "posix_class_ranges name =
     (if name = lit ''alpha'' then
        Some [(c32 CHR ''A'', c32 CHR ''Z''), (c32 CHR ''a'', c32 CHR ''z'')]
      else if name = lit ''digit'' then Some [(c32 CHR ''0'', c32 CHR ''9'')]
      else if name = lit ''alnum'' then
        Some [(c32 CHR ''0'', c32 CHR ''9''), (c32 CHR ''A'', c32 CHR ''Z''),
              (c32 CHR ''a'', c32 CHR ''z'')]
      else if name = lit ''blank'' then Some [(0x20, 0x20), (0x09, 0x09)]
      else if name = lit ''space'' then Some [(0x09, 0x0D), (0x20, 0x20)]
      else if name = lit ''xdigit'' then
        Some [(c32 CHR ''0'', c32 CHR ''9''), (c32 CHR ''A'', c32 CHR ''F''),
              (c32 CHR ''a'', c32 CHR ''f'')]
      else if name = lit ''upper'' then Some [(c32 CHR ''A'', c32 CHR ''Z'')]
      else if name = lit ''lower'' then Some [(c32 CHR ''a'', c32 CHR ''z'')]
      else if name = lit ''print'' then Some [(0x20, 0x7E)]
      else if name = lit ''graph'' then Some [(0x21, 0x7E)]
      else if name = lit ''cntrl'' then Some [(0x00, 0x1F), (0x7F, 0x7F)]
      else if name = lit ''punct'' then
        Some [(0x21, 0x2F), (0x3A, 0x40), (0x5B, 0x60), (0x7B, 0x7E)]
      else if name = lit ''ascii'' then Some [(0x00, 0x7F)]
      else None)"

definition parse_posix_class ::
  "bytes \<Rightarrow> nat \<Rightarrow> rune_class \<Rightarrow> builder \<Rightarrow> builder \<times> nat \<times> rune_class option" where
  "parse_posix_class pattern pos rc b =
     (let name_start = pos;
          pos = scan_until (\<lambda>c. c = c8 CHR '':'' \<or> c = c8 CHR '']'') pattern pos
      in if length pattern \<le> pos + 1 \<or> pattern ! pos \<noteq> c8 CHR '':'' \<or>
            pattern ! (pos + 1) \<noteq> c8 CHR '']'' then
           (builder_set_error ErrorBadCharClass b, pos, None)
         else
           (let name = take (pos - name_start) (drop name_start pattern);
                pos = pos + 2
            in case posix_class_ranges name of
                 None \<Rightarrow> (builder_set_error ErrorBadCharClass b, pos, None)
               | Some rs \<Rightarrow> (b, pos, Some (foldl (\<lambda>rc (lo, hi). add_range lo hi rc) rc rs))))"

subsection \<open>Bracket expressions\<close>

text \<open>
  A single escaped character inside brackets, after the escape rune was read: a hex
  escape, a class escape or, in extended mode, escaped punctuation.
\<close>

definition class_single_escape ::
  "rune \<Rightarrow> bytes \<Rightarrow> nat \<Rightarrow> builder \<Rightarrow> builder \<times> nat \<times> rune option" where
  "class_single_escape esc_rune pattern pos b =
     (if esc_rune = c32 CHR ''x'' then parse_hex_digits pattern pos 2 0 b
      else if is_class_escape esc_rune then (b, pos, Some (escape_to_rune esc_rune))
      else if allow_extended_identity_escape b esc_rune then (b, pos, Some esc_rune)
      else (builder_set_error ErrorBadEscape b, pos, None))"

text \<open>What the first part of an iteration yields: an error, a merged class (the source's
  \<open>continue\<close>), or a character that may start a range.\<close>

datatype class_item = ItemError | ItemMerged rune_class | ItemChar rune

definition class_escape_item ::
  "categories \<Rightarrow> bytes \<Rightarrow> nat \<Rightarrow> rune_class \<Rightarrow> builder \<Rightarrow> builder \<times> nat \<times> class_item" where
  "class_escape_item fc pattern pos rc b =
     (let pos = pos + 1 in
      if length pattern \<le> pos then
        (builder_set_error ErrorTrailingBackslash b, pos, ItemError)
      else
        (let (esc_rune, esc_consumed) = utf8_decode (drop pos pattern);
             pos = pos + length esc_consumed
         in if esc_rune = c32 CHR ''p'' \<or> esc_rune = c32 CHR ''P'' then
              (let neg = (esc_rune = c32 CHR ''P'');
                   (b, pos, ref) = parse_unicode_category fc pattern pos neg b
               in if \<not> builder_ok b then (b, pos, ItemError)
                  else (b, pos, ItemMerged (merge_class (rune_classes b ! class_ref_index ref) rc)))
            else
              (let lower = esc_rune OR 0x20 in
               case shorthand_class lower empty_class of
                 Some shorthand \<Rightarrow>
                   (if \<not> allow_shorthand_escapes b then
                      (builder_set_error ErrorBadEscape b, pos, ItemError)
                    else
                      (let shorthand = (if esc_rune \<noteq> lower then complement shorthand else shorthand)
                       in (b, pos, ItemMerged (merge_class shorthand rc))))
               | None \<Rightarrow>
                   (case class_single_escape esc_rune pattern pos b of
                      (b, pos, None) \<Rightarrow> (b, pos, ItemError)
                    | (b, pos, Some ch) \<Rightarrow> (b, pos, ItemChar ch)))))"

definition class_first ::
  "categories \<Rightarrow> bytes \<Rightarrow> nat \<Rightarrow> rune_class \<Rightarrow> builder \<Rightarrow> builder \<times> nat \<times> class_item" where
  "class_first fc pattern pos rc b =
     (if pos + 1 < length pattern \<and> pattern ! pos = c8 CHR ''['' \<and> pattern ! (pos + 1) = c8 CHR '':'' then
        (if \<not> allow_posix_char_classes b then (builder_set_error ErrorBadCharClass b, pos, ItemError)
         else case parse_posix_class pattern (pos + 2) rc b of
           (b, pos, None) \<Rightarrow> (b, pos, ItemError)
         | (b, pos, Some rc) \<Rightarrow> (b, pos, ItemMerged rc))
      else if pattern ! pos = c8 CHR 0x5C then class_escape_item fc pattern pos rc b
      else (let (r, consumed) = utf8_decode (drop pos pattern)
            in (b, pos + length consumed, ItemChar r)))"

text \<open>The upper end of a range \<open>ch-hi\<close>, after the dash.\<close>

definition class_range_hi :: "bytes \<Rightarrow> nat \<Rightarrow> builder \<Rightarrow> builder \<times> nat \<times> rune option" where
  "class_range_hi pattern pos b =
     (if pattern ! pos = c8 CHR 0x5C then
        (let pos = pos + 1 in
         if length pattern \<le> pos then (builder_set_error ErrorBadEscape b, pos, None)
         else
           (let (esc_rune, esc_consumed) = utf8_decode (drop pos pattern);
                pos = pos + length esc_consumed
            in class_single_escape esc_rune pattern pos b))
      else
        (let (r, consumed) = utf8_decode (drop pos pattern)
         in (b, pos + length consumed, Some r)))"

definition class_range ::
  "rune \<Rightarrow> bytes \<Rightarrow> nat \<Rightarrow> rune_class \<Rightarrow> builder \<Rightarrow> builder \<times> nat \<times> rune_class option" where
  "class_range ch pattern pos rc b =
     (if pos + 1 < length pattern \<and> pattern ! pos = c8 CHR ''-'' \<and> pattern ! (pos + 1) \<noteq> c8 CHR '']'' then
        (case class_range_hi pattern (pos + 1) b of
           (b, pos, None) \<Rightarrow> (b, pos, None)
         | (b, pos, Some hi) \<Rightarrow>
             (if hi < ch then (builder_set_error ErrorBadCharRange b, pos, None)
              else (b, pos, Some (add_range ch hi rc))))
      else (b, pos, Some (add_range ch ch rc)))"

text \<open>One iteration of the loop of \<open>parse_char_class\<close>.\<close>

definition class_step ::
  "categories \<Rightarrow> bytes \<Rightarrow> nat \<Rightarrow> rune_class \<Rightarrow> builder \<Rightarrow> builder \<times> nat \<times> rune_class option" where
  "class_step fc pattern pos rc b =
     (case class_first fc pattern pos rc b of
        (b, pos, ItemError) \<Rightarrow> (b, pos, None)
      | (b, pos, ItemMerged rc) \<Rightarrow> (b, pos, Some rc)
      | (b, pos, ItemChar ch) \<Rightarrow> class_range ch pattern pos rc b)"

subsubsection \<open>The loop moves forward\<close>

lemma decode_progress [simp]: "pos < length pattern \<Longrightarrow> utf8_decode (drop pos pattern) = (r, c) \<Longrightarrow> 0 < length c"
  using utf8_decode_progress [of "drop pos pattern"] by simp

lemma parse_hex_digits_forward:
  "parse_hex_digits pattern pos count out b = (b', pos', res) \<Longrightarrow> pos \<le> pos'"
  by (induction pattern pos count out b rule: parse_hex_digits.induct)
    (auto split: if_splits option.splits)

lemma scan_until_forward: "pos \<le> scan_until stop pattern pos"
  by (simp add: scan_until_def)

lemma parse_unicode_category_forward:
  "parse_unicode_category fc pattern pos negate b = (b', pos', ref) \<Longrightarrow> pos \<le> pos'"
  using scan_until_forward [of "pos + 1" "\<lambda>c. c = c8 CHR ''}''" pattern]
  by (auto simp: parse_unicode_category_def Let_def split: if_splits option.splits prod.splits)

lemma parse_posix_class_forward:
  "parse_posix_class pattern pos rc b = (b', pos', res) \<Longrightarrow> pos \<le> pos'"
  using scan_until_forward [of "pos" "\<lambda>c. c = c8 CHR '':'' \<or> c = c8 CHR '']''" pattern]
  by (auto simp: parse_posix_class_def Let_def split: if_splits option.splits)

lemma class_single_escape_forward:
  "class_single_escape e pattern pos b = (b', pos', res) \<Longrightarrow> pos \<le> pos'"
  by (auto simp: class_single_escape_def dest: parse_hex_digits_forward split: if_splits)

lemma class_escape_item_forward:
  "class_escape_item fc pattern pos rc b = (b', pos', res) \<Longrightarrow> pos < pos'"
  by (auto simp: class_escape_item_def Let_def
      dest!: parse_unicode_category_forward class_single_escape_forward
      split: if_splits option.splits prod.splits)

lemma class_first_forward:
  "pos < length pattern \<Longrightarrow> class_first fc pattern pos rc b = (b', pos', res) \<Longrightarrow> res \<noteq> ItemError \<Longrightarrow> pos < pos'"
  by (auto simp: class_first_def Let_def
      dest!: parse_posix_class_forward class_escape_item_forward dest: decode_progress
      split: if_splits option.splits prod.splits)

lemma class_range_hi_forward:
  "class_range_hi pattern pos b = (b', pos', res) \<Longrightarrow> pos \<le> pos'"
  by (auto simp: class_range_hi_def Let_def dest!: class_single_escape_forward
      split: if_splits prod.splits)

lemma class_range_forward:
  "class_range ch pattern pos rc b = (b', pos', res) \<Longrightarrow> pos \<le> pos'"
  by (auto simp: class_range_def Let_def dest!: class_range_hi_forward
      split: if_splits option.splits prod.splits)

lemma class_step_forward:
  "pos < length pattern \<Longrightarrow> class_step fc pattern pos rc b = (b', pos', Some rc') \<Longrightarrow> pos < pos'"
  by (auto simp: class_step_def dest!: class_first_forward class_range_forward
      split: class_item.splits prod.splits)

function class_loop ::
  "categories \<Rightarrow> bytes \<Rightarrow> nat \<Rightarrow> rune_class \<Rightarrow> builder \<Rightarrow> builder \<times> nat \<times> rune_class option" where
  "class_loop fc pattern pos rc b =
     (if pos < length pattern \<and> pattern ! pos \<noteq> c8 CHR '']'' then
        (case class_step fc pattern pos rc b of
           (b, pos, None) \<Rightarrow> (b, pos, None)
         | (b, pos, Some rc) \<Rightarrow> class_loop fc pattern pos rc b)
      else (b, pos, Some rc))"
  by pat_completeness auto
termination
  by (relation "measure (\<lambda>(fc, pattern, pos, rc, b). length pattern - pos)")
    (auto dest: class_step_forward [OF _ sym] intro: diff_less_mono2)

declare class_loop.simps [simp del]

definition parse_char_class ::
  "categories \<Rightarrow> bytes \<Rightarrow> nat \<Rightarrow> builder \<Rightarrow> builder \<times> nat \<times> rune" where
  "parse_char_class fc pattern pos b =
     (let negated = (pos < length pattern \<and> pattern ! pos = c8 CHR ''^'');
          pos = (if negated then pos + 1 else pos)
      in if length pattern \<le> pos \<or> pattern ! pos = c8 CHR '']'' then
           (builder_set_error ErrorMissingBracket b, pos, RuneClassBase)
         else case class_loop fc pattern pos empty_class b of
           (b, pos, None) \<Rightarrow> (b, pos, RuneClassBase)
         | (b, pos, Some rc) \<Rightarrow>
             (if length pattern \<le> pos then
                (builder_set_error ErrorMissingBracket b, pos, RuneClassBase)
              else
                (let pos = pos + 1;
                     rc = finalize_class rc;
                     rc = (if negated then complement rc else rc);
                     (b, ref) = make_class_ref rc b
                 in (b, pos, ref))))"

subsection \<open>Predicates and emission helpers\<close>

definition can_emit_standalone_closer :: "builder \<Rightarrow> bool" where
  "can_emit_standalone_closer b \<longleftrightarrow> \<not> need_concat b \<and> allow_standalone_closer_literals b"

definition is_literal_brace_after_escape :: "bytes \<Rightarrow> nat \<Rightarrow> builder \<Rightarrow> bool" where
  "is_literal_brace_after_escape pattern pos b \<longleftrightarrow>
     need_concat b \<and> allow_standalone_closer_literals b \<and> \<not> is_ascii_digit_at pattern pos \<and>
     atom_start b < length (postfix b) \<and> length (postfix b) = atom_start b + 1 \<and>
     postfix b ! atom_start b = Backslash"

definition has_pending_concat_to_undo :: "builder \<Rightarrow> bool" where
  "has_pending_concat_to_undo b \<longleftrightarrow>
     need_concat_before_atom b \<and> operator_stack b \<noteq> [] \<and> hd (operator_stack b) = Catenation"

definition lacks_quantifiable_atom :: "builder \<Rightarrow> bool" where
  "lacks_quantifiable_atom b \<longleftrightarrow> \<not> need_concat b \<or> atom_is_quantified b"

definition has_unmatched_close_paren :: "builder \<Rightarrow> bool" where
  "has_unmatched_close_paren b \<longleftrightarrow> operator_stack b = [] \<or> group_start_stack b = []"

definition is_noncapturing_group_prefix :: "bytes \<Rightarrow> nat \<Rightarrow> bool" where
  "is_noncapturing_group_prefix pattern pos \<longleftrightarrow>
     pos + 1 < length pattern \<and> pattern ! pos = c8 CHR ''?'' \<and> pattern ! (pos + 1) = c8 CHR '':''"

definition begin_atom :: "builder \<Rightarrow> builder" where
  "begin_atom b =
     b\<lparr>atom_start := length (postfix b), need_concat_before_atom := need_concat b,
       atom_is_quantified := False\<rparr>"

definition push_postfix :: "rune \<Rightarrow> builder \<Rightarrow> builder" where
  "push_postfix label b = b\<lparr>postfix := postfix b @ [label]\<rparr>"

text \<open>The popping loops move the operators above the first one that stops them.\<close>

definition push_concat :: "builder \<Rightarrow> builder" where
  "push_concat b =
     b\<lparr>postfix := postfix b @ takeWhile (\<lambda>op. op = Catenation) (operator_stack b),
       operator_stack := Catenation # dropWhile (\<lambda>op. op = Catenation) (operator_stack b)\<rparr>"

definition push_alternation :: "builder \<Rightarrow> builder" where
  "push_alternation b =
     b\<lparr>postfix := postfix b @ takeWhile (\<lambda>op. op \<noteq> LParen) (operator_stack b),
       operator_stack := Alternation # dropWhile (\<lambda>op. op \<noteq> LParen) (operator_stack b)\<rparr>"

definition emit_atom :: "rune \<Rightarrow> builder \<Rightarrow> builder" where
  "emit_atom label b =
     (let b = (if need_concat b then push_concat b else b)
      in (push_postfix label (begin_atom b))\<lparr>need_concat := True\<rparr>)"

definition parse_quantifier_suffix :: "rune \<Rightarrow> rune \<Rightarrow> bytes \<Rightarrow> nat \<Rightarrow> builder \<Rightarrow> builder \<times> nat" where
  "parse_quantifier_suffix greedy_op lazy_op pattern pos b =
     (let lazy = (pos < length pattern \<and> pattern ! pos = c8 CHR ''?'') in
      if lazy \<and> \<not> allow_lazy_quantifiers b then (builder_set_error ErrorStrictSyntax b, pos)
      else
        (let pos = (if lazy then pos + 1 else pos)
         in ((push_postfix (if lazy then lazy_op else greedy_op) b)\<lparr>atom_is_quantified := True\<rparr>, pos)))"

subsection \<open>Handlers\<close>

definition escape_literal :: "rune \<Rightarrow> builder \<Rightarrow> rune option" where
  "escape_literal rune_value b =
     (if rune_value = c32 CHR ''n'' then Some 0x0A
      else if rune_value = c32 CHR ''r'' then Some 0x0D
      else if rune_value = c32 CHR ''t'' then Some 0x09
      else if rune_value \<in> set single_char_escapes then Some rune_value
      else if allow_extended_identity_escape b rune_value then Some rune_value
      else None)"

definition on_escape :: "categories \<Rightarrow> rune \<Rightarrow> bytes \<Rightarrow> nat \<Rightarrow> builder \<Rightarrow> builder \<times> nat \<times> bool" where
  "on_escape fc rune_value pattern pos b =
     (let b = b\<lparr>escaped := False\<rparr> in
      if rune_value = c32 CHR ''p'' \<or> rune_value = c32 CHR ''P'' then
        (let negate = (rune_value = c32 CHR ''P'');
             (b, pos, ref) = parse_unicode_category fc pattern pos negate b
         in if \<not> builder_ok b then (b, pos, False) else (emit_atom ref b, pos, True))
      else
        (let lower = rune_value OR 0x20 in
         case shorthand_class lower empty_class of
           Some rc \<Rightarrow>
             (if \<not> allow_shorthand_escapes b then (builder_set_error ErrorBadEscape b, pos, False)
              else
                (let rc = (if rune_value \<noteq> lower then complement rc else rc);
                     (b, ref) = make_class_ref rc b
                 in (emit_atom ref b, pos, True)))
         | None \<Rightarrow>
             (if rune_value = c32 CHR ''x'' then
                (case parse_hex_digits pattern pos 2 0 b of
                   (b, pos, None) \<Rightarrow> (b, pos, False)
                 | (b, pos, Some hex_val) \<Rightarrow> (emit_atom hex_val b, pos, True))
              else if rune_value = c32 CHR ''b'' then
                (if \<not> allow_word_boundary_escape b then (builder_set_error ErrorBadEscape b, pos, False)
                 else (emit_atom WordBoundary b, pos, True))
              else
                (case escape_literal rune_value b of
                   None \<Rightarrow> (builder_set_error ErrorBadEscape b, pos, False)
                 | Some literal \<Rightarrow> (emit_atom literal b, pos, True)))))"

definition on_backslash :: "builder \<Rightarrow> builder" where
  "on_backslash b = b\<lparr>escaped := True\<rparr>"

definition on_dot :: "builder \<Rightarrow> builder" where
  "on_dot b = (let (b, ref) = make_class_ref dot b in emit_atom ref b)"

definition on_char_class :: "categories \<Rightarrow> bytes \<Rightarrow> nat \<Rightarrow> builder \<Rightarrow> builder \<times> nat \<times> bool" where
  "on_char_class fc pattern pos b =
     (let (b, pos, ref) = parse_char_class fc pattern pos b
      in if \<not> builder_ok b then (b, pos, False) else (emit_atom ref b, pos, True))"

definition on_start_anchor :: "builder \<Rightarrow> builder" where
  "on_start_anchor b = emit_atom StartAnchor b"

definition on_end_anchor :: "builder \<Rightarrow> builder" where
  "on_end_anchor b = emit_atom EndAnchor b"

definition emit_standalone :: "rune \<Rightarrow> builder \<Rightarrow> builder" where
  "emit_standalone label b = (push_postfix label (begin_atom b))\<lparr>need_concat := True\<rparr>"

definition on_close_bracket :: "builder \<Rightarrow> builder \<times> bool" where
  "on_close_bracket b =
     (if can_emit_standalone_closer b then (emit_standalone (c32 CHR '']'') b, True)
      else (builder_set_error ErrorStrictSyntax b, False))"

text \<open>\<open>while (is_ascii_digit_at(pattern, pos)) n = n * 10 + (pattern[pos] - '0')\<close> on \<open>size_t\<close>.\<close>

function parse_number :: "bytes \<Rightarrow> nat \<Rightarrow> u64 \<Rightarrow> u64 \<times> nat" where
  "parse_number pattern pos n =
     (if is_ascii_digit_at pattern pos then
        parse_number pattern (pos + 1) (n * 10 + ucast (pattern ! pos - c8 CHR ''0''))
      else (n, pos))"
  by pat_completeness auto
termination
  by (relation "measure (\<lambda>(pattern, pos, n). length pattern - pos)")
    (auto simp: is_ascii_digit_at_def)

declare parse_number.simps [simp del]

text \<open>The bounds of a range quantifier: minimum, maximum, whether it is unbounded, and the
  position after the digits.\<close>

definition parse_bounds :: "bytes \<Rightarrow> nat \<Rightarrow> u64 \<times> u64 \<times> bool \<times> nat" where
  "parse_bounds pattern pos =
     (let (n, pos) = parse_number pattern pos 0 in
      if pos < length pattern \<and> pattern ! pos = c8 CHR '','' then
        (let pos = pos + 1 in
         if is_ascii_digit_at pattern pos then
           (let (m, pos) = parse_number pattern pos 0 in (n, m, False, pos))
         else (n, 0, True, pos))
      else (n, n, False, pos))"

definition mandatory_copies :: "nat \<Rightarrow> rune list \<Rightarrow> rune list" where
  "mandatory_copies n atom = concat (map (\<lambda>i. atom @ (if 0 < i then [Catenation] else [])) [0..<n])"

definition optional_copies :: "nat \<Rightarrow> nat \<Rightarrow> rune list \<Rightarrow> rune list" where
  "optional_copies n k atom =
     concat (map (\<lambda>i. atom @ [ZeroOrOne] @ (if 0 < n \<or> 0 < i then [Catenation] else [])) [0..<k])"

definition expand_range :: "nat \<Rightarrow> nat \<Rightarrow> bool \<Rightarrow> rune list \<Rightarrow> rune list" where
  "expand_range n m unbounded atom =
     mandatory_copies n atom @
     (if unbounded then atom @ [ZeroOrMore] @ (if 0 < n then [Catenation] else [])
      else if n < m then optional_copies n (m - n) atom
      else [])"

definition apply_range :: "nat \<Rightarrow> nat \<Rightarrow> bool \<Rightarrow> builder \<Rightarrow> builder \<times> bool" where
  "apply_range n m unbounded b =
     (let atom = drop (atom_start b) (postfix b);
          b = b\<lparr>postfix := take (atom_start b) (postfix b)\<rparr>;
          copies = (if unbounded then n + 1 else m);
          expansion = copies * (length atom + 2)
      in if MaxPostfixSize < atom_start b + expansion then
           (builder_set_error ErrorPatternTooLarge b, False)
         else if n = 0 \<and> \<not> unbounded \<and> m = 0 then
           (let b = (if has_pending_concat_to_undo b then b\<lparr>operator_stack := tl (operator_stack b)\<rparr> else b)
            in (b\<lparr>need_concat := need_concat_before_atom b, atom_is_quantified := True\<rparr>, True))
         else
           (let b = b\<lparr>postfix := postfix b @ expand_range n m unbounded atom\<rparr>
            in if MaxPostfixSize < length (postfix b) then
                 (builder_set_error ErrorPatternTooLarge b, False)
               else (b\<lparr>need_concat := True, atom_is_quantified := True\<rparr>, True)))"

definition on_range_quantifier :: "bytes \<Rightarrow> nat \<Rightarrow> builder \<Rightarrow> builder \<times> nat \<times> bool" where
  "on_range_quantifier pattern pos b =
     (if atom_is_quantified b then (builder_set_error ErrorRepeatOp b, pos, False)
      else if \<not> is_ascii_digit_at pattern pos then (builder_set_error ErrorRepeatOp b, pos, False)
      else
        (let (n, m, unbounded, pos) = parse_bounds pattern pos in
         if length pattern \<le> pos \<or> pattern ! pos \<noteq> c8 CHR ''}'' then
           (builder_set_error ErrorRepeatOp b, pos, False)
         else
           (let pos = pos + 1 in
            if of_nat MaxRepetition < n \<or> of_nat MaxRepetition < m then
              (builder_set_error ErrorRepeatSize b, pos, False)
            else if \<not> unbounded \<and> m < n then (builder_set_error ErrorRepeatSize b, pos, False)
            else (let (b, okay) = apply_range (unat n) (unat m) unbounded b in (b, pos, okay)))))"

definition on_open_brace :: "bytes \<Rightarrow> nat \<Rightarrow> builder \<Rightarrow> builder \<times> nat \<times> bool" where
  "on_open_brace pattern pos b =
     (if can_emit_standalone_closer b then (emit_standalone (c32 CHR ''{'') b, pos, True)
      else if is_literal_brace_after_escape pattern pos b then
        (emit_standalone (c32 CHR ''{'') (push_concat b), pos, True)
      else on_range_quantifier pattern pos b)"

definition on_close_brace :: "builder \<Rightarrow> builder \<times> bool" where
  "on_close_brace b =
     (if can_emit_standalone_closer b then (emit_standalone (c32 CHR ''}'') b, True)
      else (builder_set_error ErrorStrictSyntax b, False))"

definition on_open_group :: "bytes \<Rightarrow> nat \<Rightarrow> builder \<Rightarrow> builder \<times> nat \<times> bool" where
  "on_open_group pattern pos b =
     (let noncap = is_noncapturing_group_prefix pattern pos; capt = \<not> noncap in
      if noncap \<and> \<not> allow_noncapturing_groups b then
        (builder_set_error ErrorStrictGroup b, pos, False)
      else
        (let pos = (if noncap then pos + 2 else pos) in
         if capt \<and> \<not> allow_capturing_groups b then
           (builder_set_error ErrorStrictGroup b, pos, False)
         else
           (let b = (if need_concat b then push_concat b else b);
                cap_id = (if capt then num_captures b else 0);
                b = (if capt then b\<lparr>num_captures := num_captures b + 1\<rparr> else b)
            in if capt \<and> MaxCaptures < num_captures b then
                 (builder_set_error ErrorTooManyCaptures b, pos, False)
               else if MaxGroupNesting \<le> length (group_start_stack b) then
                 (builder_set_error ErrorNestingTooDeep b, pos, False)
               else
                 (b\<lparr>group_start_stack :=
                      \<lparr>postfix_index = length (postfix b), gi_need_concat = need_concat b,
                       capturing = capt, capture_id = cap_id\<rparr> # group_start_stack b,
                    operator_stack := LParen # operator_stack b,
                    need_concat := False\<rparr>, pos, True))))"

definition on_close_group :: "builder \<Rightarrow> builder \<times> bool" where
  "on_close_group b =
     (let b = b\<lparr>postfix := postfix b @ takeWhile (\<lambda>op. op \<noteq> LParen) (operator_stack b),
                operator_stack := dropWhile (\<lambda>op. op \<noteq> LParen) (operator_stack b)\<rparr>
      in if has_unmatched_close_paren b then (builder_set_error ErrorUnexpectedParen b, False)
         else
           (let b = b\<lparr>operator_stack := tl (operator_stack b)\<rparr>;
                gi = hd (group_start_stack b);
                b = (if capturing gi then push_postfix (CaptureGroup + of_nat (capture_id gi)) b else b)
            in (b\<lparr>atom_start := postfix_index gi, need_concat_before_atom := gi_need_concat gi,
                  group_start_stack := tl (group_start_stack b), atom_is_quantified := False,
                  need_concat := True\<rparr>, True)))"

definition on_pipe :: "builder \<Rightarrow> builder" where
  "on_pipe b = (push_alternation b)\<lparr>need_concat := False\<rparr>"

definition on_quantifier :: "rune \<Rightarrow> rune \<Rightarrow> bytes \<Rightarrow> nat \<Rightarrow> builder \<Rightarrow> builder \<times> nat \<times> bool" where
  "on_quantifier greedy_op lazy_op pattern pos b =
     (if lacks_quantifiable_atom b then (builder_set_error ErrorRepeatOp b, pos, False)
      else (let (b, pos) = parse_quantifier_suffix greedy_op lazy_op pattern pos b
            in (b, pos, builder_ok b)))"

definition on_star :: "bytes \<Rightarrow> nat \<Rightarrow> builder \<Rightarrow> builder \<times> nat \<times> bool" where
  "on_star = on_quantifier ZeroOrMore LazyZeroOrMore"

definition on_question :: "bytes \<Rightarrow> nat \<Rightarrow> builder \<Rightarrow> builder \<times> nat \<times> bool" where
  "on_question = on_quantifier ZeroOrOne LazyZeroOrOne"

definition on_plus :: "bytes \<Rightarrow> nat \<Rightarrow> builder \<Rightarrow> builder \<times> nat \<times> bool" where
  "on_plus = on_quantifier OneOrMore LazyOneOrMore"

definition on_literal :: "rune \<Rightarrow> builder \<Rightarrow> builder" where
  "on_literal rune_value b = emit_atom rune_value b"

definition finalize_builder :: "builder \<Rightarrow> builder \<times> bool" where
  "finalize_builder b =
     (let ops = takeWhile (\<lambda>op. op \<noteq> LParen) (operator_stack b);
          rest = dropWhile (\<lambda>op. op \<noteq> LParen) (operator_stack b);
          b = b\<lparr>postfix := postfix b @ ops, operator_stack := rest\<rparr>
      in if rest \<noteq> [] then (builder_set_error ErrorMissingParen b, False)
         else if escaped b then (builder_set_error ErrorTrailingBackslash b, False)
         else if MaxPostfixSize < length (postfix b) then
           (builder_set_error ErrorPatternTooLarge b, False)
         else (b, True))"

subsection \<open>The main loop\<close>

text \<open>One iteration of \<open>regexp_to_postfix_runes\<close>, after the rune at the position was read.\<close>

definition dispatch :: "categories \<Rightarrow> rune \<Rightarrow> bytes \<Rightarrow> nat \<Rightarrow> builder \<Rightarrow> builder \<times> nat \<times> bool" where
  "dispatch fc rune pattern pos b =
     (if escaped b then on_escape fc rune pattern pos b
      else if rune = Backslash then (on_backslash b, pos, True)
      else if rune = c32 CHR ''.'' then (on_dot b, pos, True)
      else if rune = c32 CHR ''['' then on_char_class fc pattern pos b
      else if rune = c32 CHR ''^'' then (on_start_anchor b, pos, True)
      else if rune = c32 CHR ''$'' then (on_end_anchor b, pos, True)
      else if rune = c32 CHR '']'' then (let (b, okay) = on_close_bracket b in (b, pos, okay))
      else if rune = c32 CHR ''{'' then on_open_brace pattern pos b
      else if rune = c32 CHR ''}'' then (let (b, okay) = on_close_brace b in (b, pos, okay))
      else if rune = LParen then on_open_group pattern pos b
      else if rune = RParen then (let (b, okay) = on_close_group b in (b, pos, okay))
      else if rune = Pipe then (on_pipe b, pos, True)
      else if rune = Asterisk then on_star pattern pos b
      else if rune = Question then on_question pattern pos b
      else if rune = PlusSign then on_plus pattern pos b
      else (on_literal rune b, pos, True))"

lemma class_first_forward_le:
  "class_first fc pattern pos rc b = (b', pos', res) \<Longrightarrow> pos \<le> pos'"
  by (auto simp: class_first_def Let_def
      dest!: parse_posix_class_forward class_escape_item_forward
      split: if_splits option.splits prod.splits)

lemma class_step_forward_le:
  "class_step fc pattern pos rc b = (b', pos', res) \<Longrightarrow> pos \<le> pos'"
  by (auto simp: class_step_def dest!: class_first_forward_le class_range_forward
      split: class_item.splits prod.splits)

lemma class_loop_unfold:
  "class_loop fc pattern pos rc b =
     (if pos < length pattern \<and> pattern ! pos \<noteq> c8 CHR '']'' then
        (let (b1, p1, r1) = class_step fc pattern pos rc b in
         case r1 of None \<Rightarrow> (b1, p1, None) | Some rc1 \<Rightarrow> class_loop fc pattern p1 rc1 b1)
      else (b, pos, Some rc))"
  by (subst class_loop.simps) (auto split: prod.splits option.splits)

text \<open>Invariants of the loop: what every iteration keeps holds of the result.\<close>

lemma class_loop_invariant:
  assumes step: "\<And>pos rc b b' pos' res. pos < length pattern \<Longrightarrow>
      class_step fc pattern pos rc b = (b', pos', res) \<Longrightarrow> P pos rc b \<Longrightarrow>
      Q pos' res b' \<and> (\<forall>rc'. res = Some rc' \<longrightarrow> P pos' rc' b')"
    and stop: "\<And>pos rc b. P pos rc b \<Longrightarrow> Q pos (Some rc) b"
    and "P pos rc b" and "class_loop fc pattern pos rc b = (b', pos', res)"
  shows "Q pos' res b'"
  using assms(3,4)
proof (induction "length pattern - pos" arbitrary: pos rc b rule: less_induct)
  case less
  obtain b1 p1 r1 where s: "class_step fc pattern pos rc b = (b1, p1, r1)" by (metis prod_cases3)
  show ?case
  proof (cases "pos < length pattern \<and> pattern ! pos \<noteq> c8 CHR '']''")
    case True
    with step [OF _ s less(2)] have st: "Q p1 r1 b1" "\<forall>rc'. r1 = Some rc' \<longrightarrow> P p1 rc' b1" by auto
    show ?thesis
    proof (cases r1)
      case None
      with less(3) st True s show ?thesis by (simp add: class_loop_unfold [of fc pattern pos])
    next
      case (Some rc1)
      then have "pos < p1" using s True by (auto dest: class_step_forward)
      with True have "length pattern - p1 < length pattern - pos" by (simp add: diff_less_mono2)
      with less(1) [of p1 rc1 b1] less(3) st Some True s show ?thesis
        by (simp add: class_loop_unfold [of fc pattern pos])
    qed
  next
    case False
    with less stop show ?thesis by (auto simp: class_loop_unfold [of fc pattern pos])
  qed
qed

lemma class_loop_forward: "class_loop fc pattern pos rc b = (b', pos', res) \<Longrightarrow> pos \<le> pos'"
  by (rule class_loop_invariant [where P = "\<lambda>p _ _. pos \<le> p" and Q = "\<lambda>p _ _. pos \<le> p"])
    (auto dest: class_step_forward_le)

lemma parse_char_class_forward:
  "parse_char_class fc pattern pos b = (b', pos', ref) \<Longrightarrow> pos \<le> pos'"
  by (auto simp: parse_char_class_def Let_def dest!: class_loop_forward
      split: if_splits option.splits prod.splits)

lemma parse_number_forward: "parse_number pattern pos n = (n', pos') \<Longrightarrow> pos \<le> pos'"
proof (induction pattern pos n rule: parse_number.induct)
  case (1 pattern pos n)
  then show ?case
    by (cases "is_ascii_digit_at pattern pos") (force simp: parse_number.simps [of pattern pos n])+
qed

lemma parse_bounds_forward: "parse_bounds pattern pos = (n, m, u, pos') \<Longrightarrow> pos \<le> pos'"
  by (auto simp: parse_bounds_def Let_def dest!: parse_number_forward split: if_splits prod.splits)

lemma on_range_quantifier_forward:
  "on_range_quantifier pattern pos b = (b', pos', okay) \<Longrightarrow> pos \<le> pos'"
  by (auto simp: on_range_quantifier_def Let_def dest!: parse_bounds_forward
      split: if_splits prod.splits)

lemma on_escape_forward:
  "on_escape fc r pattern pos b = (b', pos', okay) \<Longrightarrow> pos \<le> pos'"
  by (auto simp: on_escape_def Let_def dest!: parse_unicode_category_forward parse_hex_digits_forward
      split: if_splits option.splits prod.splits)

lemma on_quantifier_forward:
  "on_quantifier g l pattern pos b = (b', pos', okay) \<Longrightarrow> pos \<le> pos'"
  by (auto simp: on_quantifier_def parse_quantifier_suffix_def Let_def split: if_splits prod.splits)

lemma dispatch_forward:
  "dispatch fc r pattern pos b = (b', pos', okay) \<Longrightarrow> pos \<le> pos'"
  unfolding dispatch_def on_star_def on_question_def on_plus_def on_open_brace_def on_open_group_def
    on_char_class_def Let_def
  by (auto dest!: on_escape_forward on_quantifier_forward on_range_quantifier_forward
      parse_char_class_forward split: if_splits prod.splits)

function parse_loop :: "categories \<Rightarrow> bytes \<Rightarrow> nat \<Rightarrow> builder \<Rightarrow> builder \<times> bool" where
  "parse_loop fc pattern pos b =
     (if pos < length pattern then
        (let (rune, consumed) = utf8_decode (drop pos pattern);
             (b, pos, okay) = dispatch fc rune pattern (pos + length consumed) b
         in if okay then parse_loop fc pattern pos b else (b, False))
      else (b, True))"
  by pat_completeness auto
termination
proof (relation "measure (\<lambda>(fc, pattern, pos, b). length pattern - pos)")
  fix fc pattern pos b x r c y b' z pos' okay
  assume p: "pos < length pattern" and d: "x = utf8_decode (drop pos pattern)" "(r, c) = x"
    and "y = dispatch fc r pattern (pos + length c) b" "(b', z) = y" "(pos', okay) = z" "okay"
  then have "pos + length c \<le> pos'" by (metis dispatch_forward)
  moreover have "0 < length c" using decode_progress [OF p] d by metis
  ultimately have "pos < pos'" by linarith
  then show "((fc, pattern, pos', b'), fc, pattern, pos, b)
      \<in> measure (\<lambda>(fc, pattern, pos, b). length pattern - pos)" using p by (simp add: diff_less_mono2)
qed simp

declare parse_loop.simps [simp del]

text \<open>\<open>regexp_to_postfix_runes\<close>: the final builder and whether it may be adopted.\<close>

definition regexp_to_postfix_runes :: "categories \<Rightarrow> SyntaxMode \<Rightarrow> bytes \<Rightarrow> builder \<times> bool" where
  "regexp_to_postfix_runes fc mode pattern =
     (let (b, okay) = parse_loop fc pattern 0 (init_builder mode)
      in if okay then finalize_builder b else (b, False))"

subsection \<open>The builder's invariant\<close>

definition operator_tokens :: "rune list" where
  "operator_tokens = [Catenation, Alternation, ZeroOrOne, ZeroOrMore, OneOrMore,
     LazyZeroOrOne, LazyZeroOrMore, LazyOneOrMore]"

text \<open>Labels of states that test the input: literal runes, references to one of \<open>k\<close> classes,
  and the three conditions.\<close>

definition atom_label :: "nat \<Rightarrow> rune \<Rightarrow> bool" where
  "atom_label k t \<longleftrightarrow> t < 0x200000 \<or> is_class_ref t \<and> class_ref_index t < k \<or>
     t = WordBoundary \<or> t = StartAnchor \<or> t = EndAnchor"

definition capture_token :: "nat \<Rightarrow> rune \<Rightarrow> bool" where
  "capture_token n t \<longleftrightarrow> (\<exists>i < n. t = CaptureGroup + of_nat i)"

definition token_ok :: "nat \<Rightarrow> nat \<Rightarrow> rune \<Rightarrow> bool" where
  "token_ok k n t \<longleftrightarrow> atom_label k t \<or> t \<in> set operator_tokens \<or> capture_token n t"

definition tokens_ok :: "builder \<Rightarrow> bool" where
  "tokens_ok b \<longleftrightarrow> (\<forall>t \<in> set (postfix b). token_ok (length (rune_classes b)) (num_captures b) t) \<and>
     set (operator_stack b) \<subseteq> {Catenation, Alternation, LParen}"

definition classes_ok :: "builder \<Rightarrow> bool" where
  "classes_ok b \<longleftrightarrow> length (rune_classes b) \<le> 0x10000 \<and> (\<forall>rc \<in> set (rune_classes b). class_ok rc)"

definition groups_ok :: "builder \<Rightarrow> bool" where
  "groups_ok b \<longleftrightarrow>
     sorted (rev (map postfix_index (group_start_stack b))) \<and>
     (\<forall>g \<in> set (group_start_stack b). postfix_index g \<le> length (postfix b) \<and>
        (capturing g \<longrightarrow> capture_id g < num_captures b)) \<and>
     num_captures b \<le> MaxCaptures \<and> length (group_start_stack b) \<le> MaxGroupNesting \<and>
     (syntax_mode b = IregexpStrict \<longrightarrow> group_start_stack b = [] \<and> num_captures b = 0)"

definition atom_ok :: "builder \<Rightarrow> bool" where
  "atom_ok b \<longleftrightarrow> atom_start b \<le> length (postfix b) \<and>
     (need_concat b \<and> group_start_stack b \<noteq> [] \<longrightarrow>
        postfix_index (hd (group_start_stack b)) \<le> atom_start b)"

definition builder_inv :: "builder \<Rightarrow> bool" where
  "builder_inv b \<longleftrightarrow> tokens_ok b \<and> classes_ok b \<and> groups_ok b \<and> atom_ok b"

lemmas inv_defs = builder_inv_def tokens_ok_def classes_ok_def groups_ok_def atom_ok_def

definition categories_ok :: "categories \<Rightarrow> bool" where
  "categories_ok fc \<longleftrightarrow> (\<forall>name rs bm. fc name = Some (rs, bm) \<longrightarrow> (\<forall>rg \<in> set rs. range_ok rg))"

lemma token_ok_mono: "token_ok k n t \<Longrightarrow> k \<le> k' \<Longrightarrow> n \<le> n' \<Longrightarrow> token_ok k' n' t"
  by (force simp: token_ok_def atom_label_def capture_token_def)

lemma operator_token_ok:
  "t \<in> {Catenation, Alternation, ZeroOrOne, ZeroOrMore, OneOrMore,
     LazyZeroOrOne, LazyZeroOrMore, LazyOneOrMore} \<Longrightarrow> token_ok k n t"
  by (auto simp: token_ok_def operator_tokens_def)

lemma builder_inv_init: "builder_inv (init_builder mode)"
  by (simp add: inv_defs init_builder_def)

lemma builder_inv_set_error [simp]: "builder_inv (builder_set_error code b) = builder_inv b"
  by (simp add: inv_defs builder_set_error_def)

lemma builder_inv_irrelevant [simp]:
  "builder_inv (b\<lparr>escaped := e\<rparr>) = builder_inv b"
  "builder_inv (b\<lparr>atom_is_quantified := q\<rparr>) = builder_inv b"
  "builder_inv (b\<lparr>need_concat_before_atom := q\<rparr>) = builder_inv b"
  "builder_inv (b\<lparr>error_code := c\<rparr>) = builder_inv b"
  "builder_inv b \<Longrightarrow> builder_inv (b\<lparr>need_concat := False\<rparr>)"
  by (simp_all add: inv_defs)

lemma set_takeWhile_ops:
  "set ops \<subseteq> {Catenation, Alternation, LParen} \<Longrightarrow> t \<in> set (takeWhile (\<lambda>op. op \<noteq> LParen) ops) \<Longrightarrow>
   t \<in> {Catenation, Alternation}"
  by (auto dest: set_takeWhileD)

lemma builder_inv_pop:
  assumes "builder_inv b" and ops: "operator_stack b = pre @ rest" and "set pre \<subseteq> {Catenation, Alternation}"
  shows "builder_inv (b\<lparr>postfix := postfix b @ pre, operator_stack := rest\<rparr>)"
  using assms by (auto simp: inv_defs ops intro: operator_token_ok)

lemma builder_inv_push_op:
  "builder_inv b \<Longrightarrow> op \<in> {Catenation, Alternation, LParen} \<Longrightarrow>
   builder_inv (b\<lparr>operator_stack := op # operator_stack b\<rparr>)"
  by (auto simp: inv_defs)

lemma builder_inv_push_concat: "builder_inv b \<Longrightarrow> builder_inv (push_concat b)"
  unfolding push_concat_def
  using builder_inv_push_op [OF builder_inv_pop [of b "takeWhile (\<lambda>op. op = Catenation) (operator_stack b)"
      "dropWhile (\<lambda>op. op = Catenation) (operator_stack b)"], of Catenation]
  by (auto dest!: set_takeWhileD)

lemma builder_inv_drain:
  assumes "builder_inv b"
  shows "builder_inv (b\<lparr>postfix := postfix b @ takeWhile (\<lambda>op. op \<noteq> LParen) (operator_stack b),
                        operator_stack := dropWhile (\<lambda>op. op \<noteq> LParen) (operator_stack b)\<rparr>)"
proof (rule builder_inv_pop [OF assms])
  show "set (takeWhile (\<lambda>op. op \<noteq> LParen) (operator_stack b)) \<subseteq> {Catenation, Alternation}"
    using assms set_takeWhile_ops [of "operator_stack b"] by (auto simp: inv_defs)
qed simp

lemma builder_inv_push_alternation: "builder_inv b \<Longrightarrow> builder_inv (push_alternation b)"
  unfolding push_alternation_def
  using builder_inv_push_op [OF builder_inv_drain [of b], of Alternation] by simp

lemma builder_inv_push_postfix:
  "builder_inv b \<Longrightarrow> token_ok (length (rune_classes b)) (num_captures b) t \<Longrightarrow> builder_inv (push_postfix t b)"
  by (auto simp: inv_defs push_postfix_def)

lemma builder_inv_begin_atom:
  "builder_inv b \<Longrightarrow> builder_inv ((push_postfix t (begin_atom b))\<lparr>need_concat := True\<rparr>) =
     token_ok (length (rune_classes b)) (num_captures b) t"
  by (auto simp: inv_defs begin_atom_def push_postfix_def list.set_sel)

lemma push_concat_fields [simp]:
  "rune_classes (push_concat b) = rune_classes b" "num_captures (push_concat b) = num_captures b"
  "syntax_mode (push_concat b) = syntax_mode b" "error_code (push_concat b) = error_code b"
  "group_start_stack (push_concat b) = group_start_stack b" "need_concat (push_concat b) = need_concat b"
  by (simp_all add: push_concat_def)

lemma builder_inv_emit_atom:
  "builder_inv b \<Longrightarrow> token_ok (length (rune_classes b)) (num_captures b) t \<Longrightarrow> builder_inv (emit_atom t b)"
  by (simp add: emit_atom_def builder_inv_begin_atom builder_inv_push_concat)

lemma builder_inv_emit_standalone:
  "builder_inv b \<Longrightarrow> token_ok (length (rune_classes b)) (num_captures b) t \<Longrightarrow> builder_inv (emit_standalone t b)"
  by (simp add: emit_standalone_def builder_inv_begin_atom)

lemma small_token_ok: "t < 0x200000 \<Longrightarrow> token_ok k n t"
  by (simp add: token_ok_def atom_label_def)

lemma make_class_ref_inv:
  assumes "builder_inv b" "class_ok rc" "make_class_ref rc b = (b', ref)"
  shows "builder_inv b' \<and> is_class_ref ref \<and> class_ref_index ref < length (rune_classes b') \<and>
         (error_code b = NoError \<longrightarrow> error_code b' = NoError \<longrightarrow> rune_classes b' ! class_ref_index ref = rc)"
proof (cases "0xFFFF < length (rune_classes b)")
  case True
  with assms(3) have "b' = builder_set_error ErrorPatternTooLarge b" "ref = RuneClassBase"
    by (auto simp: make_class_ref_def)
  with assms True show ?thesis
    by (auto simp: is_class_ref_def class_ref_index_def builder_set_error_def split: if_splits)
next
  case False
  let ?i = "length (rune_classes b)"
  have e: "b' = b\<lparr>rune_classes := rune_classes b @ [rc]\<rparr>" "ref = RuneClassBase + of_nat ?i"
    using assms(3) False by (auto simp: make_class_ref_def)
  have u: "unat (of_nat ?i :: rune) = ?i" using False by (simp add: unat_of_nat take_bit_nat_eq_self)
  then have "unat ref = 0xBF0000 + ?i" using False by (simp add: e unat_word_ariths)
  then have "is_class_ref ref" using False by (simp add: is_class_ref_def word_le_nat_alt)
  moreover have "class_ref_index ref = ?i" by (simp add: class_ref_index_def e u)
  moreover have "builder_inv b'" using assms(1,2) False
    by (auto simp: inv_defs e intro: token_ok_mono)
  ultimately show ?thesis by (simp add: e)
qed

subsubsection \<open>Bracket expressions\<close>

definition class_ranges_ok :: "rune_class \<Rightarrow> bool" where
  "class_ranges_ok rc \<longleftrightarrow> (\<forall>rg \<in> set (ranges rc). range_ok rg)"

lemma class_ranges_ok_simps [simp]:
  "class_ranges_ok empty_class"
  "class_ranges_ok (add_range lo hi rc) \<longleftrightarrow> class_ranges_ok rc \<and> range_ok (lo, hi)"
  "class_ranges_ok (merge_class other rc) \<longleftrightarrow> class_ranges_ok rc \<and> class_ranges_ok other"
  by (auto simp: class_ranges_ok_def empty_class_def add_range_def merge_class_def)

lemma class_ok_ranges: "class_ok rc \<Longrightarrow> class_ranges_ok rc"
  by (simp add: class_ok_def class_ranges_ok_def)

lemma class_ok_finalize: "class_ranges_ok rc \<Longrightarrow> class_ok (finalize_class rc)"
  using finalize_class_ok [of rc] by (simp add: class_ranges_ok_def)

lemma class_ok_complement_if: "class_ok rc \<Longrightarrow> class_ok (if c then complement rc else rc)"
  by (simp add: complement_class)

lemma proper_range_ok: "lo \<le> hi \<Longrightarrow> hi < 0x200000 \<Longrightarrow> range_ok (lo, hi)"
  by (simp add: range_ok_def)

lemma shorthand_class_ok: "shorthand_class ch empty_class = Some rc \<Longrightarrow> class_ok rc"
  by (auto simp: shorthand_class_def range_ok_def intro!: class_ok_finalize split: if_splits)

lemma posix_ranges_ok: "posix_class_ranges name = Some rs \<Longrightarrow> rg \<in> set rs \<Longrightarrow> range_ok rg"
  by (auto simp: posix_class_ranges_def range_ok_def split: if_splits)

lemma class_ranges_ok_foldl:
  "class_ranges_ok (foldl (\<lambda>rc (lo, hi). add_range lo hi rc) rc rs) \<longleftrightarrow>
   class_ranges_ok rc \<and> (\<forall>rg \<in> set rs. range_ok rg)"
  by (induction rs arbitrary: rc) auto

lemma hex_value_bound: "hex_value c = Some d \<Longrightarrow> d < 16"
  by (auto simp: hex_value_def word_le_nat_alt unat_sub split: if_splits)

lemma two_hex_digits_bound:
  assumes "d < 16" "e < 16"
  shows "(push_bit 4 (of_nat d) OR of_nat e :: rune) < 0x200000"
proof -
  let ?v = "push_bit 4 (of_nat d) OR of_nat e :: rune"
  have small: "take_bit 4 (of_nat x :: rune) = of_nat x" if "x < 16" for x
    using that by (simp add: take_bit_of_nat take_bit_nat_eq_self)
  have "take_bit 8 (push_bit 4 (take_bit 4 x) OR take_bit 4 y :: rune) =
      push_bit 4 (take_bit 4 x) OR take_bit 4 y" for x y
    by (rule rune_eqI, simp only: bit_cases, elim disjE) (simp_all add: bit_simps)
  from this [of "of_nat d" "of_nat e"] have "take_bit 8 ?v = ?v" by (simp only: small assms)
  then have "unat ?v = take_bit 8 (unat ?v)" by (metis unsigned_take_bit_eq)
  then have "unat ?v < 2 ^ 8" by (metis take_bit_nat_less_exp)
  then show ?thesis by (simp add: word_less_nat_alt)
qed

lemma parse_hex_digits_bound:
  "parse_hex_digits pattern pos 2 0 b = (b', pos', Some v) \<Longrightarrow> v < 0x200000"
  by (auto simp: numeral_2_eq_2 dest!: hex_value_bound intro: two_hex_digits_bound
      split: if_splits option.splits)

lemma parse_hex_digits_builder:
  "parse_hex_digits pattern pos count out b = (b', pos', res) \<Longrightarrow>
   b' = (if res = None then builder_set_error ErrorBadEscape b else b)"
  by (induction pattern pos count out b rule: parse_hex_digits.induct)
    (auto split: if_splits option.splits)

lemma decoded_bound: "utf8_decode s = (r, c) \<Longrightarrow> r < 0x200000"
  using utf8_decode_bound [of s] by simp

lemma escape_bounds:
  "is_class_escape ch \<Longrightarrow> escape_to_rune ch < 0x200000"
  "is_ascii_punctuation ch \<Longrightarrow> ch < 0x200000"
  by (auto simp: is_class_escape_def escape_to_rune_def single_char_escapes_def)
    (auto simp: is_ascii_punctuation_def word_less_nat_alt split: if_splits)

lemma class_single_escape_props:
  "class_single_escape e pattern pos b = (b', pos', res) \<Longrightarrow>
   b' = (if res = None then builder_set_error ErrorBadEscape b else b) \<and> (\<forall>v. res = Some v \<longrightarrow> v < 0x200000)"
  using parse_hex_digits_bound [of pattern pos b b' pos'] parse_hex_digits_builder [of pattern pos 2 0 b b' pos' res]
  by (auto simp: class_single_escape_def mode_defs escape_bounds split: if_splits)

lemma class_range_hi_props:
  "class_range_hi pattern pos b = (b', pos', res) \<Longrightarrow>
   b' = (if res = None then builder_set_error ErrorBadEscape b else b) \<and> (\<forall>v. res = Some v \<longrightarrow> v < 0x200000)"
  by (auto simp: class_range_hi_def Let_def dest!: class_single_escape_props dest: decoded_bound
      split: if_splits prod.splits)

text \<open>A parsing step that leaves the builder as it is, or stops with an error.\<close>

definition step_builder :: "builder \<Rightarrow> builder \<Rightarrow> 'a option \<Rightarrow> bool" where
  "step_builder b b' res \<longleftrightarrow>
     (builder_inv b \<longrightarrow> builder_inv b') \<and> (res = None \<longrightarrow> error_code b' \<noteq> NoError)"

lemma set_error_not_ok [simp]: "c \<noteq> NoError \<Longrightarrow> error_code (builder_set_error c b) \<noteq> NoError"
  by (simp add: builder_set_error_def)

lemma class_range_props:
  assumes "class_range ch pattern pos rc b = (b', pos', res)" "class_ranges_ok rc" "ch < 0x200000"
  shows "step_builder b b' res \<and> (\<forall>rc'. res = Some rc' \<longrightarrow> class_ranges_ok rc')"
  using assms
  by (auto simp: class_range_def step_builder_def not_less dest!: class_range_hi_props intro: proper_range_ok
      split: if_splits option.splits prod.splits)

lemma parse_unicode_category_props:
  assumes "parse_unicode_category fc pattern pos negate b = (b', pos', ref)"
    and "categories_ok fc" "builder_inv b"
  shows "builder_inv b' \<and>
    (error_code b' = NoError \<longrightarrow> is_class_ref ref \<and> class_ref_index ref < length (rune_classes b'))"
proof -
  have fin: "class_ok (if negate then complement (finalize_class \<lparr>ranges = rs, ascii_bitmap = bm\<rparr>)
      else finalize_class \<lparr>ranges = rs, ascii_bitmap = bm\<rparr>)"
    if "fc name = Some (rs, bm)" for name rs bm
    using assms(2) [unfolded categories_ok_def, rule_format, OF that]
    by (intro class_ok_complement_if class_ok_finalize) (simp add: class_ranges_ok_def)
  show ?thesis
    using assms(1,3)
    by (auto simp: parse_unicode_category_def Let_def dest!: make_class_ref_inv [rotated 2]
        dest: fin split: if_splits option.splits prod.splits)
qed

lemma parse_posix_class_props:
  assumes "parse_posix_class pattern pos rc b = (b', pos', res)" "class_ranges_ok rc"
  shows "step_builder b b' res \<and> (\<forall>rc'. res = Some rc' \<longrightarrow> class_ranges_ok rc')"
  using assms
  by (auto simp: parse_posix_class_def step_builder_def Let_def class_ranges_ok_foldl dest: posix_ranges_ok
      split: if_splits option.splits)

definition item_ok :: "class_item \<Rightarrow> bool" where
  "item_ok it \<longleftrightarrow> (\<forall>rc. it = ItemMerged rc \<longrightarrow> class_ranges_ok rc) \<and> (\<forall>ch. it = ItemChar ch \<longrightarrow> ch < 0x200000)"

definition item_step :: "builder \<Rightarrow> builder \<Rightarrow> class_item \<Rightarrow> bool" where
  "item_step b b' it \<longleftrightarrow> builder_inv b' \<and> (it = ItemError \<longrightarrow> error_code b' \<noteq> NoError) \<and> item_ok it"

lemma class_escape_item_props:
  assumes "class_escape_item fc pattern pos rc b = (b', pos', it)"
    and "categories_ok fc" "builder_inv b" "class_ranges_ok rc"
  shows "item_step b b' it"
proof -
  obtain e c where d: "utf8_decode (drop (pos + 1) pattern) = (e, c)" by fastforce
  let ?p = "pos + 1 + length c"
  show ?thesis
  proof (cases "pos + 1 < length pattern \<and> (e = c32 CHR ''p'' \<or> e = c32 CHR ''P'')")
    case True
    obtain b1 p1 ref where u: "parse_unicode_category fc pattern ?p (e = c32 CHR ''P'') b = (b1, p1, ref)"
      by (metis prod_cases3)
    from parse_unicode_category_props [OF u assms(2,3)]
    have p: "builder_inv b1" "error_code b1 = NoError \<Longrightarrow> class_ref_index ref < length (rune_classes b1)"
      by auto
    then have "error_code b1 = NoError \<Longrightarrow> class_ranges_ok (rune_classes b1 ! class_ref_index ref)"
      by (auto simp: inv_defs intro!: class_ok_ranges)
    with assms(1,4) d u p True show ?thesis
      by (auto simp: class_escape_item_def item_step_def item_ok_def builder_ok_def split: if_splits)
  next
    case False
    with assms(1,3,4) d show ?thesis
      by (auto simp: class_escape_item_def item_step_def item_ok_def Let_def
          dest!: class_single_escape_props shorthand_class_ok
          intro: class_ok_ranges [OF complement_class(1)] class_ok_ranges
          split: if_splits option.splits prod.splits)
  qed
qed

lemma class_first_props:
  assumes "class_first fc pattern pos rc b = (b', pos', it)"
    and "categories_ok fc" "builder_inv b" "class_ranges_ok rc"
  shows "item_step b b' it"
  using assms
  by (auto simp: class_first_def Let_def item_step_def item_ok_def step_builder_def
      dest!: parse_posix_class_props class_escape_item_props dest: decoded_bound
      split: if_splits option.splits prod.splits)

lemma class_step_props:
  assumes "class_step fc pattern pos rc b = (b', pos', res)"
    and "categories_ok fc" "builder_inv b" "class_ranges_ok rc"
  shows "builder_inv b' \<and> (res = None \<longrightarrow> error_code b' \<noteq> NoError) \<and> (\<forall>rc'. res = Some rc' \<longrightarrow> class_ranges_ok rc')"
proof -
  obtain b1 p1 it where f: "class_first fc pattern pos rc b = (b1, p1, it)" by (metis prod_cases3)
  note i = class_first_props [OF f assms(2-4)]
  show ?thesis
  proof (cases it)
    case (ItemChar ch)
    with assms(1) f have "class_range ch pattern p1 rc b1 = (b', pos', res)" by (simp add: class_step_def)
    from class_range_props [OF this assms(4)] i ItemChar show ?thesis
      by (auto simp: item_step_def item_ok_def step_builder_def)
  qed (use assms(1) f i in \<open>auto simp: class_step_def item_step_def item_ok_def\<close>)
qed

lemma class_loop_props:
  assumes "class_loop fc pattern pos rc b = (b', pos', res)"
    and "categories_ok fc" "builder_inv b" "class_ranges_ok rc"
  shows "builder_inv b' \<and> (res = None \<longrightarrow> error_code b' \<noteq> NoError) \<and> (\<forall>rc'. res = Some rc' \<longrightarrow> class_ranges_ok rc')"
proof (rule class_loop_invariant [where P = "\<lambda>_ rc b. builder_inv b \<and> class_ranges_ok rc"
      and Q = "\<lambda>_ res b. builder_inv b \<and> (res = None \<longrightarrow> error_code b \<noteq> NoError) \<and>
        (\<forall>rc'. res = Some rc' \<longrightarrow> class_ranges_ok rc')", OF _ _ _ assms(1)])
  fix pos rc b b' pos' res
  assume "class_step fc pattern pos rc b = (b', pos', res)" "builder_inv b \<and> class_ranges_ok rc"
  with class_step_props [OF _ assms(2)]
  show "(builder_inv b' \<and> (res = None \<longrightarrow> error_code b' \<noteq> NoError) \<and>
      (\<forall>rc'. res = Some rc' \<longrightarrow> class_ranges_ok rc')) \<and>
      (\<forall>rc'. res = Some rc' \<longrightarrow> builder_inv b' \<and> class_ranges_ok rc')" by blast
qed (use assms in auto)

lemma parse_char_class_props:
  assumes "parse_char_class fc pattern pos b = (b', pos', ref)" and "categories_ok fc" "builder_inv b"
  shows "builder_inv b' \<and>
    (error_code b' = NoError \<longrightarrow> is_class_ref ref \<and> class_ref_index ref < length (rune_classes b'))"
  using assms(1,3)
  by (auto simp: parse_char_class_def Let_def
      dest!: class_loop_props [OF _ assms(2)] make_class_ref_inv [rotated 2]
      intro: complement_class(1) class_ok_finalize
      split: if_splits option.splits prod.splits)

subsubsection \<open>Handlers keep the invariant\<close>

lemma class_token_ok: "is_class_ref t \<Longrightarrow> class_ref_index t < k \<Longrightarrow> token_ok k n t"
  by (simp add: token_ok_def atom_label_def)

lemma condition_token_ok [simp]:
  "token_ok k n WordBoundary" "token_ok k n StartAnchor" "token_ok k n EndAnchor"
  by (simp_all add: token_ok_def atom_label_def)

lemma escape_literal_bound: "escape_literal r b = Some v \<Longrightarrow> v < 0x200000"
  by (auto simp: escape_literal_def mode_defs escape_bounds single_char_escapes_def split: if_splits)

lemma on_escape_inv:
  assumes "on_escape fc r pattern pos b = (b', pos', okay)" "categories_ok fc" "builder_inv b"
  shows "builder_inv b' \<and> (\<not> okay \<longrightarrow> error_code b' \<noteq> NoError)"
proof -
  let ?b = "b\<lparr>escaped := False\<rparr>"
  have inv: "builder_inv ?b" using assms(3) by simp
  consider (cat) "r = c32 CHR ''p'' \<or> r = c32 CHR ''P''"
    | (short) rc where "\<not> (r = c32 CHR ''p'' \<or> r = c32 CHR ''P'')" "shorthand_class (r OR 0x20) empty_class = Some rc"
    | (hex) "\<not> (r = c32 CHR ''p'' \<or> r = c32 CHR ''P'')" "shorthand_class (r OR 0x20) empty_class = None" "r = c32 CHR ''x''"
    | (other) "\<not> (r = c32 CHR ''p'' \<or> r = c32 CHR ''P'')" "shorthand_class (r OR 0x20) empty_class = None" "r \<noteq> c32 CHR ''x''"
    by fastforce
  then show ?thesis
  proof cases
    case cat
    obtain b1 p1 ref where u: "parse_unicode_category fc pattern pos (r = c32 CHR ''P'') ?b = (b1, p1, ref)"
      by (metis prod_cases3)
    from parse_unicode_category_props [OF u assms(2) inv] cat assms(1) u show ?thesis
      by (auto simp: on_escape_def Let_def builder_ok_def intro!: builder_inv_emit_atom class_token_ok
          split: if_splits)
  next
    case (short rc)
    let ?rc = "if r \<noteq> r OR 0x20 then complement rc else rc"
    obtain b1 ref where m: "make_class_ref ?rc ?b = (b1, ref)" by fastforce
    have "class_ok ?rc" by (rule class_ok_complement_if [OF shorthand_class_ok [OF short(2)]])
    from make_class_ref_inv [OF inv this m] short assms(1,3) m show ?thesis
      by (auto simp: on_escape_def Let_def intro!: builder_inv_emit_atom class_token_ok split: if_splits)
  next
    case hex
    obtain b1 p1 res where u: "parse_hex_digits pattern pos 2 0 ?b = (b1, p1, res)" by (metis prod_cases3)
    from parse_hex_digits_builder [OF u] parse_hex_digits_bound [of pattern pos ?b b1 p1] u hex assms(1,3) show ?thesis
      by (cases res) (auto simp: on_escape_def Let_def intro!: builder_inv_emit_atom small_token_ok)
  next
    case other
    with assms(1,3) inv show ?thesis
      by (auto simp: on_escape_def Let_def intro!: builder_inv_emit_atom
          dest!: escape_literal_bound intro: small_token_ok split: if_splits option.splits)
  qed
qed

lemma on_dot_inv: "builder_inv b \<Longrightarrow> builder_inv (on_dot b)"
  using make_class_ref_inv [of b dot] dot_class(1)
  by (auto simp: on_dot_def intro!: builder_inv_emit_atom class_token_ok split: prod.splits)

lemma on_char_class_inv:
  assumes "on_char_class fc pattern pos b = (b', pos', okay)" "categories_ok fc" "builder_inv b"
  shows "builder_inv b' \<and> (\<not> okay \<longrightarrow> error_code b' \<noteq> NoError)"
  using assms(1) parse_char_class_props [OF _ assms(2,3), of pattern pos]
  by (auto simp: on_char_class_def builder_ok_def intro!: builder_inv_emit_atom class_token_ok
      split: if_splits prod.splits)

lemma ascii_token_ok: "token_ok k n (c32 CHR '']'')" "token_ok k n (c32 CHR ''{'')" "token_ok k n (c32 CHR ''}'')"
  by (simp_all add: small_token_ok)

lemma on_closer_inv:
  "on_close_bracket b = (b', okay) \<Longrightarrow> builder_inv b \<Longrightarrow> builder_inv b' \<and> (\<not> okay \<longrightarrow> error_code b' \<noteq> NoError)"
  "on_close_brace b = (b', okay) \<Longrightarrow> builder_inv b \<Longrightarrow> builder_inv b' \<and> (\<not> okay \<longrightarrow> error_code b' \<noteq> NoError)"
  by (auto simp: on_close_bracket_def on_close_brace_def ascii_token_ok [simplified]
      intro!: builder_inv_emit_standalone split: if_splits)

lemma expand_range_tokens:
  "set (expand_range n m u atom) \<subseteq> set atom \<union> {ZeroOrOne, ZeroOrMore, Catenation}"
  by (auto simp: expand_range_def mandatory_copies_def optional_copies_def split: if_splits)

lemma builder_inv_truncate:
  assumes "builder_inv b" "need_concat b \<or> group_start_stack b = []"
  shows "builder_inv (b\<lparr>postfix := take (atom_start b) (postfix b)\<rparr>)"
proof -
  have "postfix_index g \<le> atom_start b" if g: "g \<in> set (group_start_stack b)" for g
  proof -
    obtain h t where gs: "group_start_stack b = h # t" using g by (cases "group_start_stack b") auto
    then have "postfix_index g \<le> postfix_index h"
      using g assms(1) by (auto simp: inv_defs sorted_append)
    also have "\<dots> \<le> atom_start b" using assms gs by (auto simp: inv_defs)
    finally show ?thesis .
  qed
  then show ?thesis using assms(1) by (auto simp: inv_defs dest: in_set_takeD)
qed

lemma builder_inv_extend:
  assumes "builder_inv b" "\<forall>x \<in> set xs. token_ok (length (rune_classes b)) (num_captures b) x"
    "set ops \<subseteq> set (operator_stack b)"
    "group_start_stack b \<noteq> [] \<Longrightarrow> postfix_index (hd (group_start_stack b)) \<le> atom_start b"
  shows "builder_inv (b\<lparr>postfix := postfix b @ xs, operator_stack := ops, need_concat := c,
      atom_is_quantified := q\<rparr>)"
  using assms by (auto simp: inv_defs)

lemma apply_range_inv:
  assumes "apply_range n m u b = (b', okay)" "builder_inv b" "need_concat b \<or> group_start_stack b = []"
  shows "builder_inv b' \<and> (\<not> okay \<longrightarrow> error_code b' \<noteq> NoError)"
proof -
  define atom where "atom = drop (atom_start b) (postfix b)"
  define t where "t = b\<lparr>postfix := take (atom_start b) (postfix b)\<rparr>"
  have t: "builder_inv t" unfolding t_def by (rule builder_inv_truncate [OF assms(2,3)])
  have hd_le: "group_start_stack t \<noteq> [] \<Longrightarrow> postfix_index (hd (group_start_stack t)) \<le> atom_start t"
    using assms(2,3) by (auto simp: inv_defs t_def)
  have "\<forall>x \<in> set atom. token_ok (length (rune_classes b)) (num_captures b) x"
    using assms(2) by (auto simp: inv_defs atom_def dest: in_set_dropD)
  then have toks: "\<forall>x \<in> set (expand_range n m u atom). token_ok (length (rune_classes t)) (num_captures t) x"
    using expand_range_tokens [of n m u atom] operator_token_ok by (auto simp: t_def)
  have tl_sub: "set (tl (operator_stack t)) \<subseteq> set (operator_stack t)" by (cases "operator_stack t") auto
  note ext = builder_inv_extend [OF t _ _ hd_le]
  have "b' = builder_set_error ErrorPatternTooLarge t \<and> \<not> okay \<or>
     b' = t\<lparr>postfix := postfix t @ [], operator_stack := tl (operator_stack t), need_concat := need_concat_before_atom t,
            atom_is_quantified := True\<rparr> \<and> okay \<or>
     b' = t\<lparr>postfix := postfix t @ [], operator_stack := operator_stack t, need_concat := need_concat_before_atom t,
            atom_is_quantified := True\<rparr> \<and> okay \<or>
     b' = builder_set_error ErrorPatternTooLarge (t\<lparr>postfix := postfix t @ expand_range n m u atom,
            operator_stack := operator_stack t, need_concat := need_concat t,
            atom_is_quantified := atom_is_quantified t\<rparr>) \<and> \<not> okay \<or>
     b' = t\<lparr>postfix := postfix t @ expand_range n m u atom, operator_stack := operator_stack t,
            need_concat := True, atom_is_quantified := True\<rparr> \<and> okay"
    using assms(1) unfolding apply_range_def Let_def atom_def [symmetric] t_def [symmetric]
    by (auto split: if_splits)
  moreover have "builder_inv (t\<lparr>postfix := postfix t @ expand_range n m u atom\<rparr>)"
    using t toks by (auto simp: inv_defs)
  ultimately show ?thesis
    using t ext [OF toks order.refl] ext [of "[]", OF _ tl_sub] ext [of "[]", OF _ order.refl]
    by (elim disjE) (simp_all del: append_Nil2)
qed

lemma on_range_quantifier_inv:
  assumes "on_range_quantifier pattern pos b = (b', pos', okay)" "builder_inv b"
    "need_concat b \<or> group_start_stack b = []"
  shows "builder_inv b' \<and> (\<not> okay \<longrightarrow> error_code b' \<noteq> NoError)"
  using assms by (auto simp: on_range_quantifier_def Let_def dest!: apply_range_inv split: if_splits prod.splits)

lemma on_open_brace_inv:
  assumes "on_open_brace pattern pos b = (b', pos', okay)" "builder_inv b"
  shows "builder_inv b' \<and> (\<not> okay \<longrightarrow> error_code b' \<noteq> NoError)"
proof -
  have "need_concat b \<or> group_start_stack b = []" if "\<not> can_emit_standalone_closer b"
    using that assms(2) by (cases "syntax_mode b") (auto simp: can_emit_standalone_closer_def mode_defs inv_defs)
  then show ?thesis
    using assms
    by (auto simp: on_open_brace_def ascii_token_ok [simplified] dest: on_range_quantifier_inv
        intro!: builder_inv_emit_standalone builder_inv_push_concat split: if_splits)
qed

lemma builder_inv_open:
  assumes "builder_inv c" "num_captures c \<le> n" "n \<le> MaxCaptures" "capt \<Longrightarrow> i < n"
    "length (group_start_stack c) < MaxGroupNesting" "syntax_mode c \<noteq> IregexpStrict"
  shows "builder_inv (c\<lparr>num_captures := n, group_start_stack :=
      \<lparr>postfix_index = length (postfix c), gi_need_concat = nc, capturing = capt, capture_id = i\<rparr>
        # group_start_stack c, operator_stack := LParen # operator_stack c, need_concat := False\<rparr>)"
  using assms by (auto simp: inv_defs sorted_append intro: token_ok_mono [OF _ order.refl])

lemma on_open_group_inv:
  assumes "on_open_group pattern pos b = (b', pos', okay)" "builder_inv b"
  shows "(okay \<longrightarrow> builder_inv b') \<and> (\<not> okay \<longrightarrow> error_code b' \<noteq> NoError)"
proof (cases "syntax_mode b")
  case IregexpStrict
  with assms show ?thesis
    by (auto simp: on_open_group_def Let_def mode_defs split: if_splits)
next
  case Extended
  define c where "c = (if need_concat b then push_concat b else b)"
  have c: "builder_inv c" "syntax_mode c = Extended"
    using assms(2) Extended by (simp_all add: c_def builder_inv_push_concat)
  define capt where "capt = (\<not> is_noncapturing_group_prefix pattern pos)"
  define n where "n = (if capt then num_captures c + 1 else num_captures c)"
  have "b' = builder_set_error ErrorTooManyCaptures (c\<lparr>num_captures := n\<rparr>) \<and> \<not> okay \<or>
        b' = builder_set_error ErrorNestingTooDeep (c\<lparr>num_captures := n\<rparr>) \<and> \<not> okay \<or>
        n \<le> MaxCaptures \<and> length (group_start_stack c) < MaxGroupNesting \<and>
        b' = c\<lparr>num_captures := n, group_start_stack :=
          \<lparr>postfix_index = length (postfix c), gi_need_concat = need_concat c, capturing = capt,
           capture_id = (if capt then num_captures c else 0)\<rparr> # group_start_stack c,
          operator_stack := LParen # operator_stack c, need_concat := False\<rparr> \<and> okay"
    using assms(1) Extended c(1)
    by (auto simp: on_open_group_def Let_def mode_defs n_def capt_def c_def [symmetric] inv_defs
        split: if_splits)
  moreover have "builder_inv (c\<lparr>num_captures := n, group_start_stack :=
          \<lparr>postfix_index = length (postfix c), gi_need_concat = need_concat c, capturing = capt,
           capture_id = (if capt then num_captures c else 0)\<rparr> # group_start_stack c,
          operator_stack := LParen # operator_stack c, need_concat := False\<rparr>)"
    if "n \<le> MaxCaptures" "length (group_start_stack c) < MaxGroupNesting"
    using c that by (intro builder_inv_open) (auto simp: n_def)
  ultimately show ?thesis by (auto simp: n_def)
qed

lemma on_close_group_inv:
  assumes "on_close_group b = (b', okay)" "builder_inv b"
  shows "builder_inv b' \<and> (\<not> okay \<longrightarrow> error_code b' \<noteq> NoError)"
proof -
  define d where "d = b\<lparr>postfix := postfix b @ takeWhile (\<lambda>op. op \<noteq> LParen) (operator_stack b),
                operator_stack := dropWhile (\<lambda>op. op \<noteq> LParen) (operator_stack b)\<rparr>"
  have d: "builder_inv d" unfolding d_def by (rule builder_inv_drain [OF assms(2)])
  show ?thesis
  proof (cases "has_unmatched_close_paren d")
    case True
    with assms(1) d show ?thesis
      unfolding on_close_group_def d_def [symmetric] Let_def by auto
  next
    case False
    then obtain gi rest op ops where g: "group_start_stack d = gi # rest" and o: "operator_stack d = op # ops"
      by (auto simp: has_unmatched_close_paren_def neq_Nil_conv)
    have cap: "token_ok (length (rune_classes d)) (num_captures d) (CaptureGroup + of_nat (capture_id gi))"
      if "capturing gi"
      using that d g by (auto simp: inv_defs token_ok_def capture_token_def)
    have le: "postfix_index x \<le> postfix_index gi" if "x \<in> set rest" for x
      using d g that by (auto simp: inv_defs sorted_append)
    from assms(1) False g o have "okay" and b': "b' = (if capturing gi
        then push_postfix (CaptureGroup + of_nat (capture_id gi)) (d\<lparr>operator_stack := ops\<rparr>)
        else d\<lparr>operator_stack := ops\<rparr>)\<lparr>atom_start := postfix_index gi, need_concat_before_atom := gi_need_concat gi,
                  group_start_stack := rest, atom_is_quantified := False, need_concat := True\<rparr>"
      unfolding on_close_group_def d_def [symmetric] Let_def by (auto simp: push_postfix_def)
    have "builder_inv b'"
      unfolding b' using d g o cap le
      by (auto simp: inv_defs push_postfix_def sorted_append neq_Nil_conv)
    with \<open>okay\<close> show ?thesis by simp
  qed
qed

lemma on_quantifier_inv:
  assumes "on_quantifier g l pattern pos b = (b', pos', okay)" "builder_inv b"
    "token_ok (length (rune_classes b)) (num_captures b) g"
    "token_ok (length (rune_classes b)) (num_captures b) l"
  shows "builder_inv b' \<and> (\<not> okay \<longrightarrow> error_code b' \<noteq> NoError)"
  using assms
  by (auto simp: on_quantifier_def parse_quantifier_suffix_def Let_def builder_ok_def builder_inv_push_postfix
      split: if_splits)

lemma dispatch_inv:
  assumes "dispatch fc r pattern pos b = (b', pos', okay)" "categories_ok fc" "builder_inv b" "r < 0x200000"
  shows "(okay \<longrightarrow> builder_inv b') \<and> (\<not> okay \<longrightarrow> error_code b' \<noteq> NoError)"
proof -
  have ops: "token_ok k n ZeroOrMore" "token_ok k n LazyZeroOrMore" "token_ok k n ZeroOrOne"
    "token_ok k n LazyZeroOrOne" "token_ok k n OneOrMore" "token_ok k n LazyOneOrMore" for k n
    by (simp_all add: operator_token_ok)
  have r: "builder_inv (on_literal r b)" "builder_inv (on_start_anchor b)" "builder_inv (on_end_anchor b)"
    "builder_inv (on_pipe b)" "builder_inv (on_backslash b)" "builder_inv (on_dot b)"
    using assms(3,4)
    by (auto simp: on_literal_def on_start_anchor_def on_end_anchor_def on_pipe_def on_backslash_def
        intro!: builder_inv_emit_atom builder_inv_push_alternation builder_inv_irrelevant on_dot_inv
        intro: small_token_ok)
  show ?thesis
    using assms(1) r on_escape_inv [OF _ assms(2,3), of r pattern pos b' pos' okay]
      on_char_class_inv [OF _ assms(2,3), of pattern pos b' pos' okay]
      on_closer_inv(1) [OF _ assms(3), of b' okay] on_closer_inv(2) [OF _ assms(3), of b' okay]
      on_open_brace_inv [OF _ assms(3), of pattern pos b' pos' okay]
      on_open_group_inv [OF _ assms(3), of pattern pos b' pos' okay]
      on_close_group_inv [OF _ assms(3), of b' okay]
      on_quantifier_inv [OF _ assms(3) ops(1,2), of pattern pos b' pos' okay]
      on_quantifier_inv [OF _ assms(3) ops(3,4), of pattern pos b' pos' okay]
      on_quantifier_inv [OF _ assms(3) ops(5,6), of pattern pos b' pos' okay]
    unfolding dispatch_def on_star_def on_question_def on_plus_def
    by (simp split: if_splits prod.splits)
qed

text \<open>Invariants of the main loop.\<close>

lemma parse_loop_invariant:
  assumes step: "\<And>r pos b b' pos' okay. dispatch fc r pattern pos b = (b', pos', okay) \<Longrightarrow>
      r < 0x200000 \<Longrightarrow> P b \<Longrightarrow> (okay \<longrightarrow> P b') \<and> (\<not> okay \<longrightarrow> Q b')"
    and "P b" and "parse_loop fc pattern pos b = (b', okay)"
  shows "(okay \<longrightarrow> P b') \<and> (\<not> okay \<longrightarrow> Q b')"
  using assms(2,3)
proof (induction "length pattern - pos" arbitrary: pos b rule: less_induct)
  case less
  show ?case
  proof (cases "pos < length pattern")
    case True
    obtain r c where d: "utf8_decode (drop pos pattern) = (r, c)" by fastforce
    obtain b1 p1 k where s: "dispatch fc r pattern (pos + length c) b = (b1, p1, k)" by (metis prod_cases3)
    have st: "(k \<longrightarrow> P b1) \<and> (\<not> k \<longrightarrow> Q b1)" by (rule step [OF s decoded_bound [OF d] less(2)])
    have "pos < p1" using dispatch_forward [OF s] decode_progress [OF True d] by linarith
    then have l: "length pattern - p1 < length pattern - pos" using True by (simp add: diff_less_mono2)
    show ?thesis
      using less(1) [OF l] less(3) st True d s
      by (cases k) (auto simp: parse_loop.simps [of fc pattern pos])
  next
    case False
    with less show ?thesis by (simp add: parse_loop.simps)
  qed
qed

lemma regexp_to_postfix_runes_inv:
  assumes "regexp_to_postfix_runes fc mode pattern = (b, okay)" "categories_ok fc"
  shows "(okay \<longrightarrow> builder_inv b \<and> operator_stack b = [] \<and> length (postfix b) \<le> MaxPostfixSize) \<and>
         (\<not> okay \<longrightarrow> error_code b \<noteq> NoError)"
proof -
  obtain b1 k where p: "parse_loop fc pattern 0 (init_builder mode) = (b1, k)" by fastforce
  have inv: "(k \<longrightarrow> builder_inv b1) \<and> (\<not> k \<longrightarrow> error_code b1 \<noteq> NoError)"
    by (rule parse_loop_invariant [where P = builder_inv and Q = "\<lambda>b. error_code b \<noteq> NoError", OF _ _ p])
      (auto intro: builder_inv_init dest: dispatch_inv [OF _ assms(2)])
  show ?thesis
    using assms(1) p inv builder_inv_drain [of b1]
    by (auto simp: regexp_to_postfix_runes_def finalize_builder_def Let_def split: if_splits)
qed

subsection \<open>Properties\<close>

text \<open>C11: what a successful parse hands to the automaton construction is well formed: at most
  100000 tokens, each a rune that fits 21 bits, a reference to an existing class, a condition,
  an operator or an existing group; at most 64 groups and 65536 classes, every class sorted with
  its bitmap; and no group at all in strict mode.\<close>

theorem parse_wellformed:
  assumes "categories_ok fc" "regexp_to_postfix_runes fc mode pattern = (b, True)"
  shows "length (postfix b) \<le> MaxPostfixSize \<and>
    (\<forall>t \<in> set (postfix b). token_ok (length (rune_classes b)) (num_captures b) t) \<and>
    num_captures b \<le> MaxCaptures \<and> length (rune_classes b) \<le> 0x10000 \<and>
    (\<forall>rc \<in> set (rune_classes b). class_ok rc) \<and>
    (syntax_mode b = IregexpStrict \<longrightarrow> num_captures b = 0)"
  using regexp_to_postfix_runes_inv [OF assms(2,1)] by (auto simp: inv_defs)

theorem parse_wellformed_witness:
  "\<exists>b. regexp_to_postfix_runes (\<lambda>name. None) Extended [0x61, 0x62] = (b, True) \<and>
    length (postfix b) \<le> MaxPostfixSize \<and> num_captures b \<le> MaxCaptures"
proof -
  have fc: "categories_ok (\<lambda>name. None)" by (simp add: categories_ok_def)
  have "snd (regexp_to_postfix_runes (\<lambda>name. None) Extended [0x61, 0x62])"
    by (simp add: regexp_to_postfix_runes_def init_builder_def parse_loop.simps utf8_decode_def dispatch_def
        on_literal_def emit_atom_def push_postfix_def begin_atom_def push_concat_def finalize_builder_def Let_def)
  then obtain b where b: "regexp_to_postfix_runes (\<lambda>name. None) Extended [0x61, 0x62] = (b, True)"
    by (metis prod.collapse)
  from parse_wellformed [OF fc b] b show ?thesis by blast
qed

text \<open>The limit on classes is not enforced: with 65536 classes, \<open>.\<close> records an error but
  emits the first class of the pattern in its place and the parse goes on.\<close>

theorem on_dot_class_limit:
  assumes "length (rune_classes b) = 0x10000" "error_code b = NoError"
  shows "error_code (on_dot b) = ErrorPatternTooLarge \<and> last (postfix (on_dot b)) = RuneClassBase \<and>
    dispatch fc (c32 CHR ''.'') pattern pos (b\<lparr>escaped := False\<rparr>) = (on_dot (b\<lparr>escaped := False\<rparr>), pos, True)"
  using assms
  by (simp add: on_dot_def make_class_ref_def builder_set_error_def emit_atom_def push_postfix_def begin_atom_def
      push_concat_def dispatch_def Let_def)

theorem on_dot_class_limit_witness:
  "error_code (on_dot (init_builder Extended\<lparr>rune_classes := replicate 0x10000 empty_class\<rparr>)) = ErrorPatternTooLarge"
  using on_dot_class_limit [of "init_builder Extended\<lparr>rune_classes := replicate 0x10000 empty_class\<rparr>"]
  by (simp add: init_builder_def)

end
