(* ===== verification/RegexNfa.thy ===== *)
theory RegexNfa
  imports RegexParser
begin

text \<open>
  Construction of the automaton in \<open>include/trieste/regex_engine.h\<close>: \<open>create_state\<close>,
  \<open>patch\<close>, \<open>build_quantifier\<close> and \<open>postfix_to_nfa\<close>. A \<open>State\<close> pointer is an index into
  \<open>owned_states_\<close> (\<open>None\<close> is \<open>nullptr\<close>); a \<open>State*\<close> in a fragment's \<open>dangling\<close> list is a
  state index with the member it points to. The fragment stack is kept with its \<open>back()\<close>
  first.

  The lemmas give a relational semantics of the regular expression a postfix stream
  denotes and show Thompson's construction correct for it: paths of the automaton from
  the start state to the accepting state are exactly the matches of the expression.
\<close>

subsection \<open>States and the engine\<close>

record state_def =
  st_label :: rune
  st_next :: "nat option"
  st_next_alt :: "nat option"
  closure_index :: nat
  ascii_accept :: bitmap
  trivial_closure :: bool

record FirstCharInfo =
  fc_bitmap :: bitmap
  can_match_empty :: bool
  can_match_nonascii :: bool

definition fc_minimal :: FirstCharInfo where
  "fc_minimal = \<lparr>fc_bitmap = (0, 0), can_match_empty = False, can_match_nonascii = False\<rparr>"

definition fc_maximal :: FirstCharInfo where
  "fc_maximal = \<lparr>fc_bitmap = (NOT 0, NOT 0), can_match_empty = True, can_match_nonascii = True\<rparr>"

definition fc_test :: "FirstCharInfo \<Rightarrow> byte \<Rightarrow> bool" where
  "fc_test info byte =
     (if \<not> is_ascii (ucast byte) then can_match_nonascii info
      else bitmap_test (fc_bitmap info) (ucast byte))"

record engine =
  start_state :: nat
  accept_state :: nat
  eng_error_code :: ErrorCode
  eng_error_arg :: bytes
  has_conditionals :: bool
  eng_num_captures :: nat
  state_count :: nat
  eng_syntax_mode :: SyntaxMode
  owned_states :: "state_def list"
  states_capacity :: nat
  eng_classes :: "rune_class list"
  closure_cache_flat :: "nat list"
  closure_cache_offsets :: "u32 list"
  first_char_info :: FirstCharInfo

definition engine_ok :: "engine \<Rightarrow> bool" where
  "engine_ok e \<longleftrightarrow> eng_error_code e = NoError"

definition set_error :: "ErrorCode \<Rightarrow> engine \<Rightarrow> engine" where
  "set_error code e = (if eng_error_code e = NoError then e\<lparr>eng_error_code := code\<rparr> else e)"

definition set_error_arg :: "ErrorCode \<Rightarrow> bytes \<Rightarrow> engine \<Rightarrow> engine" where
  "set_error_arg code arg e =
     (if eng_error_code e = NoError then e\<lparr>eng_error_code := code, eng_error_arg := take 100 arg\<rparr> else e)"

definition create_state ::
  "rune \<Rightarrow> nat option \<Rightarrow> nat option \<Rightarrow> engine \<Rightarrow> engine \<times> nat" where
  "create_state label nxt nxt_alt e =
     (if states_capacity e \<le> length (owned_states e) then
        (set_error ErrorInternalError e, accept_state e)
      else
        (let idx = length (owned_states e)
         in (e\<lparr>owned_states := owned_states e @
                [\<lparr>st_label = label, st_next = nxt, st_next_alt = nxt_alt, closure_index = idx,
                  ascii_accept = (0, 0), trivial_closure = False\<rparr>]\<rparr>, idx)))"

subsection \<open>Fragments\<close>

datatype slot = Next | NextAlt

record frag =
  frag_start :: nat
  dangling :: "(nat \<times> slot) list"

definition set_slot :: "nat option \<Rightarrow> state_def list \<Rightarrow> nat \<times> slot \<Rightarrow> state_def list" where
  "set_slot target ss entry =
     (case entry of
        (i, Next) \<Rightarrow> ss[i := (ss ! i)\<lparr>st_next := target\<rparr>]
      | (i, NextAlt) \<Rightarrow> ss[i := (ss ! i)\<lparr>st_next_alt := target\<rparr>])"

definition patch :: "(nat \<times> slot) list \<Rightarrow> nat \<Rightarrow> engine \<Rightarrow> engine" where
  "patch targets target e = e\<lparr>owned_states := foldl (set_slot (Some target)) (owned_states e) targets\<rparr>"

datatype QuantifierKind = QZeroOrOne | QZeroOrMore | QOneOrMore

definition build_quantifier ::
  "frag list \<Rightarrow> QuantifierKind \<Rightarrow> bool \<Rightarrow> engine \<Rightarrow> engine \<times> frag list" where
  "build_quantifier stack kind lazy e =
     (case stack of
        [] \<Rightarrow> (set_error ErrorRepeatOp e, stack)
      | operand # stack \<Rightarrow>
          (let (e, state) =
                 (if lazy then create_state Split None (Some (frag_start operand)) e
                  else create_state Split (Some (frag_start operand)) None e);
               unpatched_branch = (state, if lazy then Next else NextAlt)
           in case kind of
                QZeroOrOne \<Rightarrow>
                  (e, \<lparr>frag_start = state, dangling = dangling operand @ [unpatched_branch]\<rparr> # stack)
              | QZeroOrMore \<Rightarrow>
                  (patch (dangling operand) state e,
                   \<lparr>frag_start = state, dangling = [unpatched_branch]\<rparr> # stack)
              | QOneOrMore \<Rightarrow>
                  (patch (dangling operand) state e,
                   \<lparr>frag_start = frag_start operand, dangling = [unpatched_branch]\<rparr> # stack)))"

subsection \<open>postfix\_to\_nfa\<close>

text \<open>One iteration of the token loop; \<open>None\<close> is the early return of \<open>accept_state_\<close>.\<close>

definition quantifier_step ::
  "frag list \<Rightarrow> QuantifierKind \<Rightarrow> bool \<Rightarrow> engine \<Rightarrow> engine \<times> frag list option" where
  "quantifier_step stack kind lazy e =
     (let (e, stack) = build_quantifier stack kind lazy e
      in if \<not> engine_ok e then (e, None) else (e, Some stack))"

definition nfa_step :: "rune \<Rightarrow> frag list \<Rightarrow> engine \<Rightarrow> engine \<times> frag list option" where
  "nfa_step label stack e =
     (if label = Catenation then
        (case stack of
           right # left # stack \<Rightarrow>
             (patch (dangling left) (frag_start right) e,
              Some (\<lparr>frag_start = frag_start left, dangling = dangling right\<rparr> # stack))
         | _ \<Rightarrow> (set_error ErrorInternalError e, None))
      else if label = Alternation then
        (case stack of
           right # left # stack \<Rightarrow>
             (let (e, state) = create_state Split (Some (frag_start left)) (Some (frag_start right)) e
              in (e, Some (\<lparr>frag_start = state, dangling = dangling left @ dangling right\<rparr> # stack)))
         | _ \<Rightarrow> (set_error ErrorInternalError e, None))
      else if label = ZeroOrOne \<or> label = LazyZeroOrOne then
        quantifier_step stack QZeroOrOne (label = LazyZeroOrOne) e
      else if label = ZeroOrMore \<or> label = LazyZeroOrMore then
        quantifier_step stack QZeroOrMore (label = LazyZeroOrMore) e
      else if label = OneOrMore \<or> label = LazyOneOrMore then
        quantifier_step stack QOneOrMore (label = LazyOneOrMore) e
      else if CaptureGroup \<le> label \<and> label < CaptureGroup + of_nat MaxCaptures then
        (case stack of
           [] \<Rightarrow> (set_error ErrorInternalError e, None)
         | operand # stack \<Rightarrow>
             (let idx = label - CaptureGroup;
                  (e, close) = create_state (CaptureClose + idx) None None e;
                  e = patch (dangling operand) close e;
                  (e, open) = create_state (CaptureOpen + idx) (Some (frag_start operand)) None e
              in (e, Some (\<lparr>frag_start = open, dangling = [(close, Next)]\<rparr> # stack))))
      else
        (let (e, state) = create_state label None None e
         in (e, Some (\<lparr>frag_start = state, dangling = [(state, Next)]\<rparr> # stack))))"

fun nfa_loop :: "rune list \<Rightarrow> frag list \<Rightarrow> engine \<Rightarrow> engine \<times> nat" where
  "nfa_loop [] stack e =
     (case stack of
        [f] \<Rightarrow> (patch (dangling f) (accept_state e) e, frag_start f)
      | _ \<Rightarrow> (set_error ErrorInternalError e, accept_state e))"
| "nfa_loop (label # labels) stack e =
     (case nfa_step label stack e of
        (e, None) \<Rightarrow> (e, accept_state e)
      | (e, Some stack) \<Rightarrow> nfa_loop labels stack e)"

definition postfix_to_nfa :: "rune list \<Rightarrow> engine \<Rightarrow> engine \<times> nat" where
  "postfix_to_nfa tokens e =
     (if tokens = [] then (e, accept_state e)
      else if MaxStates < length tokens then (set_error ErrorPatternTooLarge e, accept_state e)
      else nfa_loop tokens [] e)"

subsection \<open>Semantics of token streams\<close>

text \<open>The expression a token stream denotes, by a stack machine over expressions.\<close>

datatype rexp =
    Atom rune
  | Cat rexp rexp
  | Alt rexp rexp
  | Opt bool rexp
  | Star bool rexp
  | Plus bool rexp
  | Cap rune rexp

definition ast_step :: "rune \<Rightarrow> rexp list \<Rightarrow> rexp list option" where
  "ast_step t stack =
     (if t = Catenation then (case stack of r # l # s \<Rightarrow> Some (Cat l r # s) | _ \<Rightarrow> None)
      else if t = Alternation then (case stack of r # l # s \<Rightarrow> Some (Alt l r # s) | _ \<Rightarrow> None)
      else if t = ZeroOrOne \<or> t = LazyZeroOrOne then
        (case stack of r # s \<Rightarrow> Some (Opt (t = LazyZeroOrOne) r # s) | _ \<Rightarrow> None)
      else if t = ZeroOrMore \<or> t = LazyZeroOrMore then
        (case stack of r # s \<Rightarrow> Some (Star (t = LazyZeroOrMore) r # s) | _ \<Rightarrow> None)
      else if t = OneOrMore \<or> t = LazyOneOrMore then
        (case stack of r # s \<Rightarrow> Some (Plus (t = LazyOneOrMore) r # s) | _ \<Rightarrow> None)
      else if CaptureGroup \<le> t \<and> t < CaptureGroup + of_nat MaxCaptures then
        (case stack of r # s \<Rightarrow> Some (Cap (t - CaptureGroup) r # s) | _ \<Rightarrow> None)
      else Some (Atom t # stack))"

fun ast_run :: "rune list \<Rightarrow> rexp list \<Rightarrow> rexp list option" where
  "ast_run [] stack = Some stack"
| "ast_run (t # ts) stack = (case ast_step t stack of None \<Rightarrow> None | Some stack \<Rightarrow> ast_run ts stack)"

definition postfix_ast :: "rune list \<Rightarrow> rexp option" where
  "postfix_ast ts = (case ast_run ts [] of Some [r] \<Rightarrow> Some r | _ \<Rightarrow> None)"

text \<open>
  Matching is a relation on positions of an input, over what one state accepts
  (\<open>acc label i\<close>: the rune at position \<open>i\<close> is accepted) and which conditions hold
  (\<open>cond label i\<close>).
\<close>

definition is_condition :: "rune \<Rightarrow> bool" where
  "is_condition t \<longleftrightarrow> t = WordBoundary \<or> t = StartAnchor \<or> t = EndAnchor"

fun rel :: "(rune \<Rightarrow> nat \<Rightarrow> bool) \<Rightarrow> (rune \<Rightarrow> nat \<Rightarrow> bool) \<Rightarrow> rexp \<Rightarrow> (nat \<times> nat) set" where
  "rel acc cond (Atom t) =
     (if is_condition t then {(i, i) | i. cond t i} else {(i, Suc i) | i. acc t i})"
| "rel acc cond (Cat l r) = rel acc cond l O rel acc cond r"
| "rel acc cond (Alt l r) = rel acc cond l \<union> rel acc cond r"
| "rel acc cond (Opt lazy r) = Id \<union> rel acc cond r"
| "rel acc cond (Star lazy r) = (rel acc cond r)\<^sup>*"
| "rel acc cond (Plus lazy r) = (rel acc cond r)\<^sup>+"
| "rel acc cond (Cap i r) = rel acc cond r"

subsection \<open>Paths of an automaton\<close>

text \<open>The labels through which control passes without reading a rune.\<close>

definition is_capture :: "rune \<Rightarrow> bool" where
  "is_capture t \<longleftrightarrow> is_capture_open t \<or> is_capture_close t"

definition edges ::
  "state_def list \<Rightarrow> (rune \<Rightarrow> nat \<Rightarrow> bool) \<Rightarrow> (rune \<Rightarrow> nat \<Rightarrow> bool) \<Rightarrow> ((nat \<times> nat) \<times> (nat \<times> nat)) set" where
  "edges ss acc cond = {((s, i), (t, j)). s < length ss \<and>
     (let l = st_label (ss ! s) in
      if l = Split then (st_next (ss ! s) = Some t \<or> st_next_alt (ss ! s) = Some t) \<and> j = i
      else if is_capture l then st_next (ss ! s) = Some t \<and> j = i
      else if is_condition l then cond l i \<and> st_next (ss ! s) = Some t \<and> j = i
      else acc l i \<and> st_next (ss ! s) = Some t \<and> j = Suc i)}"

text \<open>Labels of expressions: atoms that are no operators, and capture indices in range.\<close>

definition plain :: "rune \<Rightarrow> bool" where
  "plain t \<longleftrightarrow> t \<noteq> Split \<and> t \<noteq> Match \<and> \<not> is_capture t"

fun rexp_ok :: "rexp \<Rightarrow> bool" where
  "rexp_ok (Atom t) = plain t"
| "rexp_ok (Cat l r) = (rexp_ok l \<and> rexp_ok r)"
| "rexp_ok (Alt l r) = (rexp_ok l \<and> rexp_ok r)"
| "rexp_ok (Opt lazy r) = rexp_ok r"
| "rexp_ok (Star lazy r) = rexp_ok r"
| "rexp_ok (Plus lazy r) = rexp_ok r"
| "rexp_ok (Cap i r) = (i < of_nat MaxCaptures \<and> rexp_ok r)"

definition branch :: "state_def list \<Rightarrow> nat \<Rightarrow> bool \<Rightarrow> nat \<Rightarrow> nat \<Rightarrow> bool" where
  "branch ss k lazy a u \<longleftrightarrow> k < length ss \<and> st_label (ss ! k) = Split \<and>
     (if lazy then st_next (ss ! k) = Some u \<and> st_next_alt (ss ! k) = Some a
      else st_next (ss ! k) = Some a \<and> st_next_alt (ss ! k) = Some u)"

definition pass :: "state_def list \<Rightarrow> nat \<Rightarrow> rune \<Rightarrow> nat \<Rightarrow> bool" where
  "pass ss s t u \<longleftrightarrow> s < length ss \<and> st_label (ss ! s) = t \<and> st_next (ss ! s) = Some u"

text \<open>\<open>compiled ss s r u\<close>: from state \<open>s\<close>, the automaton is a copy of \<open>r\<close> that continues at \<open>u\<close>.\<close>

inductive compiled :: "state_def list \<Rightarrow> nat \<Rightarrow> rexp \<Rightarrow> nat \<Rightarrow> bool" for ss where
  atom: "pass ss s t u \<Longrightarrow> compiled ss s (Atom t) u"
| cat: "compiled ss s l m \<Longrightarrow> compiled ss m r u \<Longrightarrow> compiled ss s (Cat l r) u"
| alt: "branch ss s False a b \<Longrightarrow> compiled ss a l u \<Longrightarrow> compiled ss b r u \<Longrightarrow> compiled ss s (Alt l r) u"
| opt: "branch ss s lazy a u \<Longrightarrow> compiled ss a r u \<Longrightarrow> compiled ss s (Opt lazy r) u"
| star: "branch ss s lazy a u \<Longrightarrow> compiled ss a r s \<Longrightarrow> compiled ss s (Star lazy r) u"
| plus: "branch ss k lazy s u \<Longrightarrow> compiled ss s r k \<Longrightarrow> compiled ss s (Plus lazy r) u"
| cap: "pass ss s (CaptureOpen + i) a \<Longrightarrow> compiled ss a r c \<Longrightarrow> pass ss c (CaptureClose + i) u \<Longrightarrow>
    compiled ss s (Cap i r) u"

lemma branch_edges: "branch ss k lazy a u \<Longrightarrow> ((k, i), (t, j)) \<in> edges ss acc cond \<longleftrightarrow> (t = a \<or> t = u) \<and> j = i"
  by (auto simp: branch_def edges_def split: if_splits)

lemma capture_labels:
  assumes "i < of_nat MaxCaptures"
  shows "is_capture (CaptureOpen + i)" "is_capture (CaptureClose + i)"
    "CaptureOpen + i \<noteq> Split" "CaptureClose + i \<noteq> Split" "CaptureOpen + i \<noteq> Match" "CaptureClose + i \<noteq> Match"
proof -
  have u: "unat i < 64" using assms by (simp add: word_less_nat_alt)
  have o: "unat (CaptureOpen + i) = 0xAFFE00 + unat i" and c: "unat (CaptureClose + i) = 0xAFFD00 + unat i"
    using u by (simp_all add: unat_word_ariths)
  show "is_capture (CaptureOpen + i)" "is_capture (CaptureClose + i)"
    using u o c by (auto simp: is_capture_def is_capture_open_def is_capture_close_def word_le_nat_alt word_less_nat_alt)
  show "CaptureOpen + i \<noteq> Split" "CaptureClose + i \<noteq> Split" "CaptureOpen + i \<noteq> Match" "CaptureClose + i \<noteq> Match"
    using u o c by (auto simp: word_unat_eq_iff)
qed

lemma pass_capture_edges:
  assumes "pass ss s t u" "is_capture t" "t \<noteq> Split"
  shows "((s, i), (v, j)) \<in> edges ss acc cond \<longleftrightarrow> v = u \<and> j = i"
  using assms by (auto simp: pass_def edges_def)

lemma pass_atom_edges:
  assumes "pass ss s t u" "plain t"
  shows "((s, i), (v, j)) \<in> edges ss acc cond \<longleftrightarrow> v = u \<and> (i, j) \<in> rel acc cond (Atom t)"
  using assms by (auto simp: pass_def edges_def plain_def)

subsubsection \<open>Matches are paths\<close>

lemma star_path:
  assumes "\<And>i j. (i, j) \<in> R \<Longrightarrow> ((s, i), (s, j)) \<in> E\<^sup>*" "(i, j) \<in> R\<^sup>*"
  shows "((s, i), (s, j)) \<in> E\<^sup>*"
  using assms(2) by induction (auto intro: rtrancl_trans assms(1))

lemma compiled_sound:
  assumes "compiled ss s r u" "rexp_ok r" "(i, j) \<in> rel acc cond r"
  shows "((s, i), (u, j)) \<in> (edges ss acc cond)\<^sup>*"
  using assms
proof (induction s r u arbitrary: i j)
  case (atom s t u)
  then show ?case by (intro r_into_rtrancl) (simp add: pass_atom_edges)
next
  case (cat s l m r u)
  then obtain k where "(i, k) \<in> rel acc cond l" "(k, j) \<in> rel acc cond r" by auto
  with cat show ?case by (meson rexp_ok.simps(2) rtrancl_trans)
next
  case (alt s a b l u r)
  have "((s, i), (a, i)) \<in> edges ss acc cond" "((s, i), (b, i)) \<in> edges ss acc cond"
    using branch_edges [OF alt(1)] by auto
  moreover have "((a, i), (u, j)) \<in> (edges ss acc cond)\<^sup>* \<or> ((b, i), (u, j)) \<in> (edges ss acc cond)\<^sup>*"
    using alt by auto
  ultimately show ?case by (meson converse_rtrancl_into_rtrancl)
next
  case (opt s lazy a u r)
  have "((s, i), (a, i)) \<in> edges ss acc cond" "((s, i), (u, i)) \<in> edges ss acc cond"
    using branch_edges [OF opt(1)] by auto
  moreover have "((a, i), (u, j)) \<in> (edges ss acc cond)\<^sup>* \<or> i = j" using opt by auto
  ultimately show ?case by (meson converse_rtrancl_into_rtrancl r_into_rtrancl)
next
  case (star s lazy a u r)
  have "((s, x), (a, x)) \<in> edges ss acc cond" for x using branch_edges [OF star(1)] by auto
  then have "((s, x), (s, y)) \<in> (edges ss acc cond)\<^sup>*" if "(x, y) \<in> rel acc cond r" for x y
    by (rule converse_rtrancl_into_rtrancl) (use star.IH [of x y] star.prems(1) that in simp)
  from star_path [OF this] star have "((s, i), (s, j)) \<in> (edges ss acc cond)\<^sup>*" by auto
  then show ?case using branch_edges [OF star(1)] by (auto intro: rtrancl_into_rtrancl)
next
  case (plus k lazy s u r)
  obtain m where m: "(i, m) \<in> rel acc cond r" "(m, j) \<in> (rel acc cond r)\<^sup>*"
    using plus.prems(2) by (auto dest: tranclD)
  have "((k, x), (s, x)) \<in> edges ss acc cond" for x using branch_edges [OF plus(1)] by auto
  then have "((k, x), (k, y)) \<in> (edges ss acc cond)\<^sup>*" if "(x, y) \<in> rel acc cond r" for x y
    by (rule converse_rtrancl_into_rtrancl) (use plus.IH [of x y] plus.prems(1) that in simp)
  from star_path [OF this m(2)] have "((k, m), (k, j)) \<in> (edges ss acc cond)\<^sup>*" .
  moreover have "((s, i), (k, m)) \<in> (edges ss acc cond)\<^sup>*" using plus m by auto
  moreover have "((k, j), (u, j)) \<in> edges ss acc cond" using branch_edges [OF plus(1)] by auto
  ultimately show ?case by (meson rtrancl_into_rtrancl rtrancl_trans)
next
  case (cap s n a r c u)
  then have n: "n < of_nat MaxCaptures" by simp
  note l = capture_labels [OF n]
  have "((s, i), (a, i)) \<in> edges ss acc cond" "((c, j), (u, j)) \<in> edges ss acc cond"
    using pass_capture_edges [OF cap(1) l(1,3)] pass_capture_edges [OF cap(3) l(2,4)] by auto
  moreover have "((a, i), (c, j)) \<in> (edges ss acc cond)\<^sup>*" using cap by auto
  ultimately show ?case by (meson converse_rtrancl_into_rtrancl rtrancl_into_rtrancl)
qed

subsubsection \<open>Paths are matches\<close>

definition final :: "state_def list \<Rightarrow> nat \<Rightarrow> bool" where
  "final ss z \<longleftrightarrow> z < length ss \<and> st_label (ss ! z) = Match \<and> st_next (ss ! z) = None"

lemma relpow_first:
  assumes "(x, z) \<in> E ^^ n" "x \<noteq> z"
  obtains y m where "(x, y) \<in> E" "(y, z) \<in> E ^^ m" "n = Suc m"
proof (cases n)
  case 0
  with assms show ?thesis by simp
next
  case (Suc m)
  with assms relpow_Suc_D2 [of x z m E] that show ?thesis by blast
qed

lemma compiled_not_final: "compiled ss s r u \<Longrightarrow> rexp_ok r \<Longrightarrow> st_label (ss ! s) \<noteq> Match"
  by (induction rule: compiled.induct) (auto simp: pass_def branch_def plain_def capture_labels)

text \<open>A path from a compiled expression to the final state leaves it at its exit.\<close>

definition leaves ::
  "(nat \<times> nat) set \<Rightarrow> ((nat \<times> nat) \<times> (nat \<times> nat)) set \<Rightarrow> nat \<times> nat \<Rightarrow> nat \<Rightarrow> nat \<Rightarrow> bool" where
  "leaves R E z s u \<longleftrightarrow>
     (\<forall>i n. ((s, i), z) \<in> E ^^ n \<longrightarrow> (\<exists>j m. m < n \<and> (i, j) \<in> R \<and> ((u, j), z) \<in> E ^^ m))"

lemma leavesE:
  assumes "leaves R E z s u" "((s, i), z) \<in> E ^^ n"
  obtains j m where "m < n" "(i, j) \<in> R" "((u, j), z) \<in> E ^^ m"
  using assms unfolding leaves_def by meson

lemma leavesI:
  assumes "\<And>i n. ((s, i), z) \<in> E ^^ n \<Longrightarrow> \<exists>j m. m < n \<and> (i, j) \<in> R \<and> ((u, j), z) \<in> E ^^ m"
  shows "leaves R E z s u"
  using assms by (simp add: leaves_def)

lemma leaves_mono: "leaves R E z s u \<Longrightarrow> R \<subseteq> R' \<Longrightarrow> leaves R' E z s u"
  unfolding leaves_def by blast

lemma leaves_step:
  assumes "fst z \<noteq> s" "\<And>i v j. ((s, i), (v, j)) \<in> E \<Longrightarrow> v = u \<and> (i, j) \<in> R"
  shows "leaves R E z s u"
proof (rule leavesI)
  fix i n
  assume n: "((s, i), z) \<in> E ^^ n"
  have "(s, i) \<noteq> z" using assms(1) by auto
  from relpow_first [OF n this] obtain y m where y: "((s, i), y) \<in> E" "(y, z) \<in> E ^^ m" "n = Suc m" .
  obtain v j where "y = (v, j)" by (cases y)
  with y assms(2) show "\<exists>j m. m < n \<and> (i, j) \<in> R \<and> ((u, j), z) \<in> E ^^ m" by blast
qed

lemma leaves_cat:
  assumes "leaves R E z s m" "leaves R' E z m u"
  shows "leaves (R O R') E z s u"
proof (rule leavesI)
  fix i n
  assume "((s, i), z) \<in> E ^^ n"
  from leavesE [OF assms(1) this] obtain j p where j: "p < n" "(i, j) \<in> R" "((m, j), z) \<in> E ^^ p" .
  from leavesE [OF assms(2) j(3)] obtain k q where "q < p" "(j, k) \<in> R'" "((u, k), z) \<in> E ^^ q" .
  with j show "\<exists>j m. m < n \<and> (i, j) \<in> R O R' \<and> ((u, j), z) \<in> E ^^ m"
    by (meson order.strict_trans relcomp.relcompI)
qed

lemma branch_not_final: "branch ss k lazy a u \<Longrightarrow> final ss z \<Longrightarrow> z \<noteq> k"
  by (auto simp: branch_def final_def)

lemma branch_leaves:
  assumes "branch ss k lazy a u" "final ss (fst z)" "((k, i), z) \<in> (edges ss acc cond) ^^ n"
  obtains m where "((a, i), z) \<in> (edges ss acc cond) ^^ m" "n = Suc m"
    | m where "((u, i), z) \<in> (edges ss acc cond) ^^ m" "n = Suc m"
proof -
  have "(k, i) \<noteq> z" using branch_not_final [OF assms(1,2)] by auto
  from relpow_first [OF assms(3) this] obtain y m where y: "((k, i), y) \<in> edges ss acc cond"
    "(y, z) \<in> (edges ss acc cond) ^^ m" "n = Suc m" by blast
  obtain t j where "y = (t, j)" by (cases y)
  with y branch_edges [OF assms(1), of i t j acc cond] that show thesis by auto
qed

lemma leaves_alt:
  assumes "branch ss s lazy a b" "final ss (fst z)"
    "leaves R (edges ss acc cond) z a u" "leaves R' (edges ss acc cond) z b u"
  shows "leaves (R \<union> R') (edges ss acc cond) z s u"
proof (rule leavesI)
  fix i n
  let ?E = "edges ss acc cond"
  assume "((s, i), z) \<in> ?E ^^ n"
  with assms(1,2) show "\<exists>j m. m < n \<and> (i, j) \<in> R \<union> R' \<and> ((u, j), z) \<in> ?E ^^ m"
  proof (cases rule: branch_leaves)
    case (1 m)
    from leavesE [OF assms(3) 1(1)] 1(2) show ?thesis by (metis UnCI less_SucI)
  next
    case (2 m)
    from leavesE [OF assms(4) 2(1)] 2(2) show ?thesis by (metis UnCI less_SucI)
  qed
qed

lemma leaves_opt:
  assumes "branch ss s lazy a u" "final ss (fst z)" "leaves R (edges ss acc cond) z a u"
  shows "leaves (Id \<union> R) (edges ss acc cond) z s u"
proof (rule leavesI)
  fix i n
  let ?E = "edges ss acc cond"
  assume "((s, i), z) \<in> ?E ^^ n"
  with assms(1,2) show "\<exists>j m. m < n \<and> (i, j) \<in> Id \<union> R \<and> ((u, j), z) \<in> ?E ^^ m"
  proof (cases rule: branch_leaves)
    case (1 m)
    from leavesE [OF assms(3) 1(1)] 1(2) show ?thesis by (metis UnCI less_SucI)
  next
    case (2 m)
    then show ?thesis by blast
  qed
qed

lemma leaves_star:
  assumes "branch ss s lazy a u" "final ss (fst z)" "leaves R (edges ss acc cond) z a s"
  shows "leaves (R\<^sup>*) (edges ss acc cond) z s u"
proof (rule leavesI)
  fix i n
  let ?E = "edges ss acc cond"
  assume "((s, i), z) \<in> ?E ^^ n"
  then show "\<exists>j m. m < n \<and> (i, j) \<in> R\<^sup>* \<and> ((u, j), z) \<in> ?E ^^ m"
  proof (induction n arbitrary: i rule: less_induct)
    case (less n i)
    from assms(1,2) less.prems show ?case
    proof (cases rule: branch_leaves)
      case (1 m)
      from leavesE [OF assms(3) 1(1)] obtain x p where x: "p < m" "(i, x) \<in> R" "((s, x), z) \<in> ?E ^^ p" .
      with less.IH [of p x] 1(2) obtain j q where "q < p" "(x, j) \<in> R\<^sup>*" "((u, j), z) \<in> ?E ^^ q" by auto
      with x 1(2) show ?thesis
        by (intro exI [of _ j] exI [of _ q]) (auto intro: converse_rtrancl_into_rtrancl)
    next
      case (2 m)
      then show ?thesis by blast
    qed
  qed
qed

lemma leaves_plus:
  assumes "branch ss k lazy s u" "final ss (fst z)" "leaves R (edges ss acc cond) z s k"
  shows "leaves (R\<^sup>+) (edges ss acc cond) z s u"
  using leaves_cat [OF assms(3) leaves_star [OF assms]] by (simp add: trancl_unfold_left)

lemma compiled_leaves:
  assumes "compiled ss s r u" "rexp_ok r" "final ss (fst z)"
  shows "leaves (rel acc cond r) (edges ss acc cond) z s u"
  using assms(1,2)
proof (induction rule: compiled.induct)
  case (atom s t u)
  then have "fst z \<noteq> s" using assms(3) by (auto simp: pass_def final_def plain_def)
  then show ?case using pass_atom_edges [OF atom(1)] atom(2) by (intro leaves_step) auto
next
  case (cap s n a r c u)
  note lab = capture_labels [of n]
  have n: "n < of_nat MaxCaptures" and r: "leaves (rel acc cond r) (edges ss acc cond) z a c"
    using cap by auto
  have ne: "fst z \<noteq> s" "fst z \<noteq> c" using cap(1,3) assms(3) lab(5,6) [OF n] by (auto simp: pass_def final_def)
  have "leaves Id (edges ss acc cond) z s a" "leaves Id (edges ss acc cond) z c u"
    using pass_capture_edges [OF cap(1)] pass_capture_edges [OF cap(3)] ne lab [OF n]
    by (auto intro!: leaves_step)
  from leaves_cat [OF this(1) leaves_cat [OF r this(2)]] show ?case by simp
qed (use assms(3) in
  \<open>auto intro: leaves_cat leaves_alt leaves_opt leaves_star leaves_plus\<close>)

lemma compiled_matches:
  assumes "compiled ss s r z" "rexp_ok r" "final ss z"
  shows "((s, i), (z, j)) \<in> (edges ss acc cond)\<^sup>* \<longleftrightarrow> (i, j) \<in> rel acc cond r"
proof
  assume "((s, i), (z, j)) \<in> (edges ss acc cond)\<^sup>*"
  then obtain n where "((s, i), (z, j)) \<in> edges ss acc cond ^^ n" by (auto simp: rtrancl_power)
  then obtain k m where k: "(i, k) \<in> rel acc cond r" "((z, k), (z, j)) \<in> edges ss acc cond ^^ m"
    using leavesE [OF compiled_leaves [OF assms(1,2), of "(z, j)" acc cond]] assms(3) by (metis fst_conv)
  have "((z, k), y) \<notin> edges ss acc cond" for y
    using assms(3) by (cases y) (auto simp: final_def edges_def)
  with k(2) have "k = j" by (metis relpow_first prod.inject)
  with k show "(i, j) \<in> rel acc cond r" by simp
next
  assume "(i, j) \<in> rel acc cond r"
  with compiled_sound [OF assms(1,2)] show "((s, i), (z, j)) \<in> (edges ss acc cond)\<^sup>*" .
qed

subsection \<open>Thompson's construction\<close>

text \<open>Construction only appends states and fills null slots.\<close>

definition get_slot :: "state_def list \<Rightarrow> nat \<times> slot \<Rightarrow> nat option" where
  "get_slot ss d = (case d of (i, Next) \<Rightarrow> st_next (ss ! i) | (i, NextAlt) \<Rightarrow> st_next_alt (ss ! i))"

definition grows :: "state_def list \<Rightarrow> state_def list \<Rightarrow> bool" where
  "grows ss ss' \<longleftrightarrow> length ss \<le> length ss' \<and>
     (\<forall>i < length ss. st_label (ss' ! i) = st_label (ss ! i) \<and>
        (\<forall>sl. get_slot ss (i, sl) \<noteq> None \<longrightarrow> get_slot ss' (i, sl) = get_slot ss (i, sl)))"

lemma grows_refl [simp]: "grows ss ss"
  by (simp add: grows_def)

lemma grows_trans: "grows a b \<Longrightarrow> grows b c \<Longrightarrow> grows a c"
  unfolding grows_def by (metis order.trans order.strict_trans2)

lemma grows_length: "grows a b \<Longrightarrow> length a \<le> length b"
  by (simp add: grows_def)

lemma get_slot_append [simp]: "i < length ss \<Longrightarrow> get_slot (ss @ ss') (i, sl) = get_slot ss (i, sl)"
  by (cases sl) (simp_all add: get_slot_def nth_append)

lemma grows_append [simp]: "grows ss (ss @ ss')"
  by (auto simp: grows_def nth_append)

lemma grows_slot:
  "grows ss ss' \<Longrightarrow> fst d < length ss \<Longrightarrow> get_slot ss d = Some t \<Longrightarrow> get_slot ss' d = Some t"
  by (cases d) (simp add: grows_def)

text \<open>States that are well formed: their index is their position and their targets exist.\<close>

definition states_ok :: "state_def list \<Rightarrow> bool" where
  "states_ok ss \<longleftrightarrow> (\<forall>i < length ss. closure_index (ss ! i) = i \<and>
     (\<forall>sl t. get_slot ss (i, sl) = Some t \<longrightarrow> t < length ss))"

lemma states_ok_slot: "states_ok ss \<Longrightarrow> i < length ss \<Longrightarrow> get_slot ss (i, sl) = Some t \<Longrightarrow> t < length ss"
  unfolding states_ok_def by blast

lemma states_okD:
  assumes "states_ok ss" "i < length ss"
  shows "closure_index (ss ! i) = i" "st_next (ss ! i) = Some t \<Longrightarrow> t < length ss"
    "st_next_alt (ss ! i) = Some t \<Longrightarrow> t < length ss"
  using assms states_ok_slot [OF assms, of Next t] states_ok_slot [OF assms, of NextAlt t]
  by (simp_all add: states_ok_def get_slot_def)

subsubsection \<open>patch\<close>

lemma set_slot_length [simp]: "length (set_slot t ss d) = length ss"
  by (cases d; cases "snd d") (auto simp: set_slot_def)

lemma set_slot_label [simp]: "fst d < length ss \<Longrightarrow> st_label (set_slot t ss d ! i) = st_label (ss ! i)"
  by (cases d; cases "snd d") (auto simp: set_slot_def nth_list_update)

lemma set_slot_index [simp]: "fst d < length ss \<Longrightarrow> closure_index (set_slot t ss d ! i) = closure_index (ss ! i)"
  by (cases d; cases "snd d") (auto simp: set_slot_def nth_list_update)

lemma get_set_slot:
  "fst d < length ss \<Longrightarrow> get_slot (set_slot t ss d) d' = (if d = d' then t else get_slot ss d')"
  by (cases d; cases d'; cases "snd d"; cases "snd d'")
    (auto simp: set_slot_def get_slot_def nth_list_update)

lemma foldl_set_slot:
  assumes "\<forall>d \<in> set ds. fst d < length ss"
  shows "length (foldl (set_slot t) ss ds) = length ss"
    "st_label (foldl (set_slot t) ss ds ! i) = st_label (ss ! i)"
    "closure_index (foldl (set_slot t) ss ds ! i) = closure_index (ss ! i)"
    "get_slot (foldl (set_slot t) ss ds) d = (if d \<in> set ds then t else get_slot ss d)"
  using assms by (induction ds arbitrary: ss) (auto simp: get_set_slot)

definition vacant :: "state_def list \<Rightarrow> (nat \<times> slot) list \<Rightarrow> bool" where
  "vacant ss ds \<longleftrightarrow> (\<forall>d \<in> set ds. fst d < length ss \<and> get_slot ss d = None)"

lemma vacant_simps [simp]:
  "vacant ss []" "vacant ss (d # ds) \<longleftrightarrow> fst d < length ss \<and> get_slot ss d = None \<and> vacant ss ds"
  "vacant ss (ds @ ds') \<longleftrightarrow> vacant ss ds \<and> vacant ss ds'"
  by (auto simp: vacant_def)

lemma vacant_append [simp]: "vacant ss ds \<Longrightarrow> vacant (ss @ ss') ds"
  by (auto simp: vacant_def)

lemma grows_patch:
  "vacant ss ds \<Longrightarrow> grows ss (foldl (set_slot (Some t)) ss ds)"
  by (auto simp: grows_def vacant_def foldl_set_slot)

lemma vacant_patch:
  "vacant ss ds \<Longrightarrow> vacant ss ds' \<Longrightarrow> set ds \<inter> set ds' = {} \<Longrightarrow>
    vacant (foldl (set_slot (Some t)) ss ds) ds'"
  by (auto simp: vacant_def foldl_set_slot)

lemma states_ok_patch:
  "vacant ss ds \<Longrightarrow> states_ok ss \<Longrightarrow> t < length ss \<Longrightarrow> states_ok (foldl (set_slot (Some t)) ss ds)"
  by (auto simp: states_ok_def vacant_def foldl_set_slot split: if_splits)

lemma states_ok_append:
  assumes "states_ok ss" "closure_index s = length ss"
    "\<And>t. st_next s = Some t \<Longrightarrow> t \<le> length ss" "\<And>t. st_next_alt s = Some t \<Longrightarrow> t \<le> length ss"
  shows "states_ok (ss @ [s])"
proof -
  have "t < Suc (length ss)" if "get_slot (ss @ [s]) (i, sl) = Some t" "i < Suc (length ss)" for i sl t
  proof (cases "i = length ss")
    case True
    with that assms(3,4) show ?thesis by (cases sl) (auto simp: get_slot_def less_Suc_eq_le)
  next
    case False
    with that assms(1) show ?thesis by (auto simp: states_ok_def less_Suc_eq)
  qed
  with assms(1,2) show ?thesis by (auto simp: states_ok_def nth_append less_Suc_eq)
qed

subsubsection \<open>Fragments denote expressions\<close>

definition frag_ok :: "state_def list \<Rightarrow> rexp \<Rightarrow> frag \<Rightarrow> bool" where
  "frag_ok ss r f \<longleftrightarrow> frag_start f < length ss \<and>
     (\<forall>ss' t. grows ss ss' \<and> (\<forall>d \<in> set (dangling f). get_slot ss' d = Some t) \<longrightarrow>
        compiled ss' (frag_start f) r t)"

lemma frag_ok_grows: "frag_ok ss r f \<Longrightarrow> grows ss ss' \<Longrightarrow> frag_ok ss' r f"
  unfolding frag_ok_def by (meson grows_length grows_trans order.strict_trans2)

lemma frag_ok_start: "frag_ok ss r f \<Longrightarrow> frag_start f < length ss"
  by (simp add: frag_ok_def)

lemma frag_okI:
  assumes "frag_start f < length ss"
    "\<And>ss' t. grows ss ss' \<Longrightarrow> (\<And>d. d \<in> set (dangling f) \<Longrightarrow> get_slot ss' d = Some t) \<Longrightarrow>
      compiled ss' (frag_start f) r t"
  shows "frag_ok ss r f"
  using assms by (simp add: frag_ok_def)

lemma frag_ok_compiled:
  assumes "frag_ok ss r f" "grows ss ss'" "\<And>d. d \<in> set (dangling f) \<Longrightarrow> get_slot ss' d = Some t"
  shows "compiled ss' (frag_start f) r t"
  using assms by (simp add: frag_ok_def)

text \<open>The dangling slots of a fragment that has been patched lead to the target ever after.\<close>

lemma patched_compiled:
  assumes "frag_ok ss r f" "vacant ss (dangling f)"
    "grows (foldl (set_slot (Some t)) ss (dangling f)) ss'"
  shows "compiled ss' (frag_start f) r t"
proof (rule frag_ok_compiled [OF assms(1)])
  show "grows ss ss'" using grows_trans [OF grows_patch [OF assms(2)] assms(3)] .
  fix d assume "d \<in> set (dangling f)"
  with assms(2) show "get_slot ss' d = Some t"
    by (intro grows_slot [OF assms(3)]) (auto simp: vacant_def foldl_set_slot)
qed

definition mk_state :: "rune \<Rightarrow> nat option \<Rightarrow> nat option \<Rightarrow> nat \<Rightarrow> state_def" where
  "mk_state label nxt nxt_alt idx =
     \<lparr>st_label = label, st_next = nxt, st_next_alt = nxt_alt, closure_index = idx,
      ascii_accept = (0, 0), trivial_closure = False\<rparr>"

lemma mk_state_sel [simp]:
  "st_label (mk_state l n a i) = l" "st_next (mk_state l n a i) = n"
  "st_next_alt (mk_state l n a i) = a" "closure_index (mk_state l n a i) = i"
  by (simp_all add: mk_state_def)

lemma create_state_room:
  "length (owned_states e) < states_capacity e \<Longrightarrow>
    create_state l n a e =
      (e\<lparr>owned_states := owned_states e @ [mk_state l n a (length (owned_states e))]\<rparr>,
       length (owned_states e))"
  by (simp add: create_state_def mk_state_def Let_def)

text \<open>A state that was appended keeps its label and what was set of it.\<close>

lemma grows_new:
  assumes "grows (ss @ [s]) ss'"
  shows "length ss < length ss'" "st_label (ss' ! length ss) = st_label s"
    "st_next s = Some t \<Longrightarrow> st_next (ss' ! length ss) = Some t"
    "st_next_alt s = Some t \<Longrightarrow> st_next_alt (ss' ! length ss) = Some t"
  using assms grows_slot [OF assms, of "(length ss, Next)" t] grows_slot [OF assms, of "(length ss, NextAlt)" t]
  by (auto simp: grows_def get_slot_def)

subsubsection \<open>The operators\<close>

definition split_state :: "bool \<Rightarrow> nat \<Rightarrow> nat \<Rightarrow> state_def" where
  "split_state lazy a idx =
     (if lazy then mk_state Split None (Some a) idx else mk_state Split (Some a) None idx)"

definition exit_slot :: "bool \<Rightarrow> slot" where
  "exit_slot lazy = (if lazy then Next else NextAlt)"

lemma split_branch:
  assumes "grows (ss @ [split_state lazy a (length ss)]) ss'"
    "get_slot ss' (length ss, exit_slot lazy) = Some t"
  shows "branch ss' (length ss) lazy a t"
  using assms(2) grows_new(1,2) [OF assms(1)] grows_new(3,4) [OF assms(1), of a]
  by (cases lazy) (auto simp: branch_def split_state_def exit_slot_def get_slot_def)

lemma split_vacant [simp]: "get_slot (ss @ [split_state lazy a n]) (length ss, exit_slot lazy) = None"
  by (cases lazy) (auto simp: split_state_def exit_slot_def get_slot_def)

lemma frag_ok_atom:
  "frag_ok (ss @ [mk_state t None None (length ss)]) (Atom t)
     \<lparr>frag_start = length ss, dangling = [(length ss, Next)]\<rparr>"
  by (rule frag_okI) (auto intro!: compiled.atom simp: pass_def grows_new get_slot_def)

lemma frag_ok_cat:
  assumes "frag_ok ss l fl" "frag_ok ss r fr" "vacant ss (dangling fl)"
  shows "frag_ok (foldl (set_slot (Some (frag_start fr))) ss (dangling fl)) (Cat l r)
     \<lparr>frag_start = frag_start fl, dangling = dangling fr\<rparr>"
proof (rule frag_okI)
  show "frag_start \<lparr>frag_start = frag_start fl, dangling = dangling fr\<rparr>
      < length (foldl (set_slot (Some (frag_start fr))) ss (dangling fl))"
    using assms frag_ok_start by (auto simp: foldl_set_slot vacant_def)
  fix ss' t
  assume g: "grows (foldl (set_slot (Some (frag_start fr))) ss (dangling fl)) ss'"
    and d: "\<And>d. d \<in> set (dangling \<lparr>frag_start = frag_start fl, dangling = dangling fr\<rparr>) \<Longrightarrow> get_slot ss' d = Some t"
  have "compiled ss' (frag_start fr) r t"
    using frag_ok_compiled [OF assms(2) grows_trans [OF grows_patch [OF assms(3)] g]] d by simp
  with patched_compiled [OF assms(1,3) g] show
    "compiled ss' (frag_start \<lparr>frag_start = frag_start fl, dangling = dangling fr\<rparr>) (Cat l r) t"
    by (simp add: compiled.cat)
qed

lemma frag_ok_alt:
  assumes "frag_ok ss l fl" "frag_ok ss r fr"
  shows "frag_ok (ss @ [mk_state Split (Some (frag_start fl)) (Some (frag_start fr)) (length ss)]) (Alt l r)
     \<lparr>frag_start = length ss, dangling = dangling fl @ dangling fr\<rparr>"
proof (rule frag_okI, simp_all, rule compiled.alt)
  fix ss' t
  assume g: "grows (ss @ [mk_state Split (Some (frag_start fl)) (Some (frag_start fr)) (length ss)]) ss'"
    and d: "\<And>d. d \<in> set (dangling fl) \<or> d \<in> set (dangling fr) \<Longrightarrow> get_slot ss' d = Some t"
  show "branch ss' (length ss) False (frag_start fl) (frag_start fr)"
    using grows_new [OF g] by (simp add: branch_def)
  have "grows ss ss'" using grows_trans [OF grows_append g] .
  with assms d show "compiled ss' (frag_start fl) l t" "compiled ss' (frag_start fr) r t"
    by (auto intro: frag_ok_compiled)
qed

lemma frag_ok_opt:
  assumes "frag_ok ss r f"
  shows "frag_ok (ss @ [split_state lazy (frag_start f) (length ss)]) (Opt lazy r)
     \<lparr>frag_start = length ss, dangling = dangling f @ [(length ss, exit_slot lazy)]\<rparr>"
proof (rule frag_okI, simp_all, rule compiled.opt)
  fix ss' t
  assume g: "grows (ss @ [split_state lazy (frag_start f) (length ss)]) ss'"
    and d: "\<And>d. d = (length ss, exit_slot lazy) \<or> d \<in> set (dangling f) \<Longrightarrow> get_slot ss' d = Some t"
  show "branch ss' (length ss) lazy (frag_start f) t" using split_branch [OF g] d by simp
  show "compiled ss' (frag_start f) r t"
    using frag_ok_compiled [OF assms grows_trans [OF grows_append g]] d by simp
qed

text \<open>Both loops patch the operand's exits to the new split state.\<close>

lemma loop_compiled:
  assumes "frag_ok ss r f" "vacant ss (dangling f)" "k = length ss"
    "grows (foldl (set_slot (Some k)) (ss @ [split_state lazy (frag_start f) k]) (dangling f)) ss'"
    "get_slot ss' (k, exit_slot lazy) = Some t"
  shows "branch ss' k lazy (frag_start f) t" "compiled ss' (frag_start f) r k"
proof -
  let ?s = "ss @ [split_state lazy (frag_start f) k]"
  have v: "vacant ?s (dangling f)" using assms(2) by simp
  show "branch ss' k lazy (frag_start f) t"
    using split_branch [OF _ assms(5) [unfolded assms(3)]] grows_trans [OF grows_patch [OF v] assms(4)] assms(3)
    by simp
  show "compiled ss' (frag_start f) r k"
    using patched_compiled [OF frag_ok_grows [OF assms(1) grows_append] v assms(4)] .
qed

lemma frag_ok_star:
  assumes "frag_ok ss r f" "vacant ss (dangling f)" "k = length ss"
  shows "frag_ok (foldl (set_slot (Some k)) (ss @ [split_state lazy (frag_start f) k]) (dangling f))
     (Star lazy r) \<lparr>frag_start = k, dangling = [(k, exit_slot lazy)]\<rparr>"
proof (rule frag_okI)
  show "frag_start \<lparr>frag_start = k, dangling = [(k, exit_slot lazy)]\<rparr>
      < length (foldl (set_slot (Some k)) (ss @ [split_state lazy (frag_start f) k]) (dangling f))"
    using assms by (simp add: foldl_set_slot vacant_def less_SucI)
qed (simp, blast intro: compiled.star loop_compiled [OF assms])

lemma frag_ok_plus:
  assumes "frag_ok ss r f" "vacant ss (dangling f)" "k = length ss"
  shows "frag_ok (foldl (set_slot (Some k)) (ss @ [split_state lazy (frag_start f) k]) (dangling f))
     (Plus lazy r) \<lparr>frag_start = frag_start f, dangling = [(k, exit_slot lazy)]\<rparr>"
proof (rule frag_okI)
  show "frag_start \<lparr>frag_start = frag_start f, dangling = [(k, exit_slot lazy)]\<rparr>
      < length (foldl (set_slot (Some k)) (ss @ [split_state lazy (frag_start f) k]) (dangling f))"
    using assms frag_ok_start [OF assms(1)] by (simp add: foldl_set_slot vacant_def less_SucI)
qed (simp, blast intro: compiled.plus loop_compiled [OF assms])

lemma frag_ok_cap:
  assumes "frag_ok ss r f" "vacant ss (dangling f)" "c = length ss"
    and ss1_def: "ss1 = foldl (set_slot (Some c)) (ss @ [mk_state (CaptureClose + n) None None c]) (dangling f)"
  shows "frag_ok (ss1 @ [mk_state (CaptureOpen + n) (Some (frag_start f)) None (length ss1)]) (Cap n r)
     \<lparr>frag_start = length ss1, dangling = [(c, Next)]\<rparr>"
proof (rule frag_okI, simp_all, rule compiled.cap)
  let ?c = "ss @ [mk_state (CaptureClose + n) None None c]"
  have v: "vacant ?c (dangling f)" using assms(2) by simp
  fix ss' t
  assume g: "grows (ss1 @ [mk_state (CaptureOpen + n) (Some (frag_start f)) None (length ss1)]) ss'"
    and d: "get_slot ss' (c, Next) = Some t"
  then show "pass ss' (length ss1) (CaptureOpen + n) (frag_start f)"
    using grows_new [OF g] by (simp add: pass_def)
  have g1: "grows ss1 ss'" using grows_trans [OF grows_append g] .
  then show "compiled ss' (frag_start f) r c"
    using patched_compiled [OF frag_ok_grows [OF assms(1) grows_append] v] by (simp add: ss1_def)
  have "grows ?c ss'" using grows_trans [OF grows_patch [OF v]] g1 by (simp add: ss1_def)
  from grows_new [OF this] d assms(3) show "pass ss' c (CaptureClose + n) t"
    by (simp add: pass_def get_slot_def)
qed

subsubsection \<open>The invariant of the token loop\<close>

definition stack_dangling :: "frag list \<Rightarrow> (nat \<times> slot) list" where
  "stack_dangling fs = concat (map dangling fs)"

lemma stack_dangling_simps [simp]:
  "stack_dangling [] = []" "stack_dangling (f # fs) = dangling f @ stack_dangling fs"
  by (simp_all add: stack_dangling_def)

definition nfa_inv :: "nat \<Rightarrow> state_def list \<Rightarrow> frag list \<Rightarrow> rexp list \<Rightarrow> bool" where
  "nfa_inv z ss fs rs \<longleftrightarrow> states_ok ss \<and> final ss z \<and> list_all2 (frag_ok ss) rs fs \<and>
     vacant ss (stack_dangling fs) \<and> distinct (stack_dangling fs) \<and> (\<forall>d \<in> set (stack_dangling fs). fst d \<noteq> z)"

lemma list_all2_grows: "list_all2 (frag_ok ss) rs fs \<Longrightarrow> grows ss ss' \<Longrightarrow> list_all2 (frag_ok ss') rs fs"
  by (erule list_all2_mono) (rule frag_ok_grows)

lemma final_append [simp]: "final ss z \<Longrightarrow> final (ss @ ss') z"
  by (auto simp: final_def nth_append)

lemma final_patch:
  assumes "final ss z" "vacant ss ds" "\<forall>d \<in> set ds. fst d \<noteq> z"
  shows "final (foldl (set_slot (Some t)) ss ds) z"
proof -
  have "get_slot (foldl (set_slot (Some t)) ss ds) (z, Next) = get_slot ss (z, Next)"
    using assms by (subst foldl_set_slot) (auto simp: vacant_def)
  with assms show ?thesis by (auto simp: final_def foldl_set_slot vacant_def get_slot_def)
qed

lemma list_all2_Cons_ex:
  "list_all2 P (x # xs) ys \<Longrightarrow> \<exists>y ys'. ys = y # ys' \<and> P x y \<and> list_all2 P xs ys'"
  by (auto simp: list_all2_Cons1)

lemma fresh_dangling: "vacant ss ds \<Longrightarrow> (length ss, sl) \<notin> set ds"
  by (auto simp: vacant_def)

lemma inv_atom:
  assumes "nfa_inv z ss fs rs"
  shows "nfa_inv z (ss @ [mk_state t None None (length ss)])
    (\<lparr>frag_start = length ss, dangling = [(length ss, Next)]\<rparr> # fs) (Atom t # rs)"
  using assms fresh_dangling [of ss "stack_dangling fs"]
  by (auto simp: nfa_inv_def frag_ok_atom final_def get_slot_def nth_append
      intro!: states_ok_append list_all2_grows [OF _ grows_append])

lemma inv_cat:
  assumes "nfa_inv z ss (fr # fl # fs) (r # l # rs)"
  shows "nfa_inv z (foldl (set_slot (Some (frag_start fr))) ss (dangling fl))
    (\<lparr>frag_start = frag_start fl, dangling = dangling fr\<rparr> # fs) (Cat l r # rs)"
proof -
  have v: "vacant ss (dangling fl)" and f: "frag_ok ss l fl" "frag_ok ss r fr"
    using assms by (auto simp: nfa_inv_def)
  show ?thesis
    using assms frag_ok_cat [OF f v] frag_ok_start [OF f(2)]
    by (auto simp: nfa_inv_def intro!: states_ok_patch vacant_patch final_patch
        list_all2_grows [OF _ grows_patch])
qed

lemma inv_alt:
  assumes "nfa_inv z ss (fr # fl # fs) (r # l # rs)"
  shows "nfa_inv z (ss @ [mk_state Split (Some (frag_start fl)) (Some (frag_start fr)) (length ss)])
    (\<lparr>frag_start = length ss, dangling = dangling fl @ dangling fr\<rparr> # fs) (Alt l r # rs)"
proof -
  have f: "frag_ok ss l fl" "frag_ok ss r fr" using assms by (auto simp: nfa_inv_def)
  from f [THEN frag_ok_start] show ?thesis
    using assms frag_ok_alt [OF f]
    by (auto simp: nfa_inv_def intro!: states_ok_append list_all2_grows [OF _ grows_append])
qed

lemma split_ok:
  "states_ok ss \<Longrightarrow> a < length ss \<Longrightarrow> states_ok (ss @ [split_state lazy a (length ss)])"
  by (rule states_ok_append) (auto simp: split_state_def split: if_splits)

lemma inv_opt:
  assumes "nfa_inv z ss (f # fs) (r # rs)"
  shows "nfa_inv z (ss @ [split_state lazy (frag_start f) (length ss)])
    (\<lparr>frag_start = length ss, dangling = dangling f @ [(length ss, exit_slot lazy)]\<rparr> # fs) (Opt lazy r # rs)"
proof -
  have f: "frag_ok ss r f" and v: "vacant ss (stack_dangling (f # fs))" using assms by (auto simp: nfa_inv_def)
  show ?thesis
    using assms frag_ok_opt [OF f] frag_ok_start [OF f] fresh_dangling [OF v]
    by (auto simp: nfa_inv_def final_def nth_append intro!: split_ok list_all2_grows [OF _ grows_append])
qed

text \<open>The stack after the operand's exits were patched to a fresh state.\<close>

lemma inv_loop:
  assumes "nfa_inv z ss (f # fs) (r # rs)" "k = length ss"
    "ss' = foldl (set_slot (Some k)) (ss @ [split_state lazy (frag_start f) k]) (dangling f)"
    "frag_ok ss' r' \<lparr>frag_start = x, dangling = [(k, exit_slot lazy)]\<rparr>"
  shows "nfa_inv z ss' (\<lparr>frag_start = x, dangling = [(k, exit_slot lazy)]\<rparr> # fs) (r' # rs)"
proof -
  let ?s = "ss @ [split_state lazy (frag_start f) k]"
  have i: "states_ok ss" "final ss z" "list_all2 (frag_ok ss) rs fs" "frag_ok ss r f"
    "vacant ss (dangling f)" "vacant ss (stack_dangling fs)" "distinct (stack_dangling fs)"
    "set (dangling f) \<inter> set (stack_dangling fs) = {}" "\<forall>d \<in> set (dangling f @ stack_dangling fs). fst d \<noteq> z"
    using assms(1) by (auto simp: nfa_inv_def)
  have n: "(k, sl) \<notin> set (dangling f)" "(k, sl) \<notin> set (stack_dangling fs)" for sl
    using fresh_dangling i(5,6) assms(2) by auto
  have v: "vacant ?s (dangling f)" "vacant ?s ((k, exit_slot lazy) # stack_dangling fs)"
    using i assms(2) by auto
  have "states_ok ss'" using split_ok [OF i(1) frag_ok_start [OF i(4)]] v assms(2,3) by (auto intro!: states_ok_patch)
  moreover have "final ss' z" using i v assms(2,3) by (auto intro!: final_patch)
  moreover have "list_all2 (frag_ok ss') rs fs"
    using list_all2_grows [OF i(3) grows_trans [OF grows_append grows_patch [OF v(1)]]] assms(3) by simp
  moreover have "vacant ss' ((k, exit_slot lazy) # stack_dangling fs)"
    using vacant_patch [OF v] i(8) n assms(3) by auto
  moreover have "k \<noteq> z" using i(2) assms(2) by (auto simp: final_def)
  ultimately show ?thesis using i n assms(4) by (auto simp: nfa_inv_def)
qed

lemma inv_star:
  assumes "nfa_inv z ss (f # fs) (r # rs)" "k = length ss"
  shows "nfa_inv z (foldl (set_slot (Some k)) (ss @ [split_state lazy (frag_start f) k]) (dangling f))
    (\<lparr>frag_start = k, dangling = [(k, exit_slot lazy)]\<rparr> # fs) (Star lazy r # rs)"
  using assms(1) by (intro inv_loop [OF assms refl] frag_ok_star [OF _ _ assms(2)]) (auto simp: nfa_inv_def)

lemma inv_plus:
  assumes "nfa_inv z ss (f # fs) (r # rs)" "k = length ss"
  shows "nfa_inv z (foldl (set_slot (Some k)) (ss @ [split_state lazy (frag_start f) k]) (dangling f))
    (\<lparr>frag_start = frag_start f, dangling = [(k, exit_slot lazy)]\<rparr> # fs) (Plus lazy r # rs)"
  using assms(1) by (intro inv_loop [OF assms refl] frag_ok_plus [OF _ _ assms(2)]) (auto simp: nfa_inv_def)

lemma inv_cap:
  assumes "nfa_inv z ss (f # fs) (r # rs)" "c = length ss"
    and s1: "ss1 = foldl (set_slot (Some c)) (ss @ [mk_state (CaptureClose + n) None None c]) (dangling f)"
  shows "nfa_inv z (ss1 @ [mk_state (CaptureOpen + n) (Some (frag_start f)) None (length ss1)])
    (\<lparr>frag_start = length ss1, dangling = [(c, Next)]\<rparr> # fs) (Cap n r # rs)"
proof -
  let ?s = "ss @ [mk_state (CaptureClose + n) None None c]"
  have i: "states_ok ss" "final ss z" "list_all2 (frag_ok ss) rs fs" "frag_ok ss r f"
    "vacant ss (dangling f)" "vacant ss (stack_dangling fs)" "distinct (stack_dangling fs)"
    "set (dangling f) \<inter> set (stack_dangling fs) = {}" "\<forall>d \<in> set (dangling f @ stack_dangling fs). fst d \<noteq> z"
    using assms(1) by (auto simp: nfa_inv_def)
  have n: "(c, sl) \<notin> set (dangling f)" "(c, sl) \<notin> set (stack_dangling fs)" for sl
    using fresh_dangling i(5,6) assms(2) by auto
  have v: "vacant ?s (dangling f)" "vacant ?s ((c, Next) # stack_dangling fs)"
    using i assms(2) by (auto simp: get_slot_def)
  have l: "length ss1 = Suc (length ss)" using v(1) s1 by (auto simp: foldl_set_slot vacant_def)
  have "states_ok ?s" using i(1) assms(2) by (auto intro!: states_ok_append)
  then have "states_ok ss1" using v(1) s1 assms(2) by (auto intro!: states_ok_patch)
  then have "states_ok (ss1 @ [mk_state (CaptureOpen + n) (Some (frag_start f)) None (length ss1)])"
    using frag_ok_start [OF i(4)] l by (auto intro!: states_ok_append)
  moreover have "final ss1 z" using i v assms(2) s1 by (auto intro!: final_patch)
  moreover have "list_all2 (frag_ok ss1) rs fs"
    using list_all2_grows [OF i(3) grows_trans [OF grows_append grows_patch [OF v(1)]]] s1 by simp
  moreover have "vacant ss1 ((c, Next) # stack_dangling fs)"
    using vacant_patch [OF v] i(8) n s1 by auto
  moreover have "c \<noteq> z" using i(2) assms(2) by (auto simp: final_def)
  ultimately show ?thesis
    using i n frag_ok_cap [OF i(4,5) assms(2) s1]
    by (auto simp: nfa_inv_def intro: list_all2_grows [OF _ grows_append])
qed

lemma build_quantifier_room:
  assumes "length (owned_states e) < states_capacity e"
  shows "build_quantifier (f # fs) kind lazy e =
    (let k = length (owned_states e); ss = owned_states e @ [split_state lazy (frag_start f) k];
         d = (k, exit_slot lazy)
     in case kind of
          QZeroOrOne \<Rightarrow> (e\<lparr>owned_states := ss\<rparr>, \<lparr>frag_start = k, dangling = dangling f @ [d]\<rparr> # fs)
        | QZeroOrMore \<Rightarrow> (e\<lparr>owned_states := foldl (set_slot (Some k)) ss (dangling f)\<rparr>,
            \<lparr>frag_start = k, dangling = [d]\<rparr> # fs)
        | QOneOrMore \<Rightarrow> (e\<lparr>owned_states := foldl (set_slot (Some k)) ss (dangling f)\<rparr>,
            \<lparr>frag_start = frag_start f, dangling = [d]\<rparr> # fs))"
  using assms
  by (cases lazy; cases kind)
    (simp_all add: build_quantifier_def create_state_room split_state_def exit_slot_def patch_def Let_def)

definition quantified :: "QuantifierKind \<Rightarrow> bool \<Rightarrow> rexp \<Rightarrow> rexp" where
  "quantified kind lazy r =
     (case kind of QZeroOrOne \<Rightarrow> Opt lazy r | QZeroOrMore \<Rightarrow> Star lazy r | QOneOrMore \<Rightarrow> Plus lazy r)"

definition steps_to :: "engine \<Rightarrow> engine \<times> frag list option \<Rightarrow> rexp list \<Rightarrow> bool" where
  "steps_to e res rs \<longleftrightarrow> (\<exists>ss fs. res = (e\<lparr>owned_states := ss\<rparr>, Some fs) \<and> nfa_inv (accept_state e) ss fs rs \<and>
     length ss \<le> length (owned_states e) + 2)"

lemma steps_toI:
  "nfa_inv (accept_state e) ss fs rs \<Longrightarrow> length ss \<le> length (owned_states e) + 2 \<Longrightarrow>
    steps_to e (e\<lparr>owned_states := ss\<rparr>, Some fs) rs"
  by (auto simp: steps_to_def)

lemma engine_ok_owned [simp]: "engine_ok (e\<lparr>owned_states := ss\<rparr>) = engine_ok e"
  by (simp add: engine_ok_def)

lemma quantifier_steps:
  assumes inv: "nfa_inv (accept_state e) (owned_states e) fs (r # rs)"
    and room: "length (owned_states e) + 2 \<le> states_capacity e" and ok: "engine_ok e"
  shows "steps_to e (quantifier_step fs kind lazy e) (quantified kind lazy r # rs)"
proof -
  obtain f fs' where fs: "fs = f # fs'" using inv by (auto simp: nfa_inv_def list_all2_Cons1)
  let ?ss = "owned_states e"
  have "vacant (?ss @ [s]) (dangling f)" for s using inv fs by (auto simp: nfa_inv_def)
  then have l: "length (foldl (set_slot t) (?ss @ [s]) (dangling f)) = Suc (length ?ss)" for s t
    by (subst foldl_set_slot) (auto simp: vacant_def)
  have "length ?ss < states_capacity e" using room by simp
  note q = build_quantifier_room [OF this]
  note i = inv [unfolded fs]
  show ?thesis
    using inv_opt [OF i, of lazy] inv_star [OF i refl, of lazy] inv_plus [OF i refl, of lazy] ok l
    by (cases kind) (auto simp: quantifier_step_def q fs quantified_def Let_def intro!: steps_toI)
qed

lemma nfa_step_some:
  assumes inv: "nfa_inv (accept_state e) (owned_states e) fs rs"
    and room: "length (owned_states e) + 2 \<le> states_capacity e" and ok: "engine_ok e"
    and ast: "ast_step t rs = Some rs'"
  shows "steps_to e (nfa_step t fs e) rs'"
proof -
  let ?ss = "owned_states e"
  have room1: "length ?ss < states_capacity e" using room by simp
  note q = quantifier_steps [OF _ room ok]
  consider (cat) "t = Catenation" | (alt) "t = Alternation"
    | (opt) "t = ZeroOrOne \<or> t = LazyZeroOrOne" | (star) "t = ZeroOrMore \<or> t = LazyZeroOrMore"
    | (plus) "t = OneOrMore \<or> t = LazyOneOrMore"
    | (cap) "t \<notin> {Catenation, Alternation, ZeroOrOne, LazyZeroOrOne, ZeroOrMore, LazyZeroOrMore, OneOrMore, LazyOneOrMore}"
        "CaptureGroup \<le> t \<and> t < CaptureGroup + of_nat MaxCaptures"
    | (atom) "t \<notin> {Catenation, Alternation, ZeroOrOne, LazyZeroOrOne, ZeroOrMore, LazyZeroOrMore, OneOrMore, LazyOneOrMore}"
        "\<not> (CaptureGroup \<le> t \<and> t < CaptureGroup + of_nat MaxCaptures)"
    by blast
  then show ?thesis
  proof cases
    case cat
    with ast obtain r l rs0 where rs: "rs = r # l # rs0" "rs' = Cat l r # rs0"
      by (auto simp: ast_step_def split: list.splits)
    then obtain fr fl fs0 where fs: "fs = fr # fl # fs0" using inv by (auto simp: nfa_inv_def list_all2_Cons1)
    have "vacant ?ss (dangling fl)" using inv fs by (auto simp: nfa_inv_def)
    then show ?thesis using inv_cat [OF inv [unfolded rs fs]] cat rs fs
      by (auto simp: nfa_step_def patch_def foldl_set_slot vacant_def intro!: steps_toI)
  next
    case alt
    with ast obtain r l rs0 where rs: "rs = r # l # rs0" "rs' = Alt l r # rs0"
      by (auto simp: ast_step_def split: list.splits)
    then obtain fr fl fs0 where fs: "fs = fr # fl # fs0" using inv by (auto simp: nfa_inv_def list_all2_Cons1)
    show ?thesis using inv_alt [OF inv [unfolded rs fs]] alt rs fs
      by (auto simp: nfa_step_def create_state_room [OF room1] intro!: steps_toI)
  next
    case opt
    with ast obtain r rs0 where rs: "rs = r # rs0" "rs' = Opt (t = LazyZeroOrOne) r # rs0"
      by (auto simp: ast_step_def split: list.splits)
    with q [of fs r rs0 QZeroOrOne "t = LazyZeroOrOne"] inv opt show ?thesis
      by (auto simp: nfa_step_def quantified_def)
  next
    case star
    with ast obtain r rs0 where rs: "rs = r # rs0" "rs' = Star (t = LazyZeroOrMore) r # rs0"
      by (auto simp: ast_step_def split: list.splits)
    with q [of fs r rs0 QZeroOrMore "t = LazyZeroOrMore"] inv star show ?thesis
      by (auto simp: nfa_step_def quantified_def)
  next
    case plus
    with ast obtain r rs0 where rs: "rs = r # rs0" "rs' = Plus (t = LazyOneOrMore) r # rs0"
      by (auto simp: ast_step_def split: list.splits)
    with q [of fs r rs0 QOneOrMore "t = LazyOneOrMore"] inv plus show ?thesis
      by (auto simp: nfa_step_def quantified_def)
  next
    case cap
    with ast obtain r rs0 where rs: "rs = r # rs0" "rs' = Cap (t - CaptureGroup) r # rs0"
      by (auto simp: ast_step_def split: list.splits)
    then obtain f fs0 where fs: "fs = f # fs0" using inv by (auto simp: nfa_inv_def list_all2_Cons1)
    let ?c = "?ss @ [mk_state (CaptureClose + (t - CaptureGroup)) None None (length ?ss)]"
    have "vacant ?c (dangling f)" using inv fs by (auto simp: nfa_inv_def)
    then have l: "length (foldl (set_slot (Some (length ?ss))) ?c (dangling f)) = Suc (length ?ss)"
      by (subst foldl_set_slot) (auto simp: vacant_def)
    show ?thesis using inv_cap [OF inv [unfolded rs fs] refl refl, of "t - CaptureGroup"] cap rs fs l room
      by (auto simp: nfa_step_def create_state_room patch_def Let_def intro!: steps_toI)
  next
    case atom
    with ast have rs: "rs' = Atom t # rs" by (auto simp: ast_step_def)
    show ?thesis using inv_atom [OF inv, of t] atom rs
      by (auto simp: nfa_step_def create_state_room [OF room1] intro!: steps_toI)
  qed
qed

lemma nfa_step_none:
  assumes inv: "nfa_inv z ss fs rs" and ok: "engine_ok e" and ast: "ast_step t rs = None"
  shows "\<exists>e'. nfa_step t fs e = (e', None) \<and> \<not> engine_ok e'"
proof -
  have l: "length fs = length rs" using inv by (auto simp: nfa_inv_def list_all2_lengthD)
  have n: "length rs < 2 \<and> (t = Catenation \<or> t = Alternation) \<or>
    rs = [] \<and> (t \<in> {ZeroOrOne, LazyZeroOrOne, ZeroOrMore, LazyZeroOrMore, OneOrMore, LazyOneOrMore} \<or>
      CaptureGroup \<le> t \<and> t < CaptureGroup + of_nat MaxCaptures)"
    using ast by (auto simp: ast_step_def split: if_splits list.splits)
  then show ?thesis
  proof
    assume n: "length rs < 2 \<and> (t = Catenation \<or> t = Alternation)"
    then have "fs = [] \<or> (\<exists>f. fs = [f])" using l by (cases fs; cases "tl fs") auto
    with n ok show ?thesis by (auto simp: nfa_step_def set_error_def engine_ok_def)
  next
    assume "rs = [] \<and> (t \<in> {ZeroOrOne, LazyZeroOrOne, ZeroOrMore, LazyZeroOrMore, OneOrMore, LazyOneOrMore} \<or>
      CaptureGroup \<le> t \<and> t < CaptureGroup + of_nat MaxCaptures)"
    moreover then have "fs = []" using l by simp
    ultimately show ?thesis using ok
      by (auto simp: nfa_step_def quantifier_step_def build_quantifier_def set_error_def engine_ok_def Let_def)
  qed
qed

text \<open>What the construction of \<open>r\<close> leaves: the automaton, complete, that accepts in \<open>z\<close>.\<close>

definition automaton_ok :: "state_def list \<Rightarrow> nat \<Rightarrow> rexp \<Rightarrow> nat \<Rightarrow> bool" where
  "automaton_ok ss s r z \<longleftrightarrow> states_ok ss \<and> final ss z \<and> s < length ss \<and> compiled ss s r z"

lemma nfa_loop_compiled:
  assumes "nfa_inv (accept_state e) (owned_states e) fs rs" "engine_ok e"
    "length (owned_states e) + 2 * length ts \<le> states_capacity e" "ast_run ts rs = Some [r]"
  shows "\<exists>ss s. nfa_loop ts fs e = (e\<lparr>owned_states := ss\<rparr>, s) \<and> automaton_ok ss s r (accept_state e) \<and>
    length ss \<le> length (owned_states e) + 2 * length ts"
  using assms
proof (induction ts arbitrary: e fs rs)
  case Nil
  then have "list_all2 (frag_ok (owned_states e)) [r] fs" by (simp add: nfa_inv_def)
  then obtain f where f: "fs = [f]" "frag_ok (owned_states e) r f" by (auto simp: list_all2_Cons1)
  have v: "vacant (owned_states e) (dangling f)" using Nil f by (simp add: nfa_inv_def)
  let ?ss = "foldl (set_slot (Some (accept_state e))) (owned_states e) (dangling f)"
  have l: "length ?ss = length (owned_states e)" using v by (auto simp: vacant_def foldl_set_slot)
  have z: "accept_state e < length (owned_states e)" using Nil by (simp add: nfa_inv_def final_def)
  have "automaton_ok ?ss (frag_start f) r (accept_state e)"
    using Nil f v l z patched_compiled [OF f(2) v grows_refl] frag_ok_start [OF f(2)]
    by (auto simp: automaton_ok_def nfa_inv_def intro!: states_ok_patch final_patch)
  with l f show ?case by (auto simp: patch_def intro!: exI [of _ ?ss])
next
  case (Cons t ts)
  then obtain rs' where rs: "ast_step t rs = Some rs'" "ast_run ts rs' = Some [r]"
    by (auto split: option.splits)
  from nfa_step_some [OF Cons.prems(1) _ Cons.prems(2) rs(1)] Cons.prems(3)
  obtain ss fs' where s: "nfa_step t fs e = (e\<lparr>owned_states := ss\<rparr>, Some fs')"
    "nfa_inv (accept_state e) ss fs' rs'" "length ss \<le> length (owned_states e) + 2"
    by (auto simp: steps_to_def)
  then obtain ss' s' where "nfa_loop ts fs' (e\<lparr>owned_states := ss\<rparr>) = (e\<lparr>owned_states := ss\<rparr>\<lparr>owned_states := ss'\<rparr>, s')"
     "automaton_ok ss' s' r (accept_state (e\<lparr>owned_states := ss\<rparr>))"
     "length ss' \<le> length (owned_states (e\<lparr>owned_states := ss\<rparr>)) + 2 * length ts"
    using Cons.IH [of "e\<lparr>owned_states := ss\<rparr>" fs' rs'] Cons.prems rs by auto
  with s show ?case by (intro exI [of _ ss'] exI [of _ s']) simp
qed

lemma nfa_loop_error:
  assumes "nfa_inv (accept_state e) (owned_states e) fs rs" "engine_ok e"
    "length (owned_states e) + 2 * length ts \<le> states_capacity e" "\<nexists>r. ast_run ts rs = Some [r]"
  shows "\<not> engine_ok (fst (nfa_loop ts fs e))"
  using assms
proof (induction ts arbitrary: e fs rs)
  case Nil
  then have "length fs \<noteq> 1" by (auto simp: nfa_inv_def length_Suc_conv dest!: list_all2_lengthD)
  with Nil show ?case by (auto simp: set_error_def engine_ok_def split: list.splits)
next
  case (Cons t ts)
  show ?case
  proof (cases "ast_step t rs")
    case None
    from nfa_step_none [OF Cons.prems(1,2) None] show ?thesis by auto
  next
    case (Some rs')
    from nfa_step_some [OF Cons.prems(1) _ Cons.prems(2) Some] Cons.prems(3)
    obtain ss fs' where s: "nfa_step t fs e = (e\<lparr>owned_states := ss\<rparr>, Some fs')"
      "nfa_inv (accept_state e) ss fs' rs'" "length ss \<le> length (owned_states e) + 2"
      by (auto simp: steps_to_def)
    with Some Cons.IH [of "e\<lparr>owned_states := ss\<rparr>" fs' rs'] Cons.prems show ?thesis by simp
  qed
qed

text \<open>The engine as the constructor hands it to \<open>postfix_to_nfa\<close>.\<close>

definition ready :: "rune list \<Rightarrow> engine \<Rightarrow> bool" where
  "ready ts e \<longleftrightarrow> engine_ok e \<and> accept_state e = 0 \<and> owned_states e = [mk_state Match None None 0] \<and>
     states_capacity e = 2 * length ts + 1"

lemma ready_inv: "ready ts e \<Longrightarrow> nfa_inv (accept_state e) (owned_states e) [] []"
  by (auto simp: ready_def nfa_inv_def final_def states_ok_def get_slot_def split: slot.splits)

lemma postfix_to_nfa_compiled:
  assumes "ready ts e" "length ts \<le> MaxStates" "postfix_ast ts = Some r"
  shows "\<exists>ss s. postfix_to_nfa ts e = (e\<lparr>owned_states := ss\<rparr>, s) \<and> automaton_ok ss s r 0 \<and>
    length ss \<le> 2 * length ts + 1"
proof -
  have "ts \<noteq> []" "ast_run ts [] = Some [r]"
    using assms(3) by (auto simp: postfix_ast_def split: option.splits list.splits)
  with nfa_loop_compiled [OF ready_inv [OF assms(1)], of ts r] assms(1,2) show ?thesis
    by (auto simp: postfix_to_nfa_def ready_def)
qed

lemma postfix_to_nfa_error:
  assumes "ready ts e" "ts \<noteq> []" "postfix_ast ts = None"
  shows "\<not> engine_ok (fst (postfix_to_nfa ts e))"
proof -
  have "\<nexists>r. ast_run ts [] = Some [r]" using assms(3) by (auto simp: postfix_ast_def)
  with nfa_loop_error [OF ready_inv [OF assms(1)], of ts] assms(1,2) show ?thesis
    by (auto simp: postfix_to_nfa_def ready_def set_error_def engine_ok_def)
qed

subsubsection \<open>Expressions of a token stream\<close>

lemma ast_step_ok:
  assumes "ast_step t rs = Some rs'" "\<forall>r \<in> set rs. rexp_ok r" "plain t"
  shows "\<forall>r \<in> set rs'. rexp_ok r"
proof -
  have "t - CaptureGroup < of_nat MaxCaptures" if "CaptureGroup \<le> t" "t < CaptureGroup + of_nat MaxCaptures"
  proof -
    have "unat (t - CaptureGroup) = unat t - 0xAFFC00" using that(1) by (simp add: unat_sub)
    with that show ?thesis by (simp add: word_less_nat_alt word_le_nat_alt)
  qed
  with assms show ?thesis by (auto simp: ast_step_def split: if_splits list.splits)
qed

lemma ast_run_ok:
  assumes "ast_run ts rs = Some rs'" "\<forall>r \<in> set rs. rexp_ok r" "\<forall>t \<in> set ts. plain t"
  shows "\<forall>r \<in> set rs'. rexp_ok r"
  using assms
proof (induction ts arbitrary: rs)
  case (Cons t ts)
  then obtain rs1 where "ast_step t rs = Some rs1" "ast_run ts rs1 = Some rs'" by (auto split: option.splits)
  moreover from this(1) have "\<forall>r \<in> set rs1. rexp_ok r"
    by (rule ast_step_ok) (use Cons.prems in simp_all)
  ultimately show ?case using Cons.IH [of rs1] Cons.prems(3) by simp
qed simp

lemma postfix_ast_ok: "postfix_ast ts = Some r \<Longrightarrow> \<forall>t \<in> set ts. plain t \<Longrightarrow> rexp_ok r"
  using ast_run_ok [of ts "[]"] by (fastforce simp: postfix_ast_def split: option.splits list.splits)

lemma token_plain:
  assumes "token_ok k n t" "n \<le> MaxCaptures"
  shows "plain t"
proof -
  have "t < 0x200000 \<Longrightarrow> ?thesis" "is_class_ref t \<Longrightarrow> ?thesis"
    by (auto simp: plain_def is_capture_def is_capture_open_def is_capture_close_def is_class_ref_def
        word_less_nat_alt word_le_nat_alt)
  moreover have ?thesis if "i < n" "t = CaptureGroup + of_nat i" for i
  proof -
    have "unat t = 0xAFFC00 + i" using that assms(2) by (simp add: unat_word_ariths unat_of_nat)
    then show ?thesis using that assms(2)
      by (auto simp: plain_def is_capture_def is_capture_open_def is_capture_close_def
        word_less_nat_alt word_le_nat_alt word_unat_eq_iff)
  qed
  ultimately show ?thesis using assms(1)
    by (auto simp: token_ok_def atom_label_def capture_token_def operator_tokens_def plain_def
        is_capture_def is_capture_open_def is_capture_close_def)
qed

end
