(* ===== verification/RegexClosure.thy ===== *)
theory RegexClosure
  imports RegexNfa
begin

text \<open>
  The second half of the \<open>RegexEngine\<close> constructor in \<open>include/trieste/regex_engine.h\<close>:
  \<open>compute_epsilon_closure\<close>, the flat closure cache filled by \<open>precompute_epsilon_closures\<close>
  and read by \<open>epsilon_closure_cached\<close>, \<open>detect_conditional_states\<close>, \<open>finalize_states\<close>,
  \<open>compute_first_char_info\<close>, and the constructor that composes them.

  The lemmas show that a closure is the set of states at which control can rest after
  silent moves, that the cache returns the closure it was filled with, and that a match can
  only begin with a byte that \<open>first_char_info\<close> admits.
\<close>

subsection \<open>compute\_epsilon\_closure\<close>

record ClosureBuilder =
  cb_closure :: "nat list"
  seen_epoch :: "u64 list"
  traversal_epoch :: u64

text \<open>
  What the loop body pushes for a state (last pushed first) and whether the state is
  recorded in the closure.
\<close>

definition closure_pushes :: "state_def \<Rightarrow> bool \<Rightarrow> bool \<Rightarrow> bool \<Rightarrow> nat option list \<times> bool" where
  "closure_pushes st boundary_match at_start at_end =
     (if st_label st = Split then ([st_next st, st_next_alt st], False)
      else if is_capture_open (st_label st) \<or> is_capture_close (st_label st) then ([st_next st], False)
      else if st_label st = WordBoundary then (if boundary_match then [st_next st] else [], False)
      else if st_label st = StartAnchor then (if at_start then [st_next st] else [], False)
      else if st_label st = EndAnchor then (if at_end then [st_next st] else [], False)
      else ([], True))"

definition unseen :: "u64 list \<Rightarrow> u64 \<Rightarrow> nat set" where
  "unseen seen epoch = {i. i < length seen \<and> seen ! i \<noteq> epoch}"

lemma finite_unseen [simp]: "finite (unseen seen epoch)"
  by (simp add: unseen_def)

lemma unseen_update:
  "i < length seen \<Longrightarrow> unseen (seen[i := epoch]) epoch = unseen seen epoch - {i}"
  by (auto simp: unseen_def nth_list_update)

text \<open>
  The \<open>while\<close> loop. The subscript \<open>seen_epoch[seen_idx]\<close> is in range for every state of an
  engine (the lemma \<open>closure_loop_reach\<close> below); outside, where the source is undefined, the
  model stops.
\<close>

function closure_loop ::
  "state_def list \<Rightarrow> bool \<Rightarrow> bool \<Rightarrow> bool \<Rightarrow> u64 \<Rightarrow> nat option list \<Rightarrow> u64 list \<Rightarrow> nat list \<Rightarrow> u64 list \<times> nat list" where
  "closure_loop ss bm as ae current_epoch [] seen closure = (seen, closure)"
| "closure_loop ss bm as ae current_epoch (None # stack) seen closure =
     closure_loop ss bm as ae current_epoch stack seen closure"
| "closure_loop ss bm as ae current_epoch (Some s # stack) seen closure =
     (let seen_idx = closure_index (ss ! s) in
      if length seen \<le> seen_idx then (seen, closure)
      else if seen ! seen_idx = current_epoch then
        closure_loop ss bm as ae current_epoch stack seen closure
      else
        (let (pushed, terminal) = closure_pushes (ss ! s) bm as ae
         in closure_loop ss bm as ae current_epoch (pushed @ stack) (seen[seen_idx := current_epoch])
              (if terminal then closure @ [s] else closure)))"
  by pat_completeness auto
termination
proof (relation "measures [\<lambda>(ss, bm, as, ae, epoch, stack, seen, closure). card (unseen seen epoch),
    \<lambda>(ss, bm, as, ae, epoch, stack, seen, closure). length stack]", goal_cases)
  case (4 ss bm as ae epoch s stack seen closure x xa xb y)
  then have "x \<in> unseen seen epoch" by (simp add: unseen_def)
  from card_Diff1_less [OF finite_unseen this] 4 show ?case by (simp add: unseen_update)
qed auto

definition compute_epsilon_closure ::
  "state_def list \<Rightarrow> nat option \<Rightarrow> bool \<Rightarrow> bool \<Rightarrow> bool \<Rightarrow> ClosureBuilder \<Rightarrow> ClosureBuilder" where
  "compute_epsilon_closure ss state bm as ae builder =
     (let builder = builder\<lparr>cb_closure := []\<rparr> in
      if state = None then builder
      else
        (let builder = builder\<lparr>traversal_epoch := traversal_epoch builder + 1\<rparr>;
             builder = (if traversal_epoch builder = 0
                        then builder\<lparr>traversal_epoch := 1, seen_epoch := map (\<lambda>_. 0) (seen_epoch builder)\<rparr>
                        else builder);
             (seen, closure) =
               closure_loop ss bm as ae (traversal_epoch builder) [state] (seen_epoch builder) []
         in builder\<lparr>seen_epoch := seen, cb_closure := closure\<rparr>))"

subsection \<open>The closure cache\<close>

abbreviation (input) ClosureFlagCombinations :: nat where "ClosureFlagCombinations \<equiv> 8"
abbreviation (input) FlagBoundary :: nat where "FlagBoundary \<equiv> 1"
abbreviation (input) FlagAtStart :: nat where "FlagAtStart \<equiv> 2"
abbreviation (input) FlagAtEnd :: nat where "FlagAtEnd \<equiv> 4"

definition closure_flags :: "bool \<Rightarrow> bool \<Rightarrow> bool \<Rightarrow> nat" where
  "closure_flags boundary_match at_start at_end =
     (if boundary_match then FlagBoundary else 0) OR (if at_start then FlagAtStart else 0)
       OR (if at_end then FlagAtEnd else 0)"

definition detect_conditional_states :: "engine \<Rightarrow> engine" where
  "detect_conditional_states e =
     e\<lparr>has_conditionals := list_ex (\<lambda>s. st_label s = WordBoundary \<or> st_label s = StartAnchor \<or>
        st_label s = EndAnchor) (owned_states e)\<rparr>"

definition num_flag_combos :: "engine \<Rightarrow> nat" where
  "num_flag_combos e = (if has_conditionals e then ClosureFlagCombinations else 1)"

text \<open>The inner loop over \<open>flags\<close>; \<open>None\<close> is the early return when the cache is too large.\<close>

function precompute_flags ::
  "nat \<Rightarrow> nat \<Rightarrow> nat \<Rightarrow> bool \<Rightarrow> ClosureBuilder \<Rightarrow> nat \<Rightarrow> engine \<Rightarrow> engine \<times> (bool \<times> ClosureBuilder \<times> nat) option" where
  "precompute_flags combos i flags trivial builder total_entries e =
     (if flags < combos then
        (let slot = (closure_index (owned_states e ! i) * combos) OR flags;
             e = e\<lparr>closure_cache_offsets :=
                    (closure_cache_offsets e)[slot := of_nat (length (closure_cache_flat e))]\<rparr>;
             builder = compute_epsilon_closure (owned_states e) (Some i)
                         (flags AND 1 \<noteq> 0) (flags AND 2 \<noteq> 0) (flags AND 4 \<noteq> 0) builder;
             e = e\<lparr>closure_cache_flat := closure_cache_flat e @ cb_closure builder\<rparr>;
             total_entries = total_entries + length (cb_closure builder)
         in if MaxClosureCacheEntries < total_entries then (set_error ErrorPatternTooLarge e, None)
            else precompute_flags combos i (flags + 1) (trivial \<and> cb_closure builder = [i])
                   builder total_entries e)
      else (e, Some (trivial, builder, total_entries)))"
  by pat_completeness auto
termination
  by (relation "measure (\<lambda>(combos, i, flags, trivial, builder, total, e). combos - flags)") auto

declare precompute_flags.simps [simp del]

text \<open>The outer loop over \<open>owned_states_\<close>.\<close>

fun precompute_states ::
  "nat \<Rightarrow> nat list \<Rightarrow> ClosureBuilder \<Rightarrow> nat \<Rightarrow> engine \<Rightarrow> engine \<times> bool" where
  "precompute_states combos [] builder total_entries e = (e, True)"
| "precompute_states combos (i # states) builder total_entries e =
     (case precompute_flags combos i 0 True builder total_entries e of
        (e, None) \<Rightarrow> (e, False)
      | (e, Some (trivial, builder, total_entries)) \<Rightarrow>
          precompute_states combos states builder total_entries
            (e\<lparr>owned_states := (owned_states e)[i := (owned_states e ! i)\<lparr>trivial_closure := trivial\<rparr>]\<rparr>))"

definition precompute_epsilon_closures :: "engine \<Rightarrow> engine" where
  "precompute_epsilon_closures e =
     (if \<not> engine_ok e then e
      else
        (let n = length (owned_states e); combos = num_flag_combos e; slot_count = n * combos;
             builder = \<lparr>cb_closure = [], seen_epoch = replicate n 0, traversal_epoch = 0\<rparr>;
             e = e\<lparr>closure_cache_offsets := replicate (slot_count + 1) 0, closure_cache_flat := []\<rparr>;
             (e, completed) = precompute_states combos [0..<n] builder 0 e
         in if \<not> completed then e
            else e\<lparr>closure_cache_offsets :=
                   (closure_cache_offsets e)[slot_count := of_nat (length (closure_cache_flat e))]\<rparr>))"

definition epsilon_closure_cached :: "engine \<Rightarrow> nat option \<Rightarrow> bool \<Rightarrow> bool \<Rightarrow> bool \<Rightarrow> nat list" where
  "epsilon_closure_cached e state boundary_match at_start at_end =
     (case state of
        None \<Rightarrow> []
      | Some s \<Rightarrow>
          (let idx = closure_index (owned_states e ! s);
               slot = (if has_conditionals e
                       then (idx * ClosureFlagCombinations) OR closure_flags boundary_match at_start at_end
                       else idx);
               lo = closure_cache_offsets e ! slot;
               hi = closure_cache_offsets e ! (slot + 1)
           in take (unat (hi - lo)) (drop (unat lo) (closure_cache_flat e))))"

subsection \<open>finalize\_states, compute\_first\_char\_info, the constructor\<close>

definition finalize_state :: "rune_class list \<Rightarrow> state_def \<Rightarrow> state_def" where
  "finalize_state classes s =
     (if is_class_ref (st_label s) then s\<lparr>ascii_accept := ascii_bitmap (classes ! class_ref_index (st_label s))\<rparr>
      else if st_label s < 128 then s\<lparr>ascii_accept := bitmap_set (ascii_accept s) (st_label s)\<rparr>
      else s)"

definition finalize_states :: "engine \<Rightarrow> engine" where
  "finalize_states e =
     (if \<not> engine_ok e then e
      else e\<lparr>state_count := length (owned_states e),
             owned_states := map (finalize_state (eng_classes e)) (owned_states e)\<rparr>)"

definition first_char_add :: "engine \<Rightarrow> FirstCharInfo \<Rightarrow> nat \<Rightarrow> FirstCharInfo" where
  "first_char_add e info s =
     (if s = accept_state e then info\<lparr>can_match_empty := True\<rparr>
      else
        (let st = owned_states e ! s;
             info = info\<lparr>fc_bitmap := bitmap_or (fc_bitmap info) (ascii_accept st)\<rparr>
         in if is_class_ref (st_label st) then
              (if list_ex (\<lambda>range. 128 \<le> snd range) (ranges (eng_classes e ! class_ref_index (st_label st)))
               then info\<lparr>can_match_nonascii := True\<rparr> else info)
            else if 128 \<le> st_label st \<and> st_label st \<noteq> Match then info\<lparr>can_match_nonascii := True\<rparr>
            else info))"

definition combo_closure :: "engine \<Rightarrow> nat \<Rightarrow> nat list" where
  "combo_closure e combo =
     epsilon_closure_cached e (Some (start_state e))
       (has_conditionals e \<and> combo AND FlagBoundary \<noteq> 0)
       (if has_conditionals e then combo AND FlagAtStart \<noteq> 0 else True)
       (has_conditionals e \<and> combo AND FlagAtEnd \<noteq> 0)"

definition compute_first_char_info :: "engine \<Rightarrow> FirstCharInfo" where
  "compute_first_char_info e =
     (if \<not> engine_ok e then fc_maximal
      else foldl (\<lambda>info combo. foldl (first_char_add e) info (combo_closure e combo))
             fc_minimal [0..<num_flag_combos e])"

definition init_engine :: "SyntaxMode \<Rightarrow> engine" where
  "init_engine mode =
     \<lparr>start_state = 0, accept_state = 0, eng_error_code = NoError, eng_error_arg = [],
      has_conditionals = False, eng_num_captures = 0, state_count = 0, eng_syntax_mode = mode,
      owned_states = [], states_capacity = 0, eng_classes = [], closure_cache_flat = [],
      closure_cache_offsets = [], first_char_info = fc_minimal\<rparr>"

text \<open>The parse of the pattern as the constructor sees it: on an error the token stream is empty.\<close>

definition parse_pattern :: "categories \<Rightarrow> bytes \<Rightarrow> engine \<Rightarrow> engine \<times> rune list" where
  "parse_pattern fc pattern e =
     (let (b, okay) = regexp_to_postfix_runes fc (eng_syntax_mode e) pattern
      in if \<not> okay then (set_error_arg (error_code b) (error_arg b) e, [])
         else (e\<lparr>eng_classes := rune_classes b, eng_num_captures := num_captures b\<rparr>, postfix b))"

definition RegexEngine :: "categories \<Rightarrow> bytes \<Rightarrow> SyntaxMode \<Rightarrow> engine" where
  "RegexEngine fc utf8_regexp mode =
     (let (e, tokens) = parse_pattern fc utf8_regexp (init_engine mode);
          e = e\<lparr>states_capacity := 2 * length tokens + 1\<rparr>;
          (e, acc) = create_state Match None None e;
          e = e\<lparr>accept_state := acc\<rparr>;
          (e, st) = postfix_to_nfa tokens e;
          e = e\<lparr>start_state := st\<rparr>;
          e = detect_conditional_states e;
          e = precompute_epsilon_closures e;
          e = finalize_states e
      in e\<lparr>first_char_info := compute_first_char_info e\<rparr>)"

subsection \<open>Closures are reachability\<close>

text \<open>One move without reading, by the label of a state.\<close>

definition eps :: "state_def list \<Rightarrow> bool \<Rightarrow> bool \<Rightarrow> bool \<Rightarrow> (nat \<times> nat) set" where
  "eps ss bm as ae = {(s, t). s < length ss \<and>
     (let l = st_label (ss ! s) in
      if l = Split then st_next (ss ! s) = Some t \<or> st_next_alt (ss ! s) = Some t
      else (is_capture l \<or> l = WordBoundary \<and> bm \<or> l = StartAnchor \<and> as \<or> l = EndAnchor \<and> ae) \<and>
        st_next (ss ! s) = Some t)}"

lemma eps_pushes: "eps ss bm as ae = {(s, t). s < length ss \<and> Some t \<in> set (fst (closure_pushes (ss ! s) bm as ae))}"
  by (auto simp: eps_def closure_pushes_def is_capture_def is_capture_open_def is_capture_close_def Let_def
      split: if_splits)

text \<open>States at which control rests: those that read a rune, and the accepting state.\<close>

definition rests :: "state_def \<Rightarrow> bool" where
  "rests st \<longleftrightarrow> st_label st \<noteq> Split \<and> \<not> is_capture (st_label st) \<and> \<not> is_condition (st_label st)"

lemma closure_pushes_rests: "snd (closure_pushes st bm as ae) = rests st"
  by (auto simp: closure_pushes_def rests_def is_capture_def is_condition_def)

lemma closure_pushes_ok:
  assumes "states_ok ss" "s < length ss" "Some t \<in> set (fst (closure_pushes (ss ! s) bm as ae))"
  shows "t < length ss"
  using assms(3) states_okD(2,3) [OF assms(1,2), of t]
  by (auto simp: closure_pushes_def split: if_splits)

lemma eps_ok: "states_ok ss \<Longrightarrow> (s, t) \<in> eps ss bm as ae \<Longrightarrow> t < length ss"
  by (auto simp: eps_pushes intro: closure_pushes_ok)

definition seen_set :: "u64 list \<Rightarrow> u64 \<Rightarrow> nat set" where
  "seen_set seen epoch = {i. i < length seen \<and> seen ! i = epoch}"

definition pending :: "nat option list \<Rightarrow> nat set" where
  "pending stack = {s. Some s \<in> set stack}"

lemma pending_simps [simp]:
  "pending [] = {}" "pending (None # st) = pending st" "pending (Some s # st) = insert s (pending st)"
  "pending (xs @ ys) = pending xs \<union> pending ys"
  by (auto simp: pending_def)

lemma seen_set_update [simp]:
  "i < length seen \<Longrightarrow> seen_set (seen[i := epoch]) epoch = insert i (seen_set seen epoch)"
  by (auto simp: seen_set_def nth_list_update)

text \<open>What a traversal from \<open>S\<close> adds to the visited states \<open>V\<close> and to the recorded ones.\<close>

definition traversed ::
  "state_def list \<Rightarrow> (nat \<times> nat) set \<Rightarrow> nat set \<Rightarrow> nat set \<Rightarrow> nat set \<Rightarrow> nat list \<Rightarrow> bool" where
  "traversed ss E S V V' new \<longleftrightarrow> V \<subseteq> V' \<and> S \<subseteq> V' \<and> E `` (V' - V) \<subseteq> V' \<and> V' \<subseteq> V \<union> E\<^sup>* `` S \<and>
     distinct new \<and> set new = {s \<in> V' - V. rests (ss ! s)}"

lemma traversed_done: "S \<subseteq> V \<Longrightarrow> traversed ss E S V V []"
  by (auto simp: traversed_def)

lemma traversed_skip: "s \<in> V \<Longrightarrow> traversed ss E S V V' new \<Longrightarrow> traversed ss E (insert s S) V V' new"
  by (auto simp: traversed_def)

lemma traversed_visit:
  assumes "s \<notin> V" "traversed ss E (E `` {s} \<union> S) (insert s V) V' new"
  shows "traversed ss E (insert s S) V V' (if rests (ss ! s) then s # new else new)"
proof -
  have t: "insert s V \<subseteq> V'" "E `` {s} \<union> S \<subseteq> V'" "E `` (V' - insert s V) \<subseteq> V'"
    "V' \<subseteq> insert s V \<union> E\<^sup>* `` (E `` {s} \<union> S)" "distinct new"
    "set new = {x \<in> V' - insert s V. rests (ss ! x)}"
    using assms(2) by (simp_all only: traversed_def)
  have "y \<in> E\<^sup>* `` (insert s S)" if y: "y \<in> E\<^sup>* `` (E `` {s} \<union> S)" for y
  proof -
    from y obtain x where "(s, x) \<in> E \<or> x \<in> S" "(x, y) \<in> E\<^sup>*" by blast
    then show ?thesis by (meson ImageI converse_rtrancl_into_rtrancl insertCI)
  qed
  with t(4) have "V' \<subseteq> V \<union> E\<^sup>* `` (insert s S)" by blast
  moreover have "V \<subseteq> V'" "insert s S \<subseteq> V'" "E `` (V' - V) \<subseteq> V'" using t(1-3) by blast+
  moreover have "set (if rests (ss ! s) then s # new else new) = {x \<in> V' - V. rests (ss ! x)}"
    using t(1,6) assms(1) by auto
  moreover have "distinct (if rests (ss ! s) then s # new else new)" using t(5,6) by simp
  ultimately show ?thesis by (simp only: traversed_def simp_thms)
qed

lemma traversed_top:
  assumes "traversed ss E S {} V' new"
  shows "V' = E\<^sup>* `` S" "set new = {s \<in> E\<^sup>* `` S. rests (ss ! s)}" "distinct new"
proof -
  have "E `` V' \<subseteq> V'" "S \<subseteq> V'" using assms by (auto simp: traversed_def)
  then have "E\<^sup>* `` S \<subseteq> V'" by (metis Image_closed_trancl Image_mono order.refl)
  then show "V' = E\<^sup>* `` S" using assms by (auto simp: traversed_def)
  then show "set new = {s \<in> E\<^sup>* `` S. rests (ss ! s)}" "distinct new" using assms by (auto simp: traversed_def)
qed

lemma closure_loop_reach:
  assumes "states_ok ss" "length seen = length ss" "\<And>s. s \<in> pending stack \<Longrightarrow> s < length ss"
    "closure_loop ss bm as ae epoch stack seen closure = (seen', closure')"
  shows "length seen' = length ss \<and> (\<forall>i. seen' ! i = seen ! i \<or> seen' ! i = epoch) \<and>
    (\<exists>new. closure' = closure @ new \<and>
      traversed ss (eps ss bm as ae) (pending stack) (seen_set seen epoch) (seen_set seen' epoch) new)"
  using assms
proof (induction ss bm as ae epoch stack seen closure rule: closure_loop.induct)
  case (1 ss bm as ae epoch seen closure)
  then show ?case by (auto intro: traversed_done)
next
  case (2 ss bm as ae epoch stack seen closure)
  then show ?case by simp
next
  case (3 ss bm as ae epoch s stack seen closure)
  let ?E = "eps ss bm as ae"
  have s: "s < length ss" using 3(5) by simp
  then have i: "closure_index (ss ! s) = s" "s < length seen"
    using states_okD(1) [OF 3(3)] 3(4) by auto
  show ?case
  proof (cases "seen ! s = epoch")
    case True
    then have "s \<in> seen_set seen epoch" using i by (simp add: seen_set_def)
    moreover have "closure_loop ss bm as ae epoch stack seen closure = (seen', closure')"
      using 3(6) i True by simp
    moreover have "\<And>x. x \<in> pending stack \<Longrightarrow> x < length ss" using 3(5) by simp
    ultimately show ?thesis
      using 3(1) [OF refl _ _ 3(3,4)] i True traversed_skip by fastforce
  next
    case False
    obtain p t where p: "closure_pushes (ss ! s) bm as ae = (p, t)" by fastforce
    have t: "t = rests (ss ! s)" using closure_pushes_rests [of "ss ! s" bm as ae] p by simp
    have E: "pending p = ?E `` {s}" using p s by (auto simp: pending_def eps_pushes)
    have "\<And>x. x \<in> pending (p @ stack) \<Longrightarrow> x < length ss"
      using E eps_ok [OF 3(3)] 3(5) by auto
    with 3(2) [OF refl _ _ p [symmetric]] 3(3-) s i False p obtain new where
      "length seen' = length ss" "\<forall>i. seen' ! i = seen[s := epoch] ! i \<or> seen' ! i = epoch"
      "closure' = (if t then closure @ [s] else closure) @ new"
      "traversed ss ?E (pending (p @ stack)) (insert s (seen_set seen epoch)) (seen_set seen' epoch) new"
      by auto
    moreover have "s \<notin> seen_set seen epoch" using False by (simp add: seen_set_def)
    ultimately show ?thesis
      using traversed_visit [of s "seen_set seen epoch" ss ?E "pending stack" "seen_set seen' epoch" new] E t s i
      by (auto simp: nth_list_update split: if_splits)
  qed
qed

subsubsection \<open>The builder between two traversals\<close>

definition builder_fresh :: "nat \<Rightarrow> ClosureBuilder \<Rightarrow> bool" where
  "builder_fresh n b \<longleftrightarrow> length (seen_epoch b) = n \<and> (\<forall>i < n. seen_epoch b ! i \<le> traversal_epoch b)"

definition is_closure :: "state_def list \<Rightarrow> bool \<Rightarrow> bool \<Rightarrow> bool \<Rightarrow> nat \<Rightarrow> nat list \<Rightarrow> bool" where
  "is_closure ss bm as ae s c \<longleftrightarrow> distinct c \<and> set c = {t \<in> (eps ss bm as ae)\<^sup>* `` {s}. rests (ss ! t)}"

lemma word_succ_greater: "(x :: u64) + 1 \<noteq> 0 \<Longrightarrow> y \<le> x \<Longrightarrow> y < x + 1"
  using unatSuc [of x] by (simp add: word_less_nat_alt word_le_nat_alt add.commute)

text \<open>The epoch a traversal begins with marks no state yet, also after the counter wraps.\<close>

lemma closure_loop_closure:
  assumes ok: "states_ok ss" and s: "s < length ss" and l: "length seen = length ss"
    and new: "\<forall>i < length ss. seen ! i < epoch"
    and run: "closure_loop ss bm as ae epoch [Some s] seen [] = (seen', c)"
  shows "length seen' = length ss" "\<forall>i < length ss. seen' ! i \<le> epoch" "is_closure ss bm as ae s c"
proof -
  have e: "seen_set seen epoch = {}" using new l by (auto simp: seen_set_def)
  have *: "length seen' = length ss" "\<forall>i. seen' ! i = seen ! i \<or> seen' ! i = epoch"
    "traversed ss (eps ss bm as ae) {s} {} (seen_set seen' epoch) c"
    using closure_loop_reach [OF ok l _ run] s e by auto
  show "length seen' = length ss" by (rule *)
  show "\<forall>i < length ss. seen' ! i \<le> epoch" using *(2) new by (metis order.refl order.strict_implies_order)
  show "is_closure ss bm as ae s c" using traversed_top [OF *(3)] by (auto simp: is_closure_def)
qed

lemma compute_epsilon_closure_correct:
  assumes "states_ok ss" "s < length ss" "builder_fresh (length ss) b"
    "b' = compute_epsilon_closure ss (Some s) bm as ae b"
  shows "builder_fresh (length ss) b' \<and> is_closure ss bm as ae s (cb_closure b')"
proof -
  define epoch where "epoch = (if traversal_epoch b + 1 = 0 then 1 else traversal_epoch b + 1)"
  define seen where "seen = (if traversal_epoch b + 1 = 0 then map (\<lambda>_. 0) (seen_epoch b) else seen_epoch b)"
  obtain seen' c where run: "closure_loop ss bm as ae epoch [Some s] seen [] = (seen', c)" by fastforce
  have b: "length (seen_epoch b) = length ss" "\<forall>i < length ss. seen_epoch b ! i \<le> traversal_epoch b"
    using assms(3) by (auto simp: builder_fresh_def)
  have "length seen = length ss" "\<forall>i < length ss. seen ! i < epoch"
    using b word_succ_greater by (auto simp: seen_def epoch_def)
  note r = closure_loop_closure [OF assms(1,2) this run]
  have "b' = b\<lparr>traversal_epoch := epoch, seen_epoch := seen', cb_closure := c\<rparr>"
    using assms(4) run by (auto simp: compute_epsilon_closure_def epoch_def seen_def Let_def split: if_splits)
  with r show ?thesis by (simp add: builder_fresh_def)
qed

subsubsection \<open>Shapes\<close>

text \<open>Everything but \<open>ascii_accept\<close> and \<open>trivial_closure\<close>, which the last phases fill in.\<close>

definition shape :: "state_def \<Rightarrow> rune \<times> nat option \<times> nat option \<times> nat" where
  "shape st = (st_label st, st_next st, st_next_alt st, closure_index st)"

definition same_shape :: "state_def list \<Rightarrow> state_def list \<Rightarrow> bool" where
  "same_shape ss ss' \<longleftrightarrow> map shape ss = map shape ss'"

lemma same_shape_refl [simp]: "same_shape ss ss"
  by (simp add: same_shape_def)

lemma same_shape_trans: "same_shape a b \<Longrightarrow> same_shape b c \<Longrightarrow> same_shape a c"
  by (simp add: same_shape_def)

lemma same_shape_length: "same_shape ss ss' \<Longrightarrow> length ss' = length ss"
  unfolding same_shape_def by (metis length_map)

lemma same_shape_nth:
  assumes "same_shape ss ss'" "i < length ss"
  shows "st_label (ss' ! i) = st_label (ss ! i)" "st_next (ss' ! i) = st_next (ss ! i)"
    "st_next_alt (ss' ! i) = st_next_alt (ss ! i)" "closure_index (ss' ! i) = closure_index (ss ! i)"
proof -
  have "shape (ss' ! i) = shape (ss ! i)"
    using arg_cong [of _ _ "\<lambda>xs. xs ! i", OF assms(1) [unfolded same_shape_def]] assms(2)
      same_shape_length [OF assms(1)] by simp
  then show "st_label (ss' ! i) = st_label (ss ! i)" "st_next (ss' ! i) = st_next (ss ! i)"
    "st_next_alt (ss' ! i) = st_next_alt (ss ! i)" "closure_index (ss' ! i) = closure_index (ss ! i)"
    by (auto simp: shape_def)
qed

lemma same_shape_pushes:
  "same_shape ss ss' \<Longrightarrow> i < length ss \<Longrightarrow> closure_pushes (ss' ! i) bm as ae = closure_pushes (ss ! i) bm as ae"
  by (simp add: closure_pushes_def same_shape_nth)

lemma same_shape_eps: "same_shape ss ss' \<Longrightarrow> eps ss' bm as ae = eps ss bm as ae"
  by (auto simp: eps_pushes same_shape_pushes same_shape_length)

lemma same_shape_rests: "same_shape ss ss' \<Longrightarrow> i < length ss \<Longrightarrow> rests (ss' ! i) = rests (ss ! i)"
  by (simp add: rests_def same_shape_nth)

lemma same_shape_states_ok: "same_shape ss ss' \<Longrightarrow> states_ok ss' = states_ok ss"
  by (auto simp: states_ok_def get_slot_def same_shape_nth same_shape_length split: slot.splits)

lemma eps_star_ok: "states_ok ss \<Longrightarrow> s < length ss \<Longrightarrow> (s, t) \<in> (eps ss bm as ae)\<^sup>* \<Longrightarrow> t < length ss"
  by (rotate_tac 2) (induction rule: rtrancl_induct; blast intro: eps_ok)

lemma same_shape_closure:
  assumes "same_shape ss ss'" "states_ok ss" "s < length ss"
  shows "is_closure ss' bm as ae s c = is_closure ss bm as ae s c"
proof -
  have "{t \<in> (eps ss bm as ae)\<^sup>* `` {s}. rests (ss' ! t)} = {t \<in> (eps ss bm as ae)\<^sup>* `` {s}. rests (ss ! t)}"
    using same_shape_rests [OF assms(1)] eps_star_ok [OF assms(2,3)] by auto
  then show ?thesis by (simp add: is_closure_def same_shape_eps [OF assms(1)])
qed

subsection \<open>The cache holds the closures\<close>

definition slot_closure :: "state_def list \<Rightarrow> nat \<Rightarrow> nat \<Rightarrow> nat list \<Rightarrow> bool" where
  "slot_closure ss combos j c \<longleftrightarrow>
     is_closure ss (j mod combos AND 1 \<noteq> 0) (j mod combos AND 2 \<noteq> 0) (j mod combos AND 4 \<noteq> 0) (j div combos) c"

definition cache_inv :: "state_def list \<Rightarrow> nat \<Rightarrow> nat list list \<Rightarrow> engine \<Rightarrow> bool" where
  "cache_inv ss combos cs e \<longleftrightarrow>
     engine_ok e \<and> same_shape ss (owned_states e) \<and> length (closure_cache_offsets e) = length ss * combos + 1 \<and>
     closure_cache_flat e = concat cs \<and> length (concat cs) \<le> MaxClosureCacheEntries \<and>
     (\<forall>j < length cs. slot_closure ss combos j (cs ! j) \<and>
        closure_cache_offsets e ! j = of_nat (length (concat (take j cs))))"

text \<open>The members the closure phases leave alone.\<close>

definition core :: "engine \<Rightarrow> nat \<times> nat \<times> rune_class list \<times> bool \<times> nat \<times> SyntaxMode" where
  "core e = (start_state e, accept_state e, eng_classes e, has_conditionals e, eng_num_captures e, eng_syntax_mode e)"

lemma slot_or:
  fixes i flags :: nat
  assumes "combos = 1 \<or> combos = 8" "flags < combos"
  shows "(i * combos) OR flags = i * combos + flags"
proof (cases "combos = 8")
  case True
  have f: "take_bit 3 flags = flags" using assms True by (simp add: take_bit_nat_eq_self_iff)
  have "(i * 8) AND flags = 0"
  proof (rule bit_eqI)
    fix n
    have "\<not> bit flags n" if "3 \<le> n" using f that by (metis bit_take_bit_iff leD)
    moreover have "\<not> bit (i * 8) n" if "n < 3"
      using that by (simp add: bit_push_bit_iff_nat [of 3 i n, unfolded push_bit_eq_mult, simplified])
    ultimately show "bit ((i * 8) AND flags) n = bit 0 n" by (cases "n < 3") (auto simp: bit_and_iff)
  qed
  then show ?thesis using True disjunctive_add_eq_or [of "i * 8" flags] by simp
next
  case False
  with assms show ?thesis by simp
qed

lemma slot_less: "i < (n::nat) \<Longrightarrow> flags < combos \<Longrightarrow> i * combos + flags < n * combos"
  by (metis add_less_cancel_left add.commute less_le_trans mult_Suc mult_le_mono1 Suc_leI)

lemma cache_inv_slot:
  assumes ok: "states_ok ss" and i: "i < length ss" and flags: "combos = 1 \<or> combos = 8" "flags < combos"
    and inv: "cache_inv ss combos cs e" and cs: "length cs = i * combos + flags"
    and b: "builder_fresh (length ss) b"
    and b': "b' = compute_epsilon_closure (owned_states e) (Some i)
      (flags AND 1 \<noteq> 0) (flags AND 2 \<noteq> 0) (flags AND 4 \<noteq> 0) b"
    and room: "length (concat cs) + length (cb_closure b') \<le> MaxClosureCacheEntries"
  shows "builder_fresh (length ss) b'"
    "cache_inv ss combos (cs @ [cb_closure b'])
       (e\<lparr>closure_cache_offsets := (closure_cache_offsets e)
            [(closure_index (owned_states e ! i) * combos) OR flags := of_nat (length (closure_cache_flat e))],
          closure_cache_flat := closure_cache_flat e @ cb_closure b'\<rparr>)"
proof -
  have sh: "same_shape ss (owned_states e)" using inv by (simp add: cache_inv_def)
  note l = same_shape_length [OF sh]
  have idx: "closure_index (owned_states e ! i) = i" using same_shape_nth(4) [OF sh i] states_okD [OF ok i] by simp
  have "states_ok (owned_states e)" "i < length (owned_states e)" "builder_fresh (length (owned_states e)) b"
    using same_shape_states_ok [OF sh] ok i b l by auto
  from compute_epsilon_closure_correct [OF this b']
  have c: "builder_fresh (length ss) b'"
    "is_closure ss (flags AND 1 \<noteq> 0) (flags AND 2 \<noteq> 0) (flags AND 4 \<noteq> 0) i (cb_closure b')"
    using l same_shape_closure [OF sh ok i] by auto
  show "builder_fresh (length ss) b'" by (rule c)
  have "(i * combos + flags) mod combos = flags" "(i * combos + flags) div combos = i"
    using flags by auto
  with c(2) cs have sc: "slot_closure ss combos (length cs) (cb_closure b')" by (simp add: slot_closure_def)
  show "cache_inv ss combos (cs @ [cb_closure b'])
       (e\<lparr>closure_cache_offsets := (closure_cache_offsets e)
            [(closure_index (owned_states e ! i) * combos) OR flags := of_nat (length (closure_cache_flat e))],
          closure_cache_flat := closure_cache_flat e @ cb_closure b'\<rparr>)"
    using inv sc room slot_less [OF i flags(2)] cs slot_or [OF flags, of i] idx
    by (auto simp: cache_inv_def less_Suc_eq nth_append engine_ok_def)
qed

definition flags_done ::
  "state_def list \<Rightarrow> nat \<Rightarrow> nat \<Rightarrow> nat list list \<Rightarrow> bool \<Rightarrow> engine \<Rightarrow> engine \<Rightarrow> (bool \<times> ClosureBuilder \<times> nat) option \<Rightarrow> bool" where
  "flags_done ss combos i cs trivial e e' res \<longleftrightarrow> core e' = core e \<and>
     (case res of
        None \<Rightarrow> \<not> engine_ok e'
      | Some (trivial', b, entries) \<Rightarrow>
          owned_states e' = owned_states e \<and> builder_fresh (length ss) b \<and>
          (\<exists>cs'. cache_inv ss combos (cs @ cs') e' \<and> length (cs @ cs') = Suc i * combos \<and>
             entries = length (concat (cs @ cs')) \<and> (trivial' \<longleftrightarrow> trivial \<and> (\<forall>c \<in> set cs'. c = [i]))))"

lemma flags_done_step:
  assumes "flags_done ss combos i (cs @ [c]) (trivial \<and> c = [i]) e1 e' res"
    "core e1 = core e" "owned_states e1 = owned_states e"
  shows "flags_done ss combos i cs trivial e e' res"
proof (cases res)
  case None
  with assms show ?thesis by (simp add: flags_done_def)
next
  case (Some r)
  obtain t b n where r: "r = (t, b, n)" by (cases r)
  with Some assms(1) obtain cs' where cs': "cache_inv ss combos (cs @ c # cs') e'"
    "length (cs @ c # cs') = Suc i * combos" "n = length (concat (cs @ c # cs'))"
    "t \<longleftrightarrow> (trivial \<and> c = [i]) \<and> (\<forall>c \<in> set cs'. c = [i])"
    by (auto simp: flags_done_def)
  show ?thesis unfolding flags_done_def Some r option.case prod.case
    using assms Some r cs' by (intro conjI exI [of _ "c # cs'"]) (auto simp: flags_done_def)
qed

lemma precompute_flags_done:
  assumes ok: "states_ok ss" "i < length ss" "combos = 1 \<or> combos = 8"
    and "cache_inv ss combos cs e" "length cs = i * combos + flags" "flags \<le> combos"
    "builder_fresh (length ss) b" "entries = length (concat cs)"
    "precompute_flags combos i flags trivial b entries e = (e', res)"
  shows "flags_done ss combos i cs trivial e e' res"
  using assms(4-)
proof (induction "combos - flags" arbitrary: flags trivial b entries e cs)
  case 0
  then have "e' = e" "res = Some (trivial, b, entries)" "length cs = Suc i * combos"
    using precompute_flags.simps [of combos i flags trivial b entries e] by auto
  with 0 show ?case by (auto simp: flags_done_def intro!: exI [of _ "[]"])
next
  case (Suc x)
  define b1 where "b1 = compute_epsilon_closure (owned_states e) (Some i)
      (flags AND 1 \<noteq> 0) (flags AND 2 \<noteq> 0) (flags AND 4 \<noteq> 0) b"
  define e1 where "e1 = e\<lparr>closure_cache_offsets := (closure_cache_offsets e)
            [(closure_index (owned_states e ! i) * combos) OR flags := of_nat (length (closure_cache_flat e))],
          closure_cache_flat := closure_cache_flat e @ cb_closure b1\<rparr>"
  have f: "flags < combos" using Suc(2) by simp
  have c: "core e1 = core e" "owned_states e1 = owned_states e" "engine_ok e1 = engine_ok e"
    by (simp_all add: e1_def core_def engine_ok_def)
  have run: "(if MaxClosureCacheEntries < entries + length (cb_closure b1) then (set_error ErrorPatternTooLarge e1, None)
      else precompute_flags combos i (flags + 1) (trivial \<and> cb_closure b1 = [i]) b1 (entries + length (cb_closure b1)) e1)
    = (e', res)"
    using Suc(8) f by (simp add: precompute_flags.simps [of combos i flags] b1_def e1_def Let_def cong: if_cong)
  show ?case
  proof (cases "MaxClosureCacheEntries < entries + length (cb_closure b1)")
    case True
    with run c Suc(3) show ?thesis
      by (auto simp: flags_done_def set_error_def engine_ok_def cache_inv_def core_def)
  next
    case False
    with Suc(7) have room: "length (concat cs) + length (cb_closure b1) \<le> MaxClosureCacheEntries" by simp
    note n = cache_inv_slot [OF ok f Suc(3,4,6) b1_def room, folded e1_def]
    have "flags_done ss combos i (cs @ [cb_closure b1]) (trivial \<and> cb_closure b1 = [i]) e1 e' res"
      by (rule Suc(1) [OF _ n(2) _ _ n(1)]) (use Suc(2,4,7) f run False in auto)
    then show ?thesis using c(1,2) by (rule flags_done_step)
  qed
qed

definition trivial_ok :: "nat \<Rightarrow> nat list list \<Rightarrow> state_def list \<Rightarrow> nat \<Rightarrow> bool" where
  "trivial_ok combos cs ss m \<longleftrightarrow>
     (\<forall>k < m. trivial_closure (ss ! k) \<longrightarrow> (\<forall>f < combos. cs ! (k * combos + f) = [k]))"

lemma cache_inv_shape:
  "cache_inv ss combos cs e \<Longrightarrow> same_shape (owned_states e) ss' \<Longrightarrow> cache_inv ss combos cs (e\<lparr>owned_states := ss'\<rparr>)"
  by (auto simp: cache_inv_def intro: same_shape_trans)

lemma same_shape_trivial: "same_shape ss (ss[i := (ss ! i)\<lparr>trivial_closure := t\<rparr>])"
proof -
  have "shape ((ss ! i)\<lparr>trivial_closure := t\<rparr>) = shape (ss ! i)" by (simp add: shape_def)
  then show ?thesis by (simp add: same_shape_def map_update) (metis list_update_id map_update)
qed

lemma trivial_ok_step:
  assumes "trivial_ok combos cs ss i" "length cs = i * combos" "length (cs @ cs') = Suc i * combos"
    "t \<longrightarrow> (\<forall>c \<in> set cs'. c = [i])" "i < length ss"
  shows "trivial_ok combos (cs @ cs') (ss[i := (ss ! i)\<lparr>trivial_closure := t\<rparr>]) (Suc i)"
proof -
  have "(cs @ cs') ! (k * combos + f) = [k]"
    if "k < Suc i" "f < combos" "trivial_closure (ss[i := (ss ! i)\<lparr>trivial_closure := t\<rparr>] ! k)" for k f
  proof (cases "k = i")
    case True
    with that assms have "cs' ! f \<in> set cs'" t by (auto intro!: nth_mem)
    with True assms show ?thesis by (auto simp: nth_append)
  next
    case False
    then have "k * combos + f < length cs" using slot_less [of k i f combos] that assms(2) by simp
    with False that assms(1) show ?thesis by (auto simp: nth_append trivial_ok_def)
  qed
  then show ?thesis by (simp add: trivial_ok_def)
qed

lemma precompute_states_done:
  assumes ok: "states_ok ss" "combos = 1 \<or> combos = 8"
    and "cache_inv ss combos cs e" "length cs = i * combos" "builder_fresh (length ss) b"
    "entries = length (concat cs)" "i \<le> length ss" "trivial_ok combos cs (owned_states e) i"
    "precompute_states combos [i..<length ss] b entries e = (e', completed)"
  shows "core e' = core e \<and> (if completed
      then \<exists>cs. cache_inv ss combos cs e' \<and> length cs = length ss * combos \<and>
             trivial_ok combos cs (owned_states e') (length ss)
      else \<not> engine_ok e')"
  using assms(3-)
proof (induction "length ss - i" arbitrary: i e b entries cs)
  case 0
  then have "i = length ss" by simp
  with 0 show ?case by auto
next
  case (Suc x)
  then have i: "i < length ss" by simp
  then have u: "[i..<length ss] = i # [Suc i..<length ss]" by (rule upt_conv_Cons)
  obtain e1 res where f: "precompute_flags combos i 0 True b entries e = (e1, res)" by fastforce
  have d: "flags_done ss combos i cs True e e1 res"
    by (rule precompute_flags_done [OF ok(1) i ok(2) Suc(3) _ _ Suc(5,6) f]) (use Suc(4) in simp_all)
  show ?case
  proof (cases res)
    case None
    with d f Suc(9) u show ?thesis by (simp add: flags_done_def)
  next
    case (Some r)
    obtain t b1 n1 where r: "r = (t, b1, n1)" by (cases r)
    let ?ss = "(owned_states e1)[i := (owned_states e1 ! i)\<lparr>trivial_closure := t\<rparr>]"
    from d Some r obtain cs' where cs': "core e1 = core e" "owned_states e1 = owned_states e"
      "builder_fresh (length ss) b1" "cache_inv ss combos (cs @ cs') e1" "length (cs @ cs') = Suc i * combos"
      "n1 = length (concat (cs @ cs'))" "t \<longleftrightarrow> (\<forall>c \<in> set cs'. c = [i])"
      by (auto simp: flags_done_def)
    have l: "length (owned_states e1) = length ss"
      using cs'(4) same_shape_length by (auto simp: cache_inv_def)
    have "trivial_ok combos (cs @ cs') ?ss (Suc i)"
      by (rule trivial_ok_step [OF _ Suc(4) cs'(5)]) (use Suc(8) cs' l i in auto)
    moreover have "cache_inv ss combos (cs @ cs') (e1\<lparr>owned_states := ?ss\<rparr>)"
      by (rule cache_inv_shape [OF cs'(4) same_shape_trivial])
    moreover have "precompute_states combos [Suc i..<length ss] b1 n1 (e1\<lparr>owned_states := ?ss\<rparr>) = (e', completed)"
      using Suc(9) u f Some r by simp
    moreover have "core (e1\<lparr>owned_states := ?ss\<rparr>) = core e" using cs'(1) by (simp add: core_def)
    ultimately show ?thesis
      using Suc(1) [of "Suc i" "cs @ cs'" "e1\<lparr>owned_states := ?ss\<rparr>" b1 n1] cs' i Suc(2) by simp
  qed
qed

subsubsection \<open>Reading the cache\<close>

lemma concat_segment:
  "j < length cs \<Longrightarrow> take (length (cs ! j)) (drop (length (concat (take j cs))) (concat cs)) = cs ! j"
proof -
  assume j: "j < length cs"
  have "concat cs = concat (take j cs) @ cs ! j @ concat (drop (Suc j) cs)"
    using j by (metis append_take_drop_id concat.simps(2) concat_append Cons_nth_drop_Suc)
  then show ?thesis by simp
qed

definition cache_ok :: "engine \<Rightarrow> bool" where
  "cache_ok e \<longleftrightarrow> (\<forall>s < length (owned_states e). \<forall>bm as ae.
     is_closure (owned_states e) (has_conditionals e \<and> bm) (has_conditionals e \<and> as) (has_conditionals e \<and> ae) s
       (epsilon_closure_cached e (Some s) bm as ae) \<and>
     (trivial_closure (owned_states e ! s) \<longrightarrow> epsilon_closure_cached e (Some s) bm as ae = [s]))"

lemma closure_flags_less: "closure_flags bm as ae < 8"
  by (auto simp: closure_flags_def)

lemma closure_flags_bits:
  "(closure_flags bm as ae AND 1 \<noteq> 0) = bm" "(closure_flags bm as ae AND 2 \<noteq> 0) = as"
  "(closure_flags bm as ae AND 4 \<noteq> 0) = ae"
  by (cases bm; cases as; cases ae; simp add: closure_flags_def)+

lemma cached_slot:
  assumes inv: "cache_inv ss combos cs e" and j: "j < length cs" and l: "length cs = length ss * combos"
    and last: "closure_cache_offsets e ! length cs = of_nat (length (concat cs))"
  shows "take (unat (closure_cache_offsets e ! (j + 1) - closure_cache_offsets e ! j))
           (drop (unat (closure_cache_offsets e ! j)) (closure_cache_flat e)) = cs ! j"
proof -
  let ?n = "\<lambda>j. length (concat (take j cs))"
  have o: "closure_cache_offsets e ! k = of_nat (?n k)" if "k \<le> length cs" for k
    using inv last that by (cases "k = length cs") (auto simp: cache_inv_def)
  have b: "?n k \<le> 1000000" for k
  proof -
    have "concat cs = concat (take k cs) @ concat (drop k cs)" by (metis append_take_drop_id concat_append)
    then have "?n k \<le> length (concat cs)" by simp
    with inv show ?thesis by (simp add: cache_inv_def)
  qed
  have s: "?n (j + 1) = ?n j + length (cs ! j)" using j by (simp add: take_Suc_conv_app_nth)
  have u: "unat (of_nat (?n k) :: u32) = ?n k" for k using b [of k] by (simp add: unat_of_nat)
  have v: "unat (of_nat (length (cs ! j)) :: u32) = length (cs ! j)" using b [of "j + 1"] s by (simp add: unat_of_nat)
  have "of_nat (?n j) \<le> (of_nat (?n (j + 1)) :: u32)" unfolding word_le_nat_alt u using s by simp
  then have "unat (closure_cache_offsets e ! (j + 1) - closure_cache_offsets e ! j) = length (cs ! j)"
    using o [of j] o [of "j + 1"] j s u [of j] u [of "j + 1"] v by (simp add: unat_sub)
  then show ?thesis using concat_segment [OF j] inv o [of j] j u [of j] by (simp add: cache_inv_def)
qed

lemma cache_inv_closure:
  assumes inv: "cache_inv ss combos cs e" and l: "length cs = length ss * combos"
    and last: "closure_cache_offsets e ! length cs = of_nat (length (concat cs))"
    and tr: "trivial_ok combos cs (owned_states e) (length ss)"
    and ok: "states_ok ss" and c: "combos = num_flag_combos e"
  shows "cache_ok e"
proof -
  have sh: "same_shape ss (owned_states e)" using inv by (simp add: cache_inv_def)
  have "is_closure (owned_states e) (has_conditionals e \<and> bm) (has_conditionals e \<and> as) (has_conditionals e \<and> ae) s
      (epsilon_closure_cached e (Some s) bm as ae) \<and>
     (trivial_closure (owned_states e ! s) \<longrightarrow> epsilon_closure_cached e (Some s) bm as ae = [s])"
    if s: "s < length ss" for s bm as ae
  proof -
    define f where "f = (if has_conditionals e then closure_flags bm as ae else 0)"
    have f: "f < combos" and f1: "combos = 1 \<or> combos = 8"
      using closure_flags_less [of bm as ae] c by (auto simp: num_flag_combos_def f_def)
    let ?j = "s * combos + f"
    have j: "?j < length cs" using slot_less [OF s f] l by simp
    have i: "closure_index (owned_states e ! s) = s" using same_shape_nth(4) [OF sh s] states_okD [OF ok s] by simp
    have "slot_closure ss combos ?j (cs ! ?j)" using inv j by (simp add: cache_inv_def)
    then have "is_closure ss (has_conditionals e \<and> bm) (has_conditionals e \<and> as) (has_conditionals e \<and> ae) s (cs ! ?j)"
      using f f1 closure_flags_bits [of bm as ae] c by (auto simp: slot_closure_def f_def num_flag_combos_def)
    moreover have "epsilon_closure_cached e (Some s) bm as ae = cs ! ?j"
      using cached_slot [OF inv j l last] i c slot_or [of combos f s] f f1
      by (auto simp: epsilon_closure_cached_def Let_def f_def num_flag_combos_def closure_flags_less)
    moreover have "trivial_closure (owned_states e ! s) \<longrightarrow> cs ! ?j = [s]"
      using tr s f by (simp add: trivial_ok_def)
    ultimately show ?thesis using same_shape_closure [OF sh ok s] by simp
  qed
  then show ?thesis using same_shape_length [OF sh] by (simp add: cache_ok_def)
qed

lemma precompute_epsilon_closures_ok:
  assumes ok: "states_ok (owned_states e)" and e': "e' = precompute_epsilon_closures e" "engine_ok e'"
  shows "cache_ok e' \<and> same_shape (owned_states e) (owned_states e') \<and> core e' = core e \<and> engine_ok e"
proof -
  have eok: "engine_ok e" using e' by (auto simp: precompute_epsilon_closures_def split: if_splits)
  let ?ss = "owned_states e" and ?k = "num_flag_combos e"
  define b where "b = \<lparr>cb_closure = [], seen_epoch = replicate (length ?ss) 0, traversal_epoch = 0\<rparr>"
  define e0 where "e0 = e\<lparr>closure_cache_offsets := replicate (length ?ss * ?k + 1) 0, closure_cache_flat := []\<rparr>"
  obtain e1 d where run: "precompute_states ?k [0..<length ?ss] b 0 e0 = (e1, d)" by fastforce
  have k: "?k = 1 \<or> ?k = 8" by (simp add: num_flag_combos_def)
  have "core e1 = core e0 \<and> (if d then \<exists>cs. cache_inv ?ss ?k cs e1 \<and> length cs = length ?ss * ?k \<and>
      trivial_ok ?k cs (owned_states e1) (length ?ss) else \<not> engine_ok e1)"
    by (rule precompute_states_done [OF ok k _ _ _ _ _ _ run, of "[]"])
      (use eok in \<open>auto simp: cache_inv_def e0_def builder_fresh_def b_def trivial_ok_def engine_ok_def\<close>)
  moreover have e'': "e' = (if \<not> d then e1 else e1\<lparr>closure_cache_offsets := (closure_cache_offsets e1)
      [length ?ss * ?k := of_nat (length (closure_cache_flat e1))]\<rparr>)"
    using e'(1) run eok by (simp add: precompute_epsilon_closures_def Let_def b_def e0_def)
  ultimately obtain cs where d: d and c: "core e1 = core e0" and cs: "cache_inv ?ss ?k cs e1"
    "length cs = length ?ss * ?k" "trivial_ok ?k cs (owned_states e1) (length ?ss)"
    using e'(2) by (auto split: if_splits)
  have "cache_inv ?ss ?k cs e'" "closure_cache_offsets e' ! length cs = of_nat (length (concat cs))"
    "trivial_ok ?k cs (owned_states e') (length ?ss)"
    using cs d e'' by (auto simp: cache_inv_def engine_ok_def)
  moreover have c': "core e' = core e" using c d e'' by (auto simp: core_def e0_def)
  moreover then have "?k = num_flag_combos e'" by (simp add: core_def num_flag_combos_def)
  ultimately show ?thesis using cache_inv_closure [OF _ cs(2) _ _ ok] eok by (auto simp: cache_inv_def)
qed

subsection \<open>The states the construction leaves\<close>

definition label_ok :: "nat \<Rightarrow> nat \<Rightarrow> rune \<Rightarrow> bool" where
  "label_ok k n l \<longleftrightarrow> l = Split \<or> l = Match \<or> atom_label k l \<or>
     (\<exists>i < n. l = CaptureOpen + of_nat i \<or> l = CaptureClose + of_nat i)"

definition blank :: "nat \<Rightarrow> nat \<Rightarrow> state_def \<Rightarrow> bool" where
  "blank k n s \<longleftrightarrow> label_ok k n (st_label s) \<and> ascii_accept s = (0, 0)"

definition all_blank :: "nat \<Rightarrow> nat \<Rightarrow> engine \<Rightarrow> bool" where
  "all_blank k n e \<longleftrightarrow> list_all (blank k n) (owned_states e)"

lemma blank_set_slot: "list_all (blank k n) ss \<Longrightarrow> list_all (blank k n) (set_slot t ss d)"
  by (cases d; cases "snd d"; cases "fst d < length ss")
    (auto simp: set_slot_def list_all_length nth_list_update blank_def)

lemma all_blank_patch: "all_blank k n e \<Longrightarrow> all_blank k n (patch ds t e)"
proof -
  have "list_all (blank k n) ss \<Longrightarrow> list_all (blank k n) (foldl (set_slot t) ss ds)" for ss t
    by (induction ds arbitrary: ss) (auto simp: blank_set_slot)
  then show "all_blank k n e \<Longrightarrow> all_blank k n (patch ds t e)" by (simp add: all_blank_def patch_def)
qed

lemma all_blank_set_error [simp]: "all_blank k n (set_error c e) = all_blank k n e"
  by (simp add: all_blank_def set_error_def)

lemma all_blank_create:
  "create_state l a b e = (e', s) \<Longrightarrow> all_blank k n e \<Longrightarrow> label_ok k n l \<Longrightarrow> all_blank k n e'"
  by (auto simp: create_state_def all_blank_def blank_def Let_def set_error_def split: if_splits)

lemma label_ok_special [simp]: "label_ok k n Split" "label_ok k n Match"
  by (simp_all add: label_ok_def)

lemma all_blank_quantifier:
  "build_quantifier fs kind lazy e = (e', fs') \<Longrightarrow> all_blank k n e \<Longrightarrow> all_blank k n e'"
  by (auto simp: build_quantifier_def Let_def intro!: all_blank_patch intro: all_blank_create
      split: list.splits QuantifierKind.splits if_splits prod.splits)

lemma token_label:
  assumes "token_ok k n t" "n \<le> MaxCaptures" "t \<notin> set operator_tokens"
  shows "\<not> (CaptureGroup \<le> t \<and> t < CaptureGroup + of_nat MaxCaptures) \<Longrightarrow> label_ok k n t"
    "CaptureGroup \<le> t \<and> t < CaptureGroup + of_nat MaxCaptures \<Longrightarrow>
      label_ok k n (CaptureOpen + (t - CaptureGroup)) \<and> label_ok k n (CaptureClose + (t - CaptureGroup))"
proof -
  have c: "CaptureGroup \<le> t \<and> t < CaptureGroup + of_nat MaxCaptures" if "capture_token n t"
  proof -
    from that obtain i where i: "i < n" "t = CaptureGroup + of_nat i" by (auto simp: capture_token_def)
    then have "unat t = 0xAFFC00 + i" using assms(2) by (simp add: unat_word_ariths unat_of_nat)
    with i assms(2) show ?thesis by (simp add: word_le_nat_alt word_less_nat_alt)
  qed
  have a: "\<not> (CaptureGroup \<le> t \<and> t < CaptureGroup + of_nat MaxCaptures)" if "atom_label k t"
    using that by (auto simp: atom_label_def is_class_ref_def word_le_nat_alt word_less_nat_alt)
  show "label_ok k n t" if "\<not> (CaptureGroup \<le> t \<and> t < CaptureGroup + of_nat MaxCaptures)"
    using assms that c by (auto simp: token_ok_def label_ok_def)
  show "label_ok k n (CaptureOpen + (t - CaptureGroup)) \<and> label_ok k n (CaptureClose + (t - CaptureGroup))"
    if "CaptureGroup \<le> t \<and> t < CaptureGroup + of_nat MaxCaptures"
    using assms that a by (auto simp: token_ok_def label_ok_def capture_token_def)
qed

lemma all_blank_step:
  assumes "nfa_step t fs e = (e', res)" "all_blank k n e" "token_ok k n t" "n \<le> MaxCaptures"
  shows "all_blank k n e'"
proof (cases "t \<in> set operator_tokens")
  case True
  with assms show ?thesis
    by (auto simp: operator_tokens_def nfa_step_def quantifier_step_def Let_def
        intro!: all_blank_patch intro: all_blank_create all_blank_quantifier split: list.splits prod.splits if_splits)
next
  case False
  then have o: "t \<noteq> Catenation" "t \<noteq> Alternation" "\<not> (t = ZeroOrOne \<or> t = LazyZeroOrOne)"
    "\<not> (t = ZeroOrMore \<or> t = LazyZeroOrMore)" "\<not> (t = OneOrMore \<or> t = LazyOneOrMore)"
    by (auto simp: operator_tokens_def)
  note l = token_label [OF assms(3,4) False]
  show ?thesis
  proof (cases "CaptureGroup \<le> t \<and> t < CaptureGroup + of_nat MaxCaptures")
    case True
    from l(2) [OF True] assms(1,2) o True show ?thesis unfolding nfa_step_def
      by (auto simp: Let_def split: list.splits prod.splits intro!: all_blank_patch intro: all_blank_create)
  next
    case False
    with l(1) [OF False] assms(1,2) o show ?thesis unfolding nfa_step_def
      by (auto simp: Let_def split: prod.splits intro: all_blank_create)
  qed
qed

lemma all_blank_loop:
  "nfa_loop ts fs e = (e', s) \<Longrightarrow> all_blank k n e \<Longrightarrow> \<forall>t \<in> set ts. token_ok k n t \<Longrightarrow> n \<le> MaxCaptures \<Longrightarrow>
    all_blank k n e'"
proof (induction ts arbitrary: fs e)
  case Nil
  then show ?case by (auto intro: all_blank_patch split: list.splits)
next
  case (Cons t ts)
  obtain e1 res where s: "nfa_step t fs e = (e1, res)" by fastforce
  with all_blank_step [OF s] Cons.prems have "all_blank k n e1" by simp
  with Cons s show ?case by (auto split: option.splits)
qed

subsection \<open>What a state accepts\<close>

definition accepts :: "rune_class list \<Rightarrow> rune \<Rightarrow> rune \<Rightarrow> bool" where
  "accepts classes label r \<longleftrightarrow>
     (if is_class_ref label then contains (classes ! class_ref_index label) r else label = r)"

lemma ascii_label [simp]: "l < 128 \<Longrightarrow> \<not> is_class_ref l"
  by (auto simp: is_class_ref_def word_less_nat_alt word_le_nat_alt)

lemma label_ok_class_ref:
  assumes "label_ok k n l" "is_class_ref l" "n \<le> MaxCaptures"
  shows "class_ref_index l < k"
proof -
  have "\<not> is_class_ref (CaptureOpen + of_nat i)" "\<not> is_class_ref (CaptureClose + of_nat i)" if "i < n" for i
    using that assms(3) by (auto simp: is_class_ref_def word_le_nat_alt unat_word_ariths unat_of_nat)
  with assms show ?thesis
    by (auto simp: label_ok_def atom_label_def is_class_ref_def word_le_nat_alt word_less_nat_alt)
qed

lemma finalize_state_accepts:
  assumes "blank k n s" "k = length classes" "n \<le> MaxCaptures" "\<forall>rc \<in> set classes. class_ok rc" "r < 128"
  shows "bitmap_test (ascii_accept (finalize_state classes s)) r \<longleftrightarrow> accepts classes (st_label s) r"
proof (cases "is_class_ref (st_label s)")
  case True
  with assms have "class_ok (classes ! class_ref_index (st_label s))"
    by (auto simp: blank_def dest!: label_ok_class_ref)
  with True assms(5) show ?thesis
    by (auto simp: finalize_state_def accepts_def contains_iff class_ok_def)
next
  case False
  with assms show ?thesis
    by (auto simp: finalize_state_def accepts_def blank_def bitmap_test_set)
qed

lemma finalize_state_shape: "shape (finalize_state classes s) = shape s"
  by (simp add: shape_def finalize_state_def)

lemma finalize_states_shape: "same_shape ss (map (finalize_state classes) ss)"
  by (simp add: same_shape_def finalize_state_shape)

subsection \<open>The constructor\<close>

text \<open>The language of a token stream; no tokens is the empty pattern.\<close>

definition tokens_rel :: "(rune \<Rightarrow> nat \<Rightarrow> bool) \<Rightarrow> (rune \<Rightarrow> nat \<Rightarrow> bool) \<Rightarrow> rune list \<Rightarrow> (nat \<times> nat) set" where
  "tokens_rel acc cond ts =
     (if ts = [] then Id else case postfix_ast ts of None \<Rightarrow> {} | Some r \<Rightarrow> rel acc cond r)"

definition engine_inv :: "rune list \<Rightarrow> engine \<Rightarrow> bool" where
  "engine_inv ts e \<longleftrightarrow>
     states_ok (owned_states e) \<and> final (owned_states e) (accept_state e) \<and>
     start_state e < length (owned_states e) \<and> state_count e = length (owned_states e) \<and>
     (\<forall>acc cond i j. ((start_state e, i), (accept_state e, j)) \<in> (edges (owned_states e) acc cond)\<^sup>* \<longleftrightarrow>
        (i, j) \<in> tokens_rel acc cond ts) \<and>
     cache_ok e \<and> eng_num_captures e \<le> MaxCaptures \<and> (\<forall>rc \<in> set (eng_classes e). class_ok rc) \<and>
     (\<forall>s < length (owned_states e). label_ok (length (eng_classes e)) (eng_num_captures e) (st_label (owned_states e ! s)) \<and>
        (\<forall>r < 128. bitmap_test (ascii_accept (owned_states e ! s)) r \<longleftrightarrow>
           accepts (eng_classes e) (st_label (owned_states e ! s)) r) \<and>
        (is_condition (st_label (owned_states e ! s)) \<longrightarrow> has_conditionals e))"

lemma same_shape_edges: "same_shape ss ss' \<Longrightarrow> edges ss' acc cond = edges ss acc cond"
proof -
  assume s: "same_shape ss ss'"
  have "((a, i), (b, j)) \<in> edges ss' acc cond \<longleftrightarrow> ((a, i), (b, j)) \<in> edges ss acc cond" for a i b j
    by (cases "a < length ss") (simp_all add: edges_def same_shape_nth [OF s] same_shape_length [OF s])
  then show ?thesis by auto
qed

lemma same_shape_final: "same_shape ss ss' \<Longrightarrow> final ss' z = final ss z"
  by (auto simp: final_def same_shape_nth same_shape_length)

lemma cached_finalize [simp]:
  assumes "same_shape (owned_states e) ss" "s < length (owned_states e)"
  shows "epsilon_closure_cached (e\<lparr>owned_states := ss, state_count := n\<rparr>) (Some s) bm as ae =
    epsilon_closure_cached e (Some s) bm as ae"
  using assms by (simp add: epsilon_closure_cached_def same_shape_nth)

text \<open>The closure phase leaves labels and acceptance bitmaps as they are.\<close>

lemma precompute_flags_owned:
  "precompute_flags combos i flags trivial b entries e = (e', res) \<Longrightarrow> owned_states e' = owned_states e"
proof (induction combos i flags trivial b entries e rule: precompute_flags.induct)
  case (1 combos i flags trivial b entries e)
  show ?case
  proof (cases "flags < combos")
    case True
    with 1(2) [unfolded precompute_flags.simps [of combos i flags]] 1(1) [OF True refl refl refl refl refl]
    show ?thesis by (auto simp: Let_def set_error_def split: if_splits)
  next
    case False
    with 1(2) show ?thesis by (simp add: precompute_flags.simps [of combos i flags])
  qed
qed

lemma blank_trivial: "list_all (blank k n) ss \<Longrightarrow> list_all (blank k n) (ss[i := (ss ! i)\<lparr>trivial_closure := t\<rparr>])"
  by (cases "i < length ss") (auto simp: list_all_length nth_list_update blank_def)

lemma all_blank_precompute_states:
  "precompute_states combos is b entries e = (e', d) \<Longrightarrow> all_blank k n e \<Longrightarrow> all_blank k n e'"
proof (induction "is" arbitrary: b entries e)
  case (Cons i "is")
  obtain e1 res where f: "precompute_flags combos i 0 True b entries e = (e1, res)" by fastforce
  then have o: "owned_states e1 = owned_states e" by (rule precompute_flags_owned)
  with Cons f show ?case
    by (auto simp: all_blank_def blank_trivial split: option.splits)
qed simp

lemma all_blank_precompute: "all_blank k n e \<Longrightarrow> all_blank k n (precompute_epsilon_closures e)"
proof -
  assume "all_blank k n e"
  then have "all_blank k n (e\<lparr>closure_cache_offsets := os, closure_cache_flat := []\<rparr>)" for os
    by (simp add: all_blank_def)
  from all_blank_precompute_states [OF _ this] \<open>all_blank k n e\<close> show ?thesis
    by (auto simp: precompute_epsilon_closures_def Let_def all_blank_def split: prod.splits)
qed

text \<open>The automaton before the closure phases.\<close>

definition nfa_ok :: "rune list \<Rightarrow> engine \<Rightarrow> bool" where
  "nfa_ok ts e \<longleftrightarrow> states_ok (owned_states e) \<and> final (owned_states e) (accept_state e) \<and>
     start_state e < length (owned_states e) \<and>
     (\<forall>acc cond i j. ((start_state e, i), (accept_state e, j)) \<in> (edges (owned_states e) acc cond)\<^sup>* \<longleftrightarrow>
        (i, j) \<in> tokens_rel acc cond ts) \<and>
     all_blank (length (eng_classes e)) (eng_num_captures e) e \<and>
     eng_num_captures e \<le> MaxCaptures \<and> (\<forall>rc \<in> set (eng_classes e). class_ok rc)"

lemma cache_ok_finalize:
  assumes c: "cache_ok e" and ok: "states_ok (owned_states e)" and s: "same_shape (owned_states e) ss"
    and t: "\<And>i. i < length ss \<Longrightarrow> trivial_closure (ss ! i) = trivial_closure (owned_states e ! i)"
  shows "cache_ok (e\<lparr>owned_states := ss, state_count := n\<rparr>)"
proof -
  note l = same_shape_length [OF s]
  show ?thesis
    unfolding cache_ok_def
    using c cached_finalize [OF s, of _ n] same_shape_closure [OF s ok] t l by (simp add: cache_ok_def)
qed

lemma closure_phases_inv:
  assumes n: "nfa_ok ts e"
    and e1: "e1 = precompute_epsilon_closures (detect_conditional_states e)" "engine_ok e1"
  shows "engine_inv ts ((finalize_states e1)\<lparr>first_char_info := info\<rparr>)"
proof -
  let ?d = "detect_conditional_states e"
  have d: "owned_states ?d = owned_states e" "start_state ?d = start_state e" "accept_state ?d = accept_state e"
    "eng_classes ?d = eng_classes e" "eng_num_captures ?d = eng_num_captures e"
    "\<And>s. s < length (owned_states e) \<Longrightarrow> is_condition (st_label (owned_states e ! s)) \<Longrightarrow> has_conditionals ?d"
    by (auto simp: detect_conditional_states_def list_ex_length is_condition_def)
  have "states_ok (owned_states ?d)" using n d by (simp add: nfa_ok_def)
  from precompute_epsilon_closures_ok [OF this e1]
  have c: "cache_ok e1" and sh: "same_shape (owned_states e) (owned_states e1)" and core: "core e1 = core ?d"
    using d by auto
  let ?ss = "map (finalize_state (eng_classes e1)) (owned_states e1)"
  let ?f = "e1\<lparr>owned_states := ?ss, state_count := length (owned_states e1)\<rparr>"
  note sh2 = finalize_states_shape [of "owned_states e1" "eng_classes e1"]
  have sh3: "same_shape (owned_states e) ?ss" by (rule same_shape_trans [OF sh sh2])
  have ok: "states_ok (owned_states e1)" "states_ok ?ss"
    using n same_shape_states_ok [OF sh] same_shape_states_ok [OF sh3] by (simp_all add: nfa_ok_def)
  have cf: "cache_ok ?f"
    by (rule cache_ok_finalize [OF c ok(1) sh2]) (simp add: finalize_state_def)
  have fin: "(finalize_states e1)\<lparr>first_char_info := info\<rparr> = ?f\<lparr>first_char_info := info\<rparr>"
    using e1(2) by (simp add: finalize_states_def)
  have cf': "cache_ok (?f\<lparr>first_char_info := info\<rparr>)"
    using cf by (simp add: cache_ok_def epsilon_closure_cached_def)
  have "all_blank (length (eng_classes e)) (eng_num_captures e) e1"
    using all_blank_precompute [of _ _ ?d] n d e1(1) by (simp add: nfa_ok_def all_blank_def)
  then have b: "blank (length (eng_classes e1)) (eng_num_captures e1) (owned_states e1 ! s)"
    if "s < length (owned_states e1)" for s
    using that core d by (simp add: all_blank_def list_all_length core_def)
  have cl: "eng_classes e1 = eng_classes e" "eng_num_captures e1 = eng_num_captures e"
    "start_state e1 = start_state e" "accept_state e1 = accept_state e" "has_conditionals e1 = has_conditionals ?d"
    using core d by (simp_all add: core_def)
  have "label_ok (length (eng_classes e1)) (eng_num_captures e1) (st_label (?ss ! s)) \<and>
        (\<forall>r < 128. bitmap_test (ascii_accept (?ss ! s)) r \<longleftrightarrow> accepts (eng_classes e1) (st_label (?ss ! s)) r) \<and>
        (is_condition (st_label (?ss ! s)) \<longrightarrow> has_conditionals e1)"
    if s: "s < length (owned_states e1)" for s
    using finalize_state_accepts [OF b [OF s] refl] b [OF s] s n cl d(6) [of s]
      same_shape_length [OF sh] same_shape_nth(1) [OF sh3, of s] same_shape_nth(1) [OF sh2, of s]
    by (auto simp: nfa_ok_def blank_def)
  then show ?thesis
    unfolding fin engine_inv_def
    using n cf' ok cl same_shape_length [OF sh] same_shape_edges [OF sh3] same_shape_final [OF sh3]
    by (auto simp: nfa_ok_def)
qed

lemma nfa_ok_empty:
  assumes "ready [] e" "start_state e = 0" "eng_num_captures e \<le> MaxCaptures" "\<forall>rc \<in> set (eng_classes e). class_ok rc"
  shows "nfa_ok [] e"
proof -
  have o: "owned_states e = [mk_state Match None None 0]" and z: "accept_state e = 0"
    using assms by (auto simp: ready_def)
  have inv: "nfa_inv 0 (owned_states e) [] []" using ready_inv [OF assms(1)] z by simp
  have "((0, i), y) \<notin> edges (owned_states e) acc cond" for i y acc cond
    using o by (cases y) (auto simp: edges_def)
  then have "((0, i), (0, j)) \<in> (edges (owned_states e) acc cond)\<^sup>* \<longleftrightarrow> i = j" for i j acc cond
    by (auto elim: converse_rtranclE)
  with inv o z assms show ?thesis
    by (auto simp: nfa_ok_def nfa_inv_def tokens_rel_def all_blank_def blank_def mk_state_def)
qed

lemma nfa_ok_tokens:
  assumes "ready ts e" "ts \<noteq> []" "length ts \<le> MaxStates" "eng_num_captures e \<le> MaxCaptures"
    "\<forall>rc \<in> set (eng_classes e). class_ok rc" "\<forall>t \<in> set ts. token_ok (length (eng_classes e)) (eng_num_captures e) t"
    "postfix_to_nfa ts e = (e1, s)" "engine_ok e1"
  shows "nfa_ok ts (e1\<lparr>start_state := s\<rparr>)"
proof -
  obtain r where r: "postfix_ast ts = Some r"
    using postfix_to_nfa_error [OF assms(1,2)] assms(7,8) by fastforce
  have "rexp_ok r" by (rule postfix_ast_ok [OF r]) (use assms(4,6) token_plain in blast)
  from postfix_to_nfa_compiled [OF assms(1,3) r] assms(7)
  obtain ss where ss: "e1 = e\<lparr>owned_states := ss\<rparr>" "automaton_ok ss s r 0" by auto
  have z: "accept_state e = 0" "owned_states e = [mk_state Match None None 0]" using assms(1) by (auto simp: ready_def)
  have "all_blank (length (eng_classes e)) (eng_num_captures e) e"
    using z by (simp add: all_blank_def blank_def mk_state_def)
  then have "all_blank (length (eng_classes e)) (eng_num_captures e) e1"
    using all_blank_loop [of ts "[]" e e1 s] assms(2-7) by (simp add: postfix_to_nfa_def)
  then show ?thesis
    using ss z r assms(2,4,5) compiled_matches [of ss s r 0] \<open>rexp_ok r\<close>
    by (auto simp: nfa_ok_def automaton_ok_def tokens_rel_def all_blank_def)
qed

lemma engine_ok_set_error_arg: "code \<noteq> NoError \<Longrightarrow> \<not> engine_ok (set_error_arg code arg e)"
  by (simp add: engine_ok_def set_error_arg_def)

lemma RegexEngine_inv:
  assumes fc: "categories_ok fc" and e: "e = RegexEngine fc pat mode" "engine_ok e"
  shows "engine_inv (snd (parse_pattern fc pat (init_engine mode))) e"
proof -
  obtain b okay where p: "regexp_to_postfix_runes fc mode pat = (b, okay)" by fastforce
  note inv = regexp_to_postfix_runes_inv [OF p fc]
  obtain e0 ts where t: "parse_pattern fc pat (init_engine mode) = (e0, ts)" by fastforce
  define e1 where "e1 = e0\<lparr>states_capacity := 2 * length ts + 1, owned_states := [mk_state Match None None 0], accept_state := 0\<rparr>"
  obtain e2 s where n: "postfix_to_nfa ts e1 = (e2, s)" by fastforce
  define e3 where "e3 = precompute_epsilon_closures (detect_conditional_states (e2\<lparr>start_state := s\<rparr>))"
  have o: "owned_states e0 = []"
    using t p by (auto simp: parse_pattern_def init_engine_def set_error_arg_def split: if_splits)
  have "create_state Match None None (e0\<lparr>states_capacity := 2 * length ts + 1\<rparr>) =
      (e0\<lparr>states_capacity := 2 * length ts + 1, owned_states := [mk_state Match None None 0]\<rparr>, 0)"
    using o by (simp add: create_state_room)
  then have e': "e = (finalize_states e3)\<lparr>first_char_info := compute_first_char_info (finalize_states e3)\<rparr>"
    using e(1) t n by (simp add: RegexEngine_def Let_def e1_def e3_def)
  then have ok3: "engine_ok e3" using e(2) by (auto simp: engine_ok_def finalize_states_def split: if_splits)
  then have "engine_ok (detect_conditional_states (e2\<lparr>start_state := s\<rparr>))"
    by (auto simp: e3_def precompute_epsilon_closures_def split: if_splits)
  then have ok2: "engine_ok e2" by (simp add: engine_ok_def detect_conditional_states_def)
  have okay
  proof (rule ccontr)
    assume "\<not> okay"
    then have "ts = []" "\<not> engine_ok e0"
      using t p inv by (auto simp: parse_pattern_def init_engine_def engine_ok_set_error_arg split: if_splits)
    then show False using n ok2 by (auto simp: postfix_to_nfa_def e1_def engine_ok_def)
  qed
  then have e0: "ts = postfix b" "eng_classes e0 = rune_classes b" "eng_num_captures e0 = num_captures b" "engine_ok e0"
    using t p by (auto simp: parse_pattern_def init_engine_def engine_ok_def)
  have bi: "builder_inv b" "length ts \<le> MaxStates" using inv \<open>okay\<close> e0 by auto
  have r: "ready ts e1" using e0 by (simp add: ready_def e1_def engine_ok_def)
  have c: "eng_num_captures e1 \<le> MaxCaptures" "\<forall>rc \<in> set (eng_classes e1). class_ok rc"
    "\<forall>t \<in> set ts. token_ok (length (eng_classes e1)) (eng_num_captures e1) t"
    using bi e0 by (auto simp: e1_def inv_defs)
  have "nfa_ok ts (e2\<lparr>start_state := s\<rparr>)"
  proof (cases "ts = []")
    case True
    then have "e2\<lparr>start_state := s\<rparr> = e1\<lparr>start_state := 0\<rparr>" using n by (auto simp: postfix_to_nfa_def e1_def)
    moreover have "ready [] (e1\<lparr>start_state := 0\<rparr>)" using r True by (simp add: ready_def engine_ok_def)
    ultimately show ?thesis using nfa_ok_empty [of "e1\<lparr>start_state := 0\<rparr>"] c True by simp
  next
    case False
    show ?thesis by (rule nfa_ok_tokens [OF r False bi(2) c n ok2])
  qed
  from closure_phases_inv [OF this e3_def ok3] show ?thesis using e' t by simp
qed

subsection \<open>When construction succeeds\<close>

lemma closure_length:
  assumes "is_closure ss bm as ae s c" "states_ok ss" "s < length ss"
  shows "length c \<le> length ss"
proof -
  have "set c \<subseteq> {..<length ss}" using assms eps_star_ok by (auto simp: is_closure_def)
  then have "card (set c) \<le> length ss" using card_mono [of "{..<length ss}" "set c"] by simp
  moreover have "card (set c) = length c" using assms(1) by (intro distinct_card) (simp add: is_closure_def)
  ultimately show ?thesis by simp
qed

lemma precompute_flags_room:
  assumes ok: "states_ok ss" "i < length ss" "combos = 1 \<or> combos = 8"
    and "cache_inv ss combos cs e" "length cs = i * combos + flags" "flags \<le> combos"
    "builder_fresh (length ss) b" "entries = length (concat cs)"
    "entries + (combos - flags) * length ss \<le> MaxClosureCacheEntries"
    "precompute_flags combos i flags trivial b entries e = (e', res)"
  shows "\<exists>t b' n. res = Some (t, b', n) \<and> n \<le> entries + (combos - flags) * length ss"
  using assms(4-)
proof (induction "combos - flags" arbitrary: flags trivial b entries e cs)
  case 0
  then show ?case using precompute_flags.simps [of combos i flags trivial b entries e] by auto
next
  case (Suc x)
  define b1 where "b1 = compute_epsilon_closure (owned_states e) (Some i)
      (flags AND 1 \<noteq> 0) (flags AND 2 \<noteq> 0) (flags AND 4 \<noteq> 0) b"
  define e1 where "e1 = e\<lparr>closure_cache_offsets := (closure_cache_offsets e)
            [(closure_index (owned_states e ! i) * combos) OR flags := of_nat (length (closure_cache_flat e))],
          closure_cache_flat := closure_cache_flat e @ cb_closure b1\<rparr>"
  have f: "flags < combos" "combos - flags = Suc (combos - Suc flags)" using Suc(2) by simp_all
  have sh: "same_shape ss (owned_states e)" using Suc(3) by (simp add: cache_inv_def)
  note l = same_shape_length [OF sh]
  have "states_ok (owned_states e)" "i < length (owned_states e)" "builder_fresh (length (owned_states e)) b"
    using same_shape_states_ok [OF sh] ok Suc(6) l by auto
  from compute_epsilon_closure_correct [OF this b1_def] closure_length [OF _ this(1,2)]
  have c: "length (cb_closure b1) \<le> length ss" using l by auto
  have small: "entries + length (cb_closure b1) + (combos - Suc flags) * length ss \<le> MaxClosureCacheEntries"
    using Suc(8) c unfolding f(2) by simp
  have run: "precompute_flags combos i (flags + 1) (trivial \<and> cb_closure b1 = [i]) b1 (entries + length (cb_closure b1)) e1
    = (e', res)"
    using Suc(9) f(1) small by (simp add: precompute_flags.simps [of combos i flags] b1_def e1_def Let_def cong: if_cong)
  have room: "length (concat cs) + length (cb_closure b1) \<le> MaxClosureCacheEntries" using small Suc(7) by simp
  note n = cache_inv_slot [OF ok f(1) Suc(3,4,6) b1_def room, folded e1_def]
  have "\<exists>t b' n. res = Some (t, b', n) \<and> n \<le> entries + length (cb_closure b1) + (combos - Suc flags) * length ss"
    using Suc(1) [OF _ n(2) _ _ n(1) _ _ run] Suc(2,4,7) f(1) small by simp
  with c show ?case unfolding f(2) by fastforce
qed

lemma precompute_states_room:
  assumes ok: "states_ok ss" "combos = 1 \<or> combos = 8"
    and "cache_inv ss combos cs e" "length cs = i * combos" "builder_fresh (length ss) b"
    "entries = length (concat cs)" "i \<le> length ss"
    "entries + (length ss - i) * (combos * length ss) \<le> MaxClosureCacheEntries"
  shows "snd (precompute_states combos [i..<length ss] b entries e)"
  using assms(3-)
proof (induction "length ss - i" arbitrary: i e b entries cs)
  case 0
  then show ?case by simp
next
  case (Suc x)
  then have i: "i < length ss" and x: "length ss - i = Suc (length ss - Suc i)" by simp_all
  then have u: "[i..<length ss] = i # [Suc i..<length ss]" by (simp add: upt_conv_Cons)
  obtain e1 res where f: "precompute_flags combos i 0 True b entries e = (e1, res)" by fastforce
  have d: "flags_done ss combos i cs True e e1 res"
    by (rule precompute_flags_done [OF ok(1) i ok(2) Suc(3) _ _ Suc(5,6) f]) (use Suc(4) in simp_all)
  have "entries + (combos - 0) * length ss \<le> MaxClosureCacheEntries" using Suc(8) unfolding x by simp
  from precompute_flags_room [OF ok(1) i ok(2) Suc(3) _ _ Suc(5,6) this f] Suc(4)
  obtain t b1 n where r: "res = Some (t, b1, n)" "n \<le> entries + combos * length ss" by auto
  let ?ss = "(owned_states e1)[i := (owned_states e1 ! i)\<lparr>trivial_closure := t\<rparr>]"
  from d r obtain cs' where cs': "builder_fresh (length ss) b1" "cache_inv ss combos (cs @ cs') e1"
    "length (cs @ cs') = Suc i * combos" "n = length (concat (cs @ cs'))"
    by (auto simp: flags_done_def)
  have inv: "cache_inv ss combos (cs @ cs') (e1\<lparr>owned_states := ?ss\<rparr>)"
    by (rule cache_inv_shape [OF cs'(2) same_shape_trivial])
  have "n + (length ss - Suc i) * (combos * length ss) \<le> MaxClosureCacheEntries"
    using Suc(8) r(2) unfolding x by simp
  from Suc(1) [OF _ inv cs'(3,1,4) _ this] i Suc(2) show ?case by (simp add: u f r)
qed

lemma precompute_epsilon_closures_success:
  assumes ok: "states_ok (owned_states e)" "engine_ok e"
    and room: "length (owned_states e) * (num_flag_combos e * length (owned_states e)) \<le> MaxClosureCacheEntries"
  shows "engine_ok (precompute_epsilon_closures e)"
proof -
  let ?ss = "owned_states e" and ?k = "num_flag_combos e"
  define b where "b = \<lparr>cb_closure = [], seen_epoch = replicate (length ?ss) 0, traversal_epoch = 0\<rparr>"
  define e0 where "e0 = e\<lparr>closure_cache_offsets := replicate (length ?ss * ?k + 1) 0, closure_cache_flat := []\<rparr>"
  have k: "?k = 1 \<or> ?k = 8" by (simp add: num_flag_combos_def)
  obtain e1 d where run: "precompute_states ?k [0..<length ?ss] b 0 e0 = (e1, d)" by fastforce
  have inv: "cache_inv ?ss ?k [] e0" using ok(2) by (simp add: cache_inv_def e0_def engine_ok_def)
  have d: "snd (precompute_states ?k [0..<length ?ss] b 0 e0)"
    by (rule precompute_states_room [OF ok(1) k inv]) (use room in \<open>simp_all add: builder_fresh_def b_def\<close>)
  have "core e1 = core e0 \<and> (if d then \<exists>cs. cache_inv ?ss ?k cs e1 \<and> length cs = length ?ss * ?k \<and>
      trivial_ok ?k cs (owned_states e1) (length ?ss) else \<not> engine_ok e1)"
    by (rule precompute_states_done [OF ok(1) k inv _ _ _ _ _ run])
      (simp_all add: builder_fresh_def b_def trivial_ok_def)
  with d run have "engine_ok e1" by (auto simp: cache_inv_def split: if_splits)
  with run d ok(2) show ?thesis
    by (simp add: precompute_epsilon_closures_def Let_def b_def e0_def engine_ok_def)
qed

lemma postfix_to_nfa_length:
  assumes "ready ts e" "length ts \<le> MaxStates" "ts = [] \<or> postfix_ast ts \<noteq> None"
  shows "\<exists>ss s. postfix_to_nfa ts e = (e\<lparr>owned_states := ss\<rparr>, s) \<and> states_ok ss \<and> length ss \<le> 2 * length ts + 1"
proof (cases "ts = []")
  case True
  have "states_ok (owned_states e)" using ready_inv [OF assms(1)] by (simp add: nfa_inv_def)
  moreover have "postfix_to_nfa ts e = (e\<lparr>owned_states := owned_states e\<rparr>, accept_state e)"
    using True by (simp add: postfix_to_nfa_def)
  moreover have "length (owned_states e) \<le> 2 * length ts + 1" using assms(1) by (simp add: ready_def)
  ultimately show ?thesis by blast
next
  case False
  with assms(3) obtain r where "postfix_ast ts = Some r" by auto
  from postfix_to_nfa_compiled [OF assms(1,2) this] show ?thesis by (auto simp: automaton_ok_def)
qed

lemma RegexEngine_success:
  assumes p: "regexp_to_postfix_runes fc mode pat = (b, True)"
    and ast: "postfix b = [] \<or> postfix_ast (postfix b) \<noteq> None"
    and small: "length (postfix b) \<le> 170"
  shows "engine_ok (RegexEngine fc pat mode)" "snd (parse_pattern fc pat (init_engine mode)) = postfix b"
proof -
  define e0 where "e0 = (init_engine mode)\<lparr>eng_classes := rune_classes b, eng_num_captures := num_captures b\<rparr>"
  have t: "parse_pattern fc pat (init_engine mode) = (e0, postfix b)"
    using p by (simp add: parse_pattern_def init_engine_def e0_def)
  then show "snd (parse_pattern fc pat (init_engine mode)) = postfix b" by simp
  define e1 where "e1 = e0\<lparr>states_capacity := 2 * length (postfix b) + 1, owned_states := [mk_state Match None None 0], accept_state := 0\<rparr>"
  have o: "create_state Match None None (e0\<lparr>states_capacity := 2 * length (postfix b) + 1\<rparr>) =
      (e0\<lparr>states_capacity := 2 * length (postfix b) + 1, owned_states := [mk_state Match None None 0]\<rparr>, 0)"
    by (simp add: create_state_room e0_def init_engine_def)
  have "ready (postfix b) e1" by (simp add: ready_def e1_def e0_def init_engine_def engine_ok_def)
  from postfix_to_nfa_length [OF this _ ast] small obtain ss s where
    n: "postfix_to_nfa (postfix b) e1 = (e1\<lparr>owned_states := ss\<rparr>, s)" "states_ok ss" "length ss \<le> 2 * length (postfix b) + 1"
    by auto
  define e2 where "e2 = detect_conditional_states (e1\<lparr>owned_states := ss, start_state := s\<rparr>)"
  have l: "length ss \<le> 341" using n(3) small by simp
  have "length ss * (num_flag_combos e2 * length ss) \<le> 341 * (8 * 341)"
    using l by (intro mult_le_mono) (auto simp: num_flag_combos_def)
  then have "engine_ok (precompute_epsilon_closures e2)"
    by (intro precompute_epsilon_closures_success)
      (use n in \<open>simp_all add: e2_def detect_conditional_states_def e1_def e0_def init_engine_def engine_ok_def\<close>)
  then show "engine_ok (RegexEngine fc pat mode)"
    using t o n(1) by (simp add: RegexEngine_def Let_def e1_def e2_def finalize_states_def engine_ok_def)
qed

end
