(* ===== verification/RegexMatch.thy ===== *)
theory RegexMatch
  imports RegexClosure
begin

text \<open>
  Matching in \<open>include/trieste/regex_engine.h\<close>: \<open>MatchContext\<close> with its two visited sets
  (epochs, and a bitset for automata of at most 128 states) and its arena of capture frames,
  \<open>add_state\<close>, \<open>start_list\<close>, \<open>step\<close>, \<open>is_match\<close>, \<open>add_state_capturing\<close>, both
  \<open>find_prefix\<close> loops, \<open>match\<close> and \<open>search\<close>.

  A context's buffers of states and threads are cleared before every use, so they are local
  here. Statistics are compiled out (\<open>TRIESTE_REGEX_ENGINE_ENABLE_STATS\<close> is 0 by default).
  \<open>npos\<close> as a result is \<open>None\<close>; inside capture frames, where it takes part in arithmetic,
  it is the 64-bit word it is in the source.
\<close>

subsection \<open>MatchContext\<close>

record MatchContext =
  bound_engine :: "nat option"
  epoch_counter :: u64
  visited_states :: "u64 list"
  visited_bits :: "u64 \<times> u64"
  use_bitset :: bool
  capture_frames :: "u64 list"
  capture_frame_slots :: nat

abbreviation (input) BitsetMaxStates :: nat where "BitsetMaxStates \<equiv> 128"
abbreviation (input) npos :: u64 where "npos \<equiv> - 1"

definition new_context :: MatchContext where
  "new_context =
     \<lparr>bound_engine = None, epoch_counter = 0, visited_states = [], visited_bits = (0, 0),
      use_bitset = False, capture_frames = [], capture_frame_slots = 0\<rparr>"

definition ensure_visited_capacity :: "nat \<Rightarrow> MatchContext \<Rightarrow> MatchContext" where
  "ensure_visited_capacity count ctx =
     (if length (visited_states ctx) \<noteq> count then ctx\<lparr>visited_states := replicate count 0\<rparr> else ctx)"

definition bind_engine :: "nat \<Rightarrow> nat \<Rightarrow> MatchContext \<Rightarrow> MatchContext" where
  "bind_engine engine count ctx =
     (let ctx = ctx\<lparr>use_bitset := count \<le> BitsetMaxStates\<rparr> in
      if bound_engine ctx \<noteq> Some engine then
        ctx\<lparr>bound_engine := Some engine, epoch_counter := 0, visited_states := replicate count 0\<rparr>
      else ensure_visited_capacity count ctx)"

definition reset_capture_frames :: "nat \<Rightarrow> MatchContext \<Rightarrow> MatchContext" where
  "reset_capture_frames cap_slots ctx = ctx\<lparr>capture_frame_slots := cap_slots, capture_frames := []\<rparr>"

definition allocate_capture_frame :: "u64 \<Rightarrow> MatchContext \<Rightarrow> MatchContext \<times> nat option" where
  "allocate_capture_frame fill ctx =
     (if MaxCaptureFrameEntries < length (capture_frames ctx) + capture_frame_slots ctx then (ctx, None)
      else (ctx\<lparr>capture_frames := capture_frames ctx @ replicate (capture_frame_slots ctx) fill\<rparr>,
            Some (length (capture_frames ctx) div capture_frame_slots ctx)))"

definition capture_frame_data :: "nat \<Rightarrow> MatchContext \<Rightarrow> u64 list" where
  "capture_frame_data frame ctx =
     take (capture_frame_slots ctx) (drop (frame * capture_frame_slots ctx) (capture_frames ctx))"

definition clone_capture_frame :: "nat \<Rightarrow> MatchContext \<Rightarrow> MatchContext \<times> nat option" where
  "clone_capture_frame frame ctx =
     (if MaxCaptureFrameEntries < length (capture_frames ctx) + capture_frame_slots ctx then (ctx, None)
      else (ctx\<lparr>capture_frames := capture_frames ctx @ capture_frame_data frame ctx\<rparr>,
            Some (length (capture_frames ctx) div capture_frame_slots ctx)))"

definition set_capture :: "nat \<Rightarrow> nat \<Rightarrow> u64 \<Rightarrow> MatchContext \<Rightarrow> MatchContext" where
  "set_capture frame k v ctx =
     ctx\<lparr>capture_frames := (capture_frames ctx)[frame * capture_frame_slots ctx + k := v]\<rparr>"

definition advance_epoch :: "MatchContext \<Rightarrow> u64 \<times> MatchContext" where
  "advance_epoch ctx =
     (let ctx = ctx\<lparr>epoch_counter := epoch_counter ctx + 1\<rparr>;
          ctx = (if epoch_counter ctx = 0
                 then ctx\<lparr>epoch_counter := 1, visited_states := map (\<lambda>_. 0) (visited_states ctx)\<rparr>
                 else ctx)
      in (epoch_counter ctx, ctx))"

definition clear_visited_bitset :: "MatchContext \<Rightarrow> MatchContext" where
  "clear_visited_bitset ctx = ctx\<lparr>visited_bits := (0, 0)\<rparr>"

definition bitset_word :: "u64 \<times> u64 \<Rightarrow> nat \<Rightarrow> u64" where
  "bitset_word bits word = (if word = 0 then fst bits else snd bits)"

definition bitset_test_and_set :: "nat \<Rightarrow> MatchContext \<Rightarrow> MatchContext \<times> bool" where
  "bitset_test_and_set state_index ctx =
     (let word = drop_bit 6 state_index;
          b = push_bit (state_index AND 63) 1;
          w = bitset_word (visited_bits ctx) word
      in if w AND b \<noteq> 0 then (ctx, True)
         else (ctx\<lparr>visited_bits := (if word = 0 then (w OR b, snd (visited_bits ctx))
                                    else (fst (visited_bits ctx), w OR b))\<rparr>, False))"

definition is_visited :: "nat \<Rightarrow> u64 \<Rightarrow> MatchContext \<Rightarrow> bool" where
  "is_visited state_index epoch ctx \<longleftrightarrow> visited_states ctx ! state_index = epoch"

definition mark_visited :: "nat \<Rightarrow> u64 \<Rightarrow> MatchContext \<Rightarrow> MatchContext" where
  "mark_visited state_index epoch ctx = ctx\<lparr>visited_states := (visited_states ctx)[state_index := epoch]\<rparr>"

subsection \<open>Sets of states\<close>

definition is_match :: "engine \<Rightarrow> nat list \<Rightarrow> bool" where
  "is_match e states = list_ex (\<lambda>s. s = accept_state e) states"

definition already_visited :: "u64 \<Rightarrow> nat \<Rightarrow> MatchContext \<Rightarrow> MatchContext \<times> bool" where
  "already_visited epoch idx ctx =
     (if use_bitset ctx then bitset_test_and_set idx ctx
      else if is_visited idx epoch ctx then (ctx, True)
      else (mark_visited idx epoch ctx, False))"

text \<open>The loop that pushes every terminal not visited yet, over any test-and-set operation.\<close>

fun push_unvisited ::
  "(nat \<Rightarrow> 'c \<Rightarrow> 'c \<times> bool) \<Rightarrow> (nat \<Rightarrow> nat) \<Rightarrow> nat list \<Rightarrow> nat list \<Rightarrow> 'c \<Rightarrow> nat list \<times> 'c" where
  "push_unvisited test_and_set index [] states c = (states, c)"
| "push_unvisited test_and_set index (t # terminals) states c =
     (let (c, seen) = test_and_set (index t) c
      in push_unvisited test_and_set index terminals (if seen then states else states @ [t]) c)"

definition add_state ::
  "engine \<Rightarrow> nat list \<Rightarrow> nat option \<Rightarrow> u64 \<Rightarrow> MatchContext \<Rightarrow> bool \<Rightarrow> bool \<Rightarrow> bool \<Rightarrow> nat list \<times> MatchContext" where
  "add_state e states state epoch ctx boundary_match at_start at_end =
     (case state of
        None \<Rightarrow> (states, ctx)
      | Some s \<Rightarrow>
          if trivial_closure (owned_states e ! s) then
            (let (ctx, seen) = already_visited epoch (closure_index (owned_states e ! s)) ctx
             in (if seen then states else states @ [s], ctx))
          else
            push_unvisited (already_visited epoch) (\<lambda>t. closure_index (owned_states e ! t))
              (epsilon_closure_cached e state boundary_match at_start at_end) states ctx)"

definition next_generation :: "u64 \<Rightarrow> MatchContext \<Rightarrow> u64 \<times> MatchContext" where
  "next_generation epoch ctx =
     (if use_bitset ctx then (epoch, clear_visited_bitset ctx) else advance_epoch ctx)"

definition start_list ::
  "engine \<Rightarrow> nat \<Rightarrow> u64 \<Rightarrow> MatchContext \<Rightarrow> bool \<Rightarrow> bool \<Rightarrow> bool \<Rightarrow> nat list \<times> u64 \<times> MatchContext" where
  "start_list e state epoch ctx boundary_match at_start at_end =
     (let (epoch, ctx) = next_generation epoch ctx;
          (states, ctx) = add_state e [] (Some state) epoch ctx boundary_match at_start at_end
      in (states, epoch, ctx))"

definition state_accepts :: "engine \<Rightarrow> rune \<Rightarrow> nat \<Rightarrow> bool" where
  "state_accepts e r s =
     (let st = owned_states e ! s in
      if r < 128 then bitmap_test (ascii_accept st) r
      else if is_class_ref (st_label st) then contains (eng_classes e ! class_ref_index (st_label st)) r
      else st_label st = r)"

fun step_states ::
  "engine \<Rightarrow> rune \<Rightarrow> nat list \<Rightarrow> nat list \<Rightarrow> u64 \<Rightarrow> MatchContext \<Rightarrow> bool \<Rightarrow> bool \<Rightarrow> nat list \<times> MatchContext" where
  "step_states e r [] next_states epoch ctx boundary_match at_end = (next_states, ctx)"
| "step_states e r (s # current_states) next_states epoch ctx boundary_match at_end =
     (let (next_states, ctx) =
            (if state_accepts e r s
             then add_state e next_states (st_next (owned_states e ! s)) epoch ctx boundary_match False at_end
             else (next_states, ctx))
      in step_states e r current_states next_states epoch ctx boundary_match at_end)"

definition step_all ::
  "engine \<Rightarrow> nat list \<Rightarrow> rune \<Rightarrow> u64 \<Rightarrow> MatchContext \<Rightarrow> bool \<Rightarrow> bool \<Rightarrow> nat list \<times> u64 \<times> MatchContext" where
  "step_all e current_states r epoch ctx boundary_match at_end =
     (let (epoch, ctx) = next_generation epoch ctx;
          (next_states, ctx) = step_states e r current_states [] epoch ctx boundary_match at_end
      in (next_states, epoch, ctx))"

subsection \<open>find\_prefix without captures\<close>

text \<open>
  The rune at a position, when there is one: \<open>has_current_rune\<close>, \<open>current_rune\<close> and
  \<open>current_rune_bytes\<close>.
\<close>

definition rune_at :: "bytes \<Rightarrow> nat \<Rightarrow> (rune \<times> nat) option" where
  "rune_at utf8_str pos = (if pos < length utf8_str then Some (decode_rune utf8_str pos) else None)"

definition word_at :: "(rune \<times> nat) option \<Rightarrow> bool" where
  "word_at current = (case current of None \<Rightarrow> False | Some (r, n) \<Rightarrow> is_word_char r)"

lemma decode_rune_width: "pos < length s \<Longrightarrow> decode_rune s pos = (r, n) \<Longrightarrow> 0 < n"
  by (auto simp: decode_rune_def Let_def split: if_splits prod.splits dest: decode_progress)

lemma rune_at_width: "rune_at s pos = Some (r, n) \<Longrightarrow> 0 < n \<and> pos < length s"
  by (auto simp: rune_at_def split: if_splits dest: decode_rune_width)

function prefix_loop ::
  "engine \<Rightarrow> bytes \<Rightarrow> nat \<Rightarrow> (rune \<times> nat) option \<Rightarrow> bool \<Rightarrow> nat list \<Rightarrow> u64 \<Rightarrow> MatchContext \<Rightarrow> nat option \<Rightarrow>
     MatchContext \<times> nat option" where
  "prefix_loop e utf8_str pos None next_is_word states epoch ctx best = (ctx, best)"
| "prefix_loop e utf8_str pos (Some (rune_value, width)) next_is_word states epoch ctx best =
     (if states = [] then (ctx, best)
      else
        (let prev_is_word = next_is_word;
             pos' = pos + width;
             current = rune_at utf8_str pos';
             next_is_word' = (has_conditionals e \<and> word_at current);
             boundary = (has_conditionals e \<and> prev_is_word \<noteq> next_is_word');
             at_end = (has_conditionals e \<and> length utf8_str \<le> pos');
             (states', epoch', ctx') = step_all e states rune_value epoch ctx boundary at_end
         in prefix_loop e utf8_str pos' current next_is_word' states' epoch' ctx'
              (if is_match e states' then Some pos' else best)))"
  by pat_completeness auto
termination
proof (relation "measures [\<lambda>(e, s, pos, cur, nw, states, epoch, ctx, best). if cur = None then 0 else Suc (length s - pos),
    \<lambda>(e, s, pos, cur, nw, states, epoch, ctx, best). case cur of None \<Rightarrow> 0 | Some (r, n) \<Rightarrow> if n = 0 then 1 else 0]",
  goal_cases)
  case (2 e s pos r n nw states epoch ctx best)
  then show ?case
    by (cases "rune_at s (pos + n)") (auto dest!: rune_at_width)
qed simp

definition find_prefix_noncapturing_with_context ::
  "engine \<Rightarrow> nat \<Rightarrow> bytes \<Rightarrow> MatchContext \<Rightarrow> bool \<Rightarrow> bool \<Rightarrow> MatchContext \<times> nat option" where
  "find_prefix_noncapturing_with_context e this utf8_str ctx at_start prev_is_word =
     (let ctx = bind_engine this (state_count e) ctx in
      if \<not> engine_ok e then (ctx, None)
      else
        (let current = rune_at utf8_str 0;
             next_is_word = (has_conditionals e \<and> word_at current);
             boundary = (has_conditionals e \<and> prev_is_word \<noteq> next_is_word);
             at_end = (has_conditionals e \<and> utf8_str = []);
             (states, epoch, ctx) =
               start_list e (start_state e) 0 ctx boundary (has_conditionals e \<and> at_start) at_end
         in prefix_loop e utf8_str 0 current next_is_word states epoch ctx
              (if is_match e states then Some 0 else None)))"

definition find_prefix :: "engine \<Rightarrow> nat \<Rightarrow> bytes \<Rightarrow> MatchContext \<Rightarrow> bool \<Rightarrow> MatchContext \<times> nat option" where
  "find_prefix e this utf8_str ctx at_start =
     find_prefix_noncapturing_with_context e this utf8_str ctx at_start False"

definition regex_match :: "engine \<Rightarrow> nat \<Rightarrow> bytes \<Rightarrow> MatchContext \<Rightarrow> MatchContext \<times> bool" where
  "regex_match e this utf8_str ctx =
     (let (ctx, len) = find_prefix e this utf8_str ctx True in (ctx, len = Some (length utf8_str)))"

subsection \<open>find\_prefix with captures\<close>

type_synonym thread = "nat \<times> nat"

text \<open>
  What the body of \<open>add_state_capturing\<close> pushes for a state (last pushed first), whether it
  becomes a thread, and the context with the frames it cloned.
\<close>

definition capture_pushes ::
  "state_def \<Rightarrow> nat \<Rightarrow> nat \<Rightarrow> bool \<Rightarrow> bool \<Rightarrow> bool \<Rightarrow> MatchContext \<Rightarrow> (nat option \<times> nat) list \<times> bool \<times> MatchContext" where
  "capture_pushes st frame pos boundary_match at_start at_end ctx =
     (if st_label st = Split then ([(st_next st, frame), (st_next_alt st, frame)], False, ctx)
      else if is_capture_open (st_label st) then
        (case clone_capture_frame frame ctx of
           (ctx, None) \<Rightarrow> ([], False, ctx)
         | (ctx, Some next_frame) \<Rightarrow>
             ([(st_next st, next_frame)], False,
              set_capture next_frame (capture_index (st_label st) * 2) (of_nat pos) ctx))
      else if is_capture_close (st_label st) then
        (case clone_capture_frame frame ctx of
           (ctx, None) \<Rightarrow> ([], False, ctx)
         | (ctx, Some next_frame) \<Rightarrow>
             ([(st_next st, next_frame)], False,
              set_capture next_frame (capture_index (st_label st) * 2 + 1) (of_nat pos) ctx))
      else if st_label st = WordBoundary then (if boundary_match then [(st_next st, frame)] else [], False, ctx)
      else if st_label st = StartAnchor then (if at_start then [(st_next st, frame)] else [], False, ctx)
      else if st_label st = EndAnchor then (if at_end then [(st_next st, frame)] else [], False, ctx)
      else ([], True, ctx))"

lemma capture_pushes_visited:
  "capture_pushes st frame pos bm as ae ctx = (pushed, t, ctx') \<Longrightarrow> visited_states ctx' = visited_states ctx"
  by (auto simp: capture_pushes_def clone_capture_frame_def set_capture_def split: if_splits)

text \<open>As in \<open>closure_loop\<close>, the model stops where \<open>visited_states\<close> would be read out of range.\<close>

function capture_loop ::
  "engine \<Rightarrow> nat \<Rightarrow> u64 \<Rightarrow> bool \<Rightarrow> bool \<Rightarrow> bool \<Rightarrow> (nat option \<times> nat) list \<Rightarrow> thread list \<Rightarrow> MatchContext \<Rightarrow>
     thread list \<times> MatchContext" where
  "capture_loop e pos epoch bm as ae [] threads ctx = (threads, ctx)"
| "capture_loop e pos epoch bm as ae ((None, frame) # stack) threads ctx =
     capture_loop e pos epoch bm as ae stack threads ctx"
| "capture_loop e pos epoch bm as ae ((Some s, frame) # stack) threads ctx =
     (let idx = closure_index (owned_states e ! s) in
      if length (visited_states ctx) \<le> idx then (threads, ctx)
      else if is_visited idx epoch ctx then capture_loop e pos epoch bm as ae stack threads ctx
      else
        (let (pushed, terminal, ctx') =
               capture_pushes (owned_states e ! s) frame pos bm as ae (mark_visited idx epoch ctx)
         in capture_loop e pos epoch bm as ae (pushed @ stack)
              (if terminal then threads @ [(s, frame)] else threads) ctx'))"
  by pat_completeness auto
termination
proof (relation "measures [\<lambda>(e, pos, epoch, bm, as, ae, stack, threads, ctx). card (unseen (visited_states ctx) epoch),
    \<lambda>(e, pos, epoch, bm, as, ae, stack, threads, ctx). length stack]", goal_cases)
  case (4 e pos epoch bm as ae s frame stack threads ctx x xa xb y xc ya)
  then have "x \<in> unseen (visited_states ctx) epoch" by (simp add: unseen_def is_visited_def)
  moreover have "visited_states ya = (visited_states ctx)[x := epoch]"
    using 4 capture_pushes_visited [of "owned_states e ! s" frame pos bm as ae "mark_visited x epoch ctx" xb xc ya]
    by (simp add: mark_visited_def)
  ultimately show ?case
    using card_Diff1_less [OF finite_unseen] 4 by (simp add: unseen_update)
qed auto

definition add_state_capturing ::
  "engine \<Rightarrow> thread list \<Rightarrow> nat option \<Rightarrow> nat \<Rightarrow> nat \<Rightarrow> u64 \<Rightarrow> MatchContext \<Rightarrow> bool \<Rightarrow> bool \<Rightarrow> bool \<Rightarrow>
     thread list \<times> MatchContext" where
  "add_state_capturing e threads state caps_frame pos epoch ctx boundary_match at_start at_end =
     capture_loop e pos epoch boundary_match at_start at_end [(state, caps_frame)] threads ctx"

fun step_threads ::
  "engine \<Rightarrow> rune \<Rightarrow> thread list \<Rightarrow> thread list \<Rightarrow> nat \<Rightarrow> u64 \<Rightarrow> MatchContext \<Rightarrow> bool \<Rightarrow> bool \<Rightarrow>
     thread list \<times> MatchContext" where
  "step_threads e r [] next_threads pos epoch ctx boundary at_end = (next_threads, ctx)"
| "step_threads e r ((s, frame) # current_threads) next_threads pos epoch ctx boundary at_end =
     (let (next_threads, ctx) =
            (if state_accepts e r s
             then add_state_capturing e next_threads (st_next (owned_states e ! s)) frame pos epoch ctx boundary False at_end
             else (next_threads, ctx))
      in step_threads e r current_threads next_threads pos epoch ctx boundary at_end)"

definition check_accept :: "engine \<Rightarrow> thread list \<Rightarrow> nat \<Rightarrow> (nat \<times> nat) option \<Rightarrow> (nat \<times> nat) option" where
  "check_accept e threads pos best =
     (case List.find (\<lambda>t. fst t = accept_state e) threads of
        None \<Rightarrow> best
      | Some t \<Rightarrow> Some (pos, snd t))"

text \<open>\<open>best\<close> and \<open>best_caps_frame\<close>, which are set together, are one optional pair.\<close>

function capturing_loop ::
  "engine \<Rightarrow> bytes \<Rightarrow> nat \<Rightarrow> (rune \<times> nat) option \<Rightarrow> bool \<Rightarrow> thread list \<Rightarrow> MatchContext \<Rightarrow> (nat \<times> nat) option \<Rightarrow>
     MatchContext \<times> (nat \<times> nat) option" where
  "capturing_loop e utf8_str pos None next_is_word threads ctx best = (ctx, best)"
| "capturing_loop e utf8_str pos (Some (rune_value, width)) next_is_word threads ctx best =
     (if threads = [] then (ctx, best)
      else
        (let prev_is_word = next_is_word;
             pos' = pos + width;
             current = rune_at utf8_str pos';
             next_is_word' = word_at current;
             boundary = (prev_is_word \<noteq> next_is_word');
             (epoch, ctx) = advance_epoch ctx;
             at_end_now = (length utf8_str \<le> pos');
             (threads', ctx) = step_threads e rune_value threads [] pos' epoch ctx boundary at_end_now
         in capturing_loop e utf8_str pos' current next_is_word' threads' ctx
              (check_accept e threads' pos' best)))"
  by pat_completeness auto
termination
proof (relation "measures [\<lambda>(e, s, pos, cur, nw, threads, ctx, best). if cur = None then 0 else Suc (length s - pos),
    \<lambda>(e, s, pos, cur, nw, threads, ctx, best). case cur of None \<Rightarrow> 0 | Some (r, n) \<Rightarrow> if n = 0 then 1 else 0]",
  goal_cases)
  case (2 e s pos r n nw threads ctx best)
  then show ?case
    by (cases "rune_at s (pos + n)") (auto dest!: rune_at_width)
qed simp

type_synonym Capture = "u64 \<times> u64"

definition read_captures :: "engine \<Rightarrow> nat \<Rightarrow> MatchContext \<Rightarrow> Capture list" where
  "read_captures e frame ctx =
     (let best_caps = capture_frame_data frame ctx
      in map (\<lambda>i. (best_caps ! (i * 2), best_caps ! (i * 2 + 1))) [0..<eng_num_captures e])"

definition find_prefix_with_context ::
  "engine \<Rightarrow> nat \<Rightarrow> bytes \<Rightarrow> MatchContext \<Rightarrow> bool \<Rightarrow> bool \<Rightarrow> MatchContext \<times> Capture list \<times> nat option" where
  "find_prefix_with_context e this utf8_str ctx at_start prev_is_word =
     (let ctx = bind_engine this (state_count e) ctx in
      if \<not> engine_ok e \<or> eng_num_captures e = 0 then
        (let (ctx, len) = find_prefix_noncapturing_with_context e this utf8_str ctx at_start prev_is_word
         in (ctx, [], len))
      else
        (let ctx = reset_capture_frames (2 * eng_num_captures e) ctx;
             current = rune_at utf8_str 0;
             next_is_word = word_at current
         in case allocate_capture_frame npos ctx of
              (ctx, None) \<Rightarrow> (ctx, [], None)
            | (ctx, Some init_caps_frame) \<Rightarrow>
                (let (epoch, ctx) = advance_epoch ctx;
                     (threads, ctx) =
                       add_state_capturing e [] (Some (start_state e)) init_caps_frame 0 epoch ctx
                         (prev_is_word \<noteq> next_is_word) at_start (utf8_str = []);
                     (ctx, best) =
                       capturing_loop e utf8_str 0 current next_is_word threads ctx (check_accept e threads 0 None)
                 in case best of
                      None \<Rightarrow> (ctx, [], None)
                    | Some (len, frame) \<Rightarrow> (ctx, read_captures e frame ctx, Some len))))"

definition find_prefix_captures ::
  "engine \<Rightarrow> nat \<Rightarrow> bytes \<Rightarrow> MatchContext \<Rightarrow> bool \<Rightarrow> MatchContext \<times> Capture list \<times> nat option" where
  "find_prefix_captures e this utf8_str ctx at_start =
     find_prefix_with_context e this utf8_str ctx at_start False"

subsection \<open>search\<close>

definition matched :: "Capture \<Rightarrow> bool" where
  "matched cap \<longleftrightarrow> fst cap \<noteq> npos"

definition shift_capture :: "nat \<Rightarrow> Capture \<Rightarrow> Capture" where
  "shift_capture probe cap = (if matched cap then (fst cap + of_nat probe, snd cap + of_nat probe) else cap)"

definition prev_word :: "bytes \<Rightarrow> nat \<Rightarrow> bool" where
  "prev_word utf8_str probe \<longleftrightarrow> 0 < probe \<and> is_word_char (ucast (utf8_str ! (probe - 1)))"

text \<open>The result is the start and the length of the match, with the captures.\<close>

function search_loop ::
  "engine \<Rightarrow> nat \<Rightarrow> bytes \<Rightarrow> nat \<Rightarrow> Capture list \<Rightarrow> MatchContext \<Rightarrow>
     MatchContext \<times> Capture list \<times> (nat \<times> nat) option" where
  "search_loop e this utf8_str probe captures ctx =
     (if probe \<le> length utf8_str then
        (let (ctx, captures, len) =
               find_prefix_with_context e this (drop probe utf8_str) ctx (probe = 0) (prev_word utf8_str probe)
         in case len of
              Some n \<Rightarrow> (ctx, map (shift_capture probe) captures, Some (probe, n))
            | None \<Rightarrow>
                if probe < length utf8_str then
                  search_loop e this utf8_str (probe + snd (decode_rune utf8_str probe)) captures ctx
                else (ctx, captures, None))
      else (ctx, captures, None))"
  by pat_completeness auto
termination
proof (relation "measure (\<lambda>(e, this, s, probe, captures, ctx). length s - probe)", goal_cases)
  case (2 e this s probe captures ctx)
  obtain r n where "decode_rune s probe = (r, n)" by fastforce
  with 2 decode_rune_width [of probe s r n] show ?case by simp
qed simp

declare search_loop.simps [simp del]

definition search ::
  "engine \<Rightarrow> nat \<Rightarrow> bytes \<Rightarrow> Capture list \<Rightarrow> MatchContext \<Rightarrow> nat \<Rightarrow>
     MatchContext \<times> Capture list \<times> (nat \<times> nat) option" where
  "search e this utf8_str captures ctx start_pos =
     (if \<not> engine_ok e then (ctx, captures, None) else search_loop e this utf8_str start_pos captures ctx)"

subsection \<open>The visited set, an interface with two implementations\<close>

text \<open>
  \<open>already_visited\<close> and the start of a generation are used through this contract only. An
  implementation keeps, per generation (\<open>'e\<close>, the \<open>epoch\<close> variable), a set of indices
  below a capacity.
\<close>

locale visited_set =
  fixes test_and_set :: "'e \<Rightarrow> nat \<Rightarrow> 'c \<Rightarrow> 'c \<times> bool"
    and members :: "'e \<Rightarrow> 'c \<Rightarrow> nat set"
    and valid :: "nat \<Rightarrow> 'e \<Rightarrow> 'c \<Rightarrow> bool"
    and fresh :: "'e \<Rightarrow> 'c \<Rightarrow> 'e \<times> 'c"
  assumes test_and_set_law:
    "valid n ep c \<Longrightarrow> i < n \<Longrightarrow> test_and_set ep i c = (c', seen) \<Longrightarrow>
       valid n ep c' \<and> (seen \<longleftrightarrow> i \<in> members ep c) \<and> members ep c' = insert i (members ep c)"
    and fresh_law: "valid n ep c \<Longrightarrow> fresh ep c = (ep', c') \<Longrightarrow> valid n ep' c' \<and> members ep' c' = {}"
begin

text \<open>The loop pushes exactly the terminals that were not members, once each and in order.\<close>

lemma push_unvisited_spec:
  assumes "valid n ep c" "\<forall>t \<in> set ts. t < n \<and> index t = t"
    "push_unvisited (test_and_set ep) index ts out c = (out', c')"
  shows "valid n ep c' \<and> members ep c' = members ep c \<union> set ts \<and>
    (\<exists>new. out' = out @ new \<and> distinct new \<and> set new = set ts - members ep c)"
  using assms
proof (induction ts arbitrary: out c)
  case (Cons t ts)
  obtain c1 seen where t: "test_and_set ep t c = (c1, seen)" by fastforce
  have l: "valid n ep c1" "seen \<longleftrightarrow> t \<in> members ep c" "members ep c1 = insert t (members ep c)"
    using test_and_set_law [OF Cons.prems(1) _ t] Cons.prems(2) by auto
  have "push_unvisited (test_and_set ep) index ts (if seen then out else out @ [t]) c1 = (out', c')"
    using Cons.prems t by simp
  from Cons.IH [OF l(1) _ this] Cons.prems(2) obtain new where n: "valid n ep c'"
    "members ep c' = members ep c1 \<union> set ts" "out' = (if seen then out else out @ [t]) @ new"
    "distinct new" "set new = set ts - members ep c1" by auto
  then show ?case using l
    by (intro conjI exI [of _ "if seen then new else t # new"]) auto
qed simp

text \<open>A sequence of pushes into one generation collects the union of what is pushed.\<close>

definition collects :: "nat \<Rightarrow> 'e \<Rightarrow> nat list \<Rightarrow> 'c \<Rightarrow> nat set \<Rightarrow> bool" where
  "collects n ep out c S \<longleftrightarrow> valid n ep c \<and> distinct out \<and> set out = S \<and> members ep c = S"

lemma collects_fresh: "valid n ep c \<Longrightarrow> fresh ep c = (ep', c') \<Longrightarrow> collects n ep' [] c' {}"
  using fresh_law by (auto simp: collects_def)

lemma collects_push:
  assumes "collects n ep out c S" "\<forall>t \<in> set ts. t < n \<and> index t = t"
    "push_unvisited (test_and_set ep) index ts out c = (out', c')"
  shows "collects n ep out' c' (S \<union> set ts)"
  using push_unvisited_spec [OF _ assms(2,3)] assms(1) by (auto simp: collects_def)

end

subsubsection \<open>The bitset\<close>

definition bitset_members :: "u64 \<Rightarrow> MatchContext \<Rightarrow> nat set" where
  "bitset_members ep ctx = {i. i < BitsetMaxStates \<and> bit (bitset_word (visited_bits ctx) (i div 64)) (i mod 64)}"

definition bitset_valid :: "nat \<Rightarrow> u64 \<Rightarrow> MatchContext \<Rightarrow> bool" where
  "bitset_valid n ep ctx \<longleftrightarrow> use_bitset ctx \<and> n \<le> BitsetMaxStates"

lemma bitset_index: "drop_bit 6 (i :: nat) = i div 64" "(i :: nat) AND 63 = i mod 64"
proof -
  show "drop_bit 6 i = i div 64" by (simp add: drop_bit_eq_div)
  have "i AND mask 6 = take_bit 6 i" by (rule take_bit_eq_mask [symmetric])
  then show "i AND 63 = i mod 64" by (simp add: take_bit_eq_mod mask_eq_exp_minus_1)
qed

lemma single_bit_test: "k < 64 \<Longrightarrow> (w :: u64) AND push_bit k 1 \<noteq> 0 \<longleftrightarrow> bit w k"
  unfolding bit_eq_iff [of "w AND _"] by (auto simp: bit_simps)

lemma single_bit_set: "k < 64 \<Longrightarrow> j < 64 \<Longrightarrow> bit ((w :: u64) OR push_bit k 1) j \<longleftrightarrow> j = k \<or> bit w j"
  by (auto simp: bit_simps)

lemma bitset_members_set:
  assumes i: "i < BitsetMaxStates"
  shows "snd (bitset_test_and_set i ctx) \<longleftrightarrow> i \<in> bitset_members ep ctx"
    "bitset_members ep (fst (bitset_test_and_set i ctx)) = insert i (bitset_members ep ctx)"
    "use_bitset (fst (bitset_test_and_set i ctx)) = use_bitset ctx"
proof -
  let ?w = "bitset_word (visited_bits ctx) (i div 64)"
  have t: "snd (bitset_test_and_set i ctx) \<longleftrightarrow> bit ?w (i mod 64)"
    using single_bit_test [of "i mod 64" ?w] by (simp add: bitset_test_and_set_def bitset_index Let_def)
  with i show "snd (bitset_test_and_set i ctx) \<longleftrightarrow> i \<in> bitset_members ep ctx" by (simp add: bitset_members_def)
  show "bitset_members ep (fst (bitset_test_and_set i ctx)) = insert i (bitset_members ep ctx)"
  proof (cases "bit ?w (i mod 64)")
    case True
    with t i show ?thesis by (auto simp: bitset_members_def bitset_test_and_set_def Let_def)
  next
    case False
    then have f: "visited_bits (fst (bitset_test_and_set i ctx)) =
        (if i div 64 = 0 then (?w OR push_bit (i mod 64) 1, snd (visited_bits ctx))
         else (fst (visited_bits ctx), ?w OR push_bit (i mod 64) 1))"
      using single_bit_test [of "i mod 64" ?w] by (simp add: bitset_test_and_set_def bitset_index Let_def)
    have "bit (bitset_word (visited_bits (fst (bitset_test_and_set i ctx))) (j div 64)) (j mod 64) \<longleftrightarrow>
        j = i \<or> bit (bitset_word (visited_bits ctx) (j div 64)) (j mod 64)" if j: "j < 128" for j
    proof (cases "j div 64 = i div 64")
      case True
      then have eq: "j mod 64 = i mod 64 \<longleftrightarrow> j = i" by (metis div_mult_mod_eq)
      have "bitset_word (visited_bits (fst (bitset_test_and_set i ctx))) (j div 64) = ?w OR push_bit (i mod 64) 1"
        unfolding f True by (simp add: bitset_word_def)
      moreover have "bit (?w OR push_bit (i mod 64) 1) (j mod 64) \<longleftrightarrow> j mod 64 = i mod 64 \<or> bit ?w (j mod 64)"
        by (rule single_bit_set) simp_all
      ultimately show ?thesis unfolding eq True by (simp only:)
    next
      case False
      have "j div 64 < 2" "i div 64 < 2" using i j by (auto simp: less_mult_imp_div_less)
      with False have "(j div 64 = 0) = (i div 64 \<noteq> 0)" "j \<noteq> i" by auto
      then show ?thesis unfolding f by (simp add: bitset_word_def)
    qed
    with i show ?thesis by (auto simp: bitset_members_def)
  qed
  show "use_bitset (fst (bitset_test_and_set i ctx)) = use_bitset ctx"
    by (simp add: bitset_test_and_set_def Let_def)
qed

interpretation bitset: visited_set
  "\<lambda>ep. bitset_test_and_set" bitset_members bitset_valid "\<lambda>ep ctx. (ep, clear_visited_bitset ctx)"
proof unfold_locales
  fix n ep c i c' seen
  assume "bitset_valid n ep c" "i < n" "bitset_test_and_set i c = (c', seen)"
  then show "bitset_valid n ep c' \<and> (seen \<longleftrightarrow> i \<in> bitset_members ep c) \<and>
      bitset_members ep c' = insert i (bitset_members ep c)"
    using bitset_members_set(1,2) [where ctx = c and ep = ep and i = i]
      bitset_members_set(3) [where ctx = c and i = i] by (auto simp: bitset_valid_def)
next
  fix n ep c ep' c'
  assume "bitset_valid n ep c" "(ep, clear_visited_bitset c) = (ep', c')"
  then show "bitset_valid n ep' c' \<and> bitset_members ep' c' = {}"
    by (auto simp: bitset_valid_def bitset_members_def clear_visited_bitset_def bitset_word_def)
qed

subsubsection \<open>Epochs\<close>

definition epoch_valid :: "nat \<Rightarrow> u64 \<Rightarrow> MatchContext \<Rightarrow> bool" where
  "epoch_valid n ep ctx \<longleftrightarrow> length (visited_states ctx) = n \<and>
     (\<forall>v \<in> set (visited_states ctx). v \<le> epoch_counter ctx) \<and> ep \<le> epoch_counter ctx"

definition epoch_members :: "u64 \<Rightarrow> MatchContext \<Rightarrow> nat set" where
  "epoch_members ep ctx = seen_set (visited_states ctx) ep"

definition epoch_test_and_set :: "u64 \<Rightarrow> nat \<Rightarrow> MatchContext \<Rightarrow> MatchContext \<times> bool" where
  "epoch_test_and_set ep i ctx =
     (if is_visited i ep ctx then (ctx, True) else (mark_visited i ep ctx, False))"

lemma advance_epoch_fresh:
  assumes "\<forall>v \<in> set (visited_states ctx). v \<le> epoch_counter ctx" "advance_epoch ctx = (ep, ctx')"
  shows "epoch_valid (length (visited_states ctx)) ep ctx'" "epoch_members ep ctx' = {}"
    "use_bitset ctx' = use_bitset ctx" "capture_frames ctx' = capture_frames ctx"
    "capture_frame_slots ctx' = capture_frame_slots ctx" "bound_engine ctx' = bound_engine ctx"
proof -
  have n: "v < epoch_counter ctx + 1" if "epoch_counter ctx + 1 \<noteq> 0" "v \<in> set (visited_states ctx)" for v
    using that assms(1) word_succ_greater by blast
  show "epoch_valid (length (visited_states ctx)) ep ctx'"
    using assms(2) n by (auto simp: advance_epoch_def epoch_valid_def Let_def less_imp_le split: if_splits)
  have m: "visited_states ctx ! i \<noteq> epoch_counter ctx + 1"
    if "epoch_counter ctx + 1 \<noteq> 0" "i < length (visited_states ctx)" for i
    using n [OF that(1) nth_mem [OF that(2)]] by auto
  have "visited_states ctx' ! i \<noteq> ep" if "i < length (visited_states ctx')" for i
    using that assms(2) m [of i]
    by (auto simp: advance_epoch_def Let_def split: if_splits)
  then show "epoch_members ep ctx' = {}" by (auto simp: epoch_members_def seen_set_def)
  show "use_bitset ctx' = use_bitset ctx" "capture_frames ctx' = capture_frames ctx"
    "capture_frame_slots ctx' = capture_frame_slots ctx" "bound_engine ctx' = bound_engine ctx"
    using assms(2) by (auto simp: advance_epoch_def Let_def split: if_splits)
qed

interpretation epochs: visited_set
  epoch_test_and_set epoch_members epoch_valid "\<lambda>ep. advance_epoch"
proof unfold_locales
  fix n ep c i c' seen
  assume a: "epoch_valid n ep c" "i < n" "epoch_test_and_set ep i c = (c', seen)"
  then show "epoch_valid n ep c' \<and> (seen \<longleftrightarrow> i \<in> epoch_members ep c) \<and>
      epoch_members ep c' = insert i (epoch_members ep c)"
    by (auto simp: epoch_valid_def epoch_test_and_set_def is_visited_def mark_visited_def epoch_members_def
        seen_set_def nth_list_update dest!: set_update_subset_insert [THEN subsetD] split: if_splits)
next
  fix n ep c ep' c'
  assume "epoch_valid n ep c" "advance_epoch c = (ep', c')"
  then show "epoch_valid n ep' c' \<and> epoch_members ep' c' = {}"
    using advance_epoch_fresh [of c ep' c'] by (auto simp: epoch_valid_def)
qed

subsubsection \<open>The context, which chooses between them\<close>

definition ctx_valid :: "nat \<Rightarrow> u64 \<Rightarrow> MatchContext \<Rightarrow> bool" where
  "ctx_valid n ep ctx \<longleftrightarrow> epoch_valid n ep ctx \<and> (use_bitset ctx \<longrightarrow> bitset_valid n ep ctx)"

definition ctx_members :: "u64 \<Rightarrow> MatchContext \<Rightarrow> nat set" where
  "ctx_members ep ctx = (if use_bitset ctx then bitset_members ep ctx else epoch_members ep ctx)"

lemma bitset_keeps_epochs:
  "epoch_valid n ep (fst (bitset_test_and_set i ctx)) = epoch_valid n ep ctx"
  "epoch_valid n ep (clear_visited_bitset ctx) = epoch_valid n ep ctx"
  by (simp_all add: epoch_valid_def bitset_test_and_set_def clear_visited_bitset_def Let_def)

interpretation ctx: visited_set already_visited ctx_members ctx_valid next_generation
proof unfold_locales
  fix n ep c i c' seen
  assume a: "ctx_valid n ep c" "i < n" "already_visited ep i c = (c', seen)"
  show "ctx_valid n ep c' \<and> (seen \<longleftrightarrow> i \<in> ctx_members ep c) \<and> ctx_members ep c' = insert i (ctx_members ep c)"
  proof (cases "use_bitset c")
    case True
    with a have "bitset_test_and_set i c = (c', seen)" "bitset_valid n ep c"
      by (auto simp: already_visited_def ctx_valid_def)
    with bitset.test_and_set_law [OF this(2) a(2) this(1)] a True show ?thesis
      using bitset_keeps_epochs(1) [of n ep i c] by (auto simp: ctx_valid_def ctx_members_def bitset_valid_def)
  next
    case False
    with a have t: "epoch_test_and_set ep i c = (c', seen)" "epoch_valid n ep c"
      by (auto simp: already_visited_def epoch_test_and_set_def ctx_valid_def)
    moreover have "use_bitset c' = use_bitset c"
      using t(1) by (auto simp: epoch_test_and_set_def mark_visited_def split: if_splits)
    ultimately show ?thesis
      using epochs.test_and_set_law [OF t(2) a(2) t(1)] False by (auto simp: ctx_valid_def ctx_members_def)
  qed
next
  fix n ep c ep' c'
  assume a: "ctx_valid n ep c" "next_generation ep c = (ep', c')"
  show "ctx_valid n ep' c' \<and> ctx_members ep' c' = {}"
  proof (cases "use_bitset c")
    case True
    with a have "(ep, clear_visited_bitset c) = (ep', c')" "bitset_valid n ep c"
      by (auto simp: next_generation_def ctx_valid_def)
    with bitset.fresh_law [OF this(2) this(1)] a True show ?thesis
      using bitset_keeps_epochs(2) [of n ep c] by (auto simp: ctx_valid_def ctx_members_def bitset_valid_def)
  next
    case False
    with a have "advance_epoch c = (ep', c')" "epoch_valid n ep c"
      by (auto simp: next_generation_def ctx_valid_def)
    with epochs.fresh_law [OF this(2) this(1)] advance_epoch_fresh(3) [OF _ this(1)] False show ?thesis
      by (auto simp: ctx_valid_def ctx_members_def epoch_valid_def)
  qed
qed

text \<open>A context between calls: no entry is ahead of its counter. Binding makes it usable.\<close>

definition ctx_ok :: "MatchContext \<Rightarrow> bool" where
  "ctx_ok ctx \<longleftrightarrow> (\<forall>v \<in> set (visited_states ctx). v \<le> epoch_counter ctx)"

lemma new_context_ok: "ctx_ok new_context"
  by (simp add: ctx_ok_def new_context_def)

lemma ctx_valid_ok: "ctx_valid n ep ctx \<Longrightarrow> ctx_ok ctx"
  by (simp add: ctx_valid_def epoch_valid_def ctx_ok_def)

lemma bind_engine_valid: "ctx_ok ctx \<Longrightarrow> ctx_valid n 0 (bind_engine this n ctx)"
  by (auto simp: ctx_ok_def ctx_valid_def epoch_valid_def bitset_valid_def bind_engine_def
      ensure_visited_capacity_def Let_def)

subsection \<open>Inputs\<close>

text \<open>The runes of a string with their widths, from a byte offset on.\<close>

function decode_from :: "bytes \<Rightarrow> nat \<Rightarrow> (rune \<times> nat) list" where
  "decode_from s pos =
     (case rune_at s pos of None \<Rightarrow> [] | Some (r, n) \<Rightarrow> (r, n) # decode_from s (pos + n))"
  by pat_completeness auto
termination
  by (relation "measure (\<lambda>(s, pos). length s - pos)") (auto dest!: rune_at_width)

declare decode_from.simps [simp del]

definition input_runes :: "bytes \<Rightarrow> (rune \<times> nat) list" where
  "input_runes s = decode_from s 0"

definition offset :: "bytes \<Rightarrow> nat \<Rightarrow> nat" where
  "offset s i = sum_list (map snd (take i (input_runes s)))"

lemma offset_0 [simp]: "offset s 0 = 0"
  by (simp add: offset_def)

lemma offset_Suc: "i < length (input_runes s) \<Longrightarrow> offset s (Suc i) = offset s i + snd (input_runes s ! i)"
  by (simp add: offset_def take_Suc_conv_app_nth)

lemma rune_at_unfold:
  "rune_at s pos = (case decode_from s pos of [] \<Rightarrow> None | rn # _ \<Rightarrow> Some rn)"
  by (subst decode_from.simps) (simp split: option.splits)

lemma decode_from_offset: "i \<le> length (input_runes s) \<Longrightarrow> decode_from s (offset s i) = drop i (input_runes s)"
proof (induction i)
  case 0
  show ?case by (simp add: input_runes_def)
next
  case (Suc i)
  then have d: "decode_from s (offset s i) = input_runes s ! i # drop (Suc i) (input_runes s)"
    by (simp add: Cons_nth_drop_Suc)
  then have r: "rune_at s (offset s i) = Some (input_runes s ! i)" by (simp add: rune_at_unfold)
  obtain x n where x: "input_runes s ! i = (x, n)" by fastforce
  have "decode_from s (offset s i) = (x, n) # decode_from s (offset s i + n)"
    by (subst decode_from.simps) (simp add: r x)
  with d Suc x show ?case by (simp add: offset_Suc)
qed

lemma rune_at_offset:
  "i \<le> length (input_runes s) \<Longrightarrow>
    rune_at s (offset s i) = (if i < length (input_runes s) then Some (input_runes s ! i) else None)"
  by (auto simp: rune_at_unfold decode_from_offset split: list.splits dest!: Cons_nth_drop_Suc)

lemma decode_rune_bound:
  assumes "pos < length s" "decode_rune s pos = (r, n)"
  shows "pos + n \<le> length s"
proof -
  have "length (snd (utf8_decode (drop pos s))) \<le> length (drop pos s)"
    using utf8_decode_prefix [of "drop pos s"] by (metis length_take min.cobounded1)
  with assms show ?thesis by (auto simp: decode_rune_def Let_def split: if_splits prod.splits)
qed

lemma offset_le: "i \<le> length (input_runes s) \<Longrightarrow> offset s i \<le> length s"
proof (induction i)
  case (Suc i)
  then have "rune_at s (offset s i) = Some (input_runes s ! i)" by (simp add: rune_at_offset)
  with Suc show ?case
    by (cases "input_runes s ! i") (auto simp: offset_Suc rune_at_def split: if_splits dest: decode_rune_bound)
qed simp

lemma offset_less_iff: "i \<le> length (input_runes s) \<Longrightarrow> offset s i < length s \<longleftrightarrow> i < length (input_runes s)"
  using rune_at_offset [of i s] by (auto simp: rune_at_def split: if_splits)

lemma offset_end_iff: "i \<le> length (input_runes s) \<Longrightarrow> offset s i = length s \<longleftrightarrow> i = length (input_runes s)"
  using offset_less_iff [of i s] offset_le [of i s] by auto

lemma offset_strict: "i < j \<Longrightarrow> j \<le> length (input_runes s) \<Longrightarrow> offset s i < offset s j"
proof (induction j)
  case (Suc j)
  then have "rune_at s (offset s j) = Some (input_runes s ! j)" by (simp add: rune_at_offset)
  then have "0 < snd (input_runes s ! j)" using rune_at_width [of s "offset s j"] by (cases "input_runes s ! j") auto
  with Suc show ?case by (cases "i = j") (auto simp: offset_Suc)
qed simp

subsubsection \<open>What the input accepts at a position\<close>

definition input_acc :: "rune_class list \<Rightarrow> bytes \<Rightarrow> rune \<Rightarrow> nat \<Rightarrow> bool" where
  "input_acc classes s l i \<longleftrightarrow> i < length (input_runes s) \<and> accepts classes l (fst (input_runes s ! i))"

definition word_rune :: "bytes \<Rightarrow> nat \<Rightarrow> bool" where
  "word_rune s i \<longleftrightarrow> i < length (input_runes s) \<and> is_word_char (fst (input_runes s ! i))"

definition boundary_at :: "bytes \<Rightarrow> bool \<Rightarrow> nat \<Rightarrow> bool" where
  "boundary_at s prev i \<longleftrightarrow> (if i = 0 then prev else word_rune s (i - 1)) \<noteq> word_rune s i"

definition input_cond :: "bytes \<Rightarrow> bool \<Rightarrow> bool \<Rightarrow> rune \<Rightarrow> nat \<Rightarrow> bool" where
  "input_cond s prev at_start l i \<longleftrightarrow>
     (if l = WordBoundary then boundary_at s prev i
      else if l = StartAnchor then at_start \<and> i = 0
      else i = length (input_runes s))"

text \<open>The ends of the prefixes a token stream matches, in runes.\<close>

definition prefix_ends :: "rune_class list \<Rightarrow> rune list \<Rightarrow> bytes \<Rightarrow> bool \<Rightarrow> bool \<Rightarrow> nat set" where
  "prefix_ends classes ts s at_start prev =
     {j. (0, j) \<in> tokens_rel (input_acc classes s) (input_cond s prev at_start) ts}"

subsection \<open>Paths, one position at a time\<close>

definition flags_eps ::
  "state_def list \<Rightarrow> (rune \<Rightarrow> nat \<Rightarrow> bool) \<Rightarrow> nat \<Rightarrow> (nat \<times> nat) set" where
  "flags_eps ss cond i = eps ss (cond WordBoundary i) (cond StartAnchor i) (cond EndAnchor i)"

lemma edges_split:
  "((s, i), (t, j)) \<in> edges ss acc cond \<longleftrightarrow>
     (j = i \<and> (s, t) \<in> flags_eps ss cond i) \<or>
     (j = Suc i \<and> s < length ss \<and> rests (ss ! s) \<and> acc (st_label (ss ! s)) i \<and> st_next (ss ! s) = Some t)"
proof (cases "s < length ss")
  case True
  consider "st_label (ss ! s) = Split" | "is_capture (st_label (ss ! s))" "st_label (ss ! s) \<noteq> Split"
    | "is_condition (st_label (ss ! s))" "\<not> is_capture (st_label (ss ! s))" "st_label (ss ! s) \<noteq> Split"
    | "rests (ss ! s)" by (auto simp: rests_def)
  then show ?thesis
    using True
    by cases (auto simp: edges_def flags_eps_def eps_pushes closure_pushes_def rests_def is_capture_def is_condition_def)
next
  case False
  then show ?thesis by (simp add: edges_def flags_eps_def eps_pushes)
qed

definition reach :: "state_def list \<Rightarrow> (rune \<Rightarrow> nat \<Rightarrow> bool) \<Rightarrow> (rune \<Rightarrow> nat \<Rightarrow> bool) \<Rightarrow> nat \<Rightarrow> nat \<Rightarrow> nat set" where
  "reach ss acc cond z i = {t. ((z, 0), (t, i)) \<in> (edges ss acc cond)\<^sup>*}"

definition successors :: "state_def list \<Rightarrow> (rune \<Rightarrow> nat \<Rightarrow> bool) \<Rightarrow> nat set \<Rightarrow> nat \<Rightarrow> nat set" where
  "successors ss acc S i =
     {t. \<exists>s \<in> S. s < length ss \<and> rests (ss ! s) \<and> acc (st_label (ss ! s)) i \<and> st_next (ss ! s) = Some t}"

lemma eps_path: "(s, t) \<in> (flags_eps ss cond i)\<^sup>* \<Longrightarrow> ((s, i), (t, i)) \<in> (edges ss acc cond)\<^sup>*"
proof (induction rule: rtrancl_induct)
  case (step y w)
  then have "((y, i), (w, i)) \<in> edges ss acc cond" by (simp add: edges_split)
  with step show ?case by (rule_tac rtrancl_into_rtrancl)
qed simp

text \<open>The last rune read splits a path.\<close>

lemma path_split:
  assumes "((z, 0), y) \<in> (edges ss acc cond)\<^sup>*"
  shows "(snd y = 0 \<longrightarrow> fst y \<in> (flags_eps ss cond 0)\<^sup>* `` {z}) \<and>
    (\<forall>i. snd y = Suc i \<longrightarrow> fst y \<in> (flags_eps ss cond (Suc i))\<^sup>* `` successors ss acc (reach ss acc cond z i) i)"
  using assms
proof (induction rule: rtrancl_induct)
  case (step y w)
  obtain s i t j where p: "y = (s, i)" "w = (t, j)" by fastforce
  from step(2) p consider "j = i" "(s, t) \<in> flags_eps ss cond i"
    | "j = Suc i" "s < length ss" "rests (ss ! s)" "acc (st_label (ss ! s)) i" "st_next (ss ! s) = Some t"
    by (auto simp: edges_split)
  then show ?case
  proof cases
    case 1
    with step(3) p show ?thesis by (auto intro: rtrancl_into_rtrancl)
  next
    case 2
    have "s \<in> reach ss acc cond z i" using step(1) p by (simp add: reach_def)
    with 2 have "t \<in> successors ss acc (reach ss acc cond z i) i" by (auto simp: successors_def)
    with 2 p show ?thesis by auto
  qed
qed simp

lemma reach_0: "reach ss acc cond z 0 = (flags_eps ss cond 0)\<^sup>* `` {z}"
proof
  show "reach ss acc cond z 0 \<subseteq> (flags_eps ss cond 0)\<^sup>* `` {z}"
    using path_split [of z _ ss acc cond] by (fastforce simp: reach_def)
  show "(flags_eps ss cond 0)\<^sup>* `` {z} \<subseteq> reach ss acc cond z 0" by (auto simp: reach_def intro: eps_path)
qed

lemma reach_Suc:
  "reach ss acc cond z (Suc i) = (flags_eps ss cond (Suc i))\<^sup>* `` successors ss acc (reach ss acc cond z i) i"
proof
  show "reach ss acc cond z (Suc i) \<subseteq> (flags_eps ss cond (Suc i))\<^sup>* `` successors ss acc (reach ss acc cond z i) i"
    using path_split [of z _ ss acc cond] by (fastforce simp: reach_def)
  have "t \<in> reach ss acc cond z (Suc i)"
    if u: "u \<in> successors ss acc (reach ss acc cond z i) i" "(u, t) \<in> (flags_eps ss cond (Suc i))\<^sup>*" for t u
  proof -
    from u(1) obtain s where s: "((z, 0), (s, i)) \<in> (edges ss acc cond)\<^sup>*" "((s, i), (u, Suc i)) \<in> edges ss acc cond"
      by (auto simp: successors_def reach_def edges_split)
    with eps_path [OF u(2)] show ?thesis unfolding reach_def by (blast intro: rtrancl_trans r_into_rtrancl)
  qed
  then show "(flags_eps ss cond (Suc i))\<^sup>* `` successors ss acc (reach ss acc cond z i) i \<subseteq> reach ss acc cond z (Suc i)"
    by blast
qed

definition active :: "state_def list \<Rightarrow> nat set \<Rightarrow> nat set" where
  "active ss S = {t \<in> S. rests (ss ! t)}"

lemma successors_active: "successors ss acc (active ss S) i = successors ss acc S i"
  by (auto simp: successors_def active_def)

subsection \<open>The simulation\<close>

lemma eps_masked:
  assumes "engine_inv ts e" "h = has_conditionals e"
  shows "eps (owned_states e) (h \<and> bm) (h \<and> as) (h \<and> ae) = eps (owned_states e) bm as ae"
proof -
  have "closure_pushes (owned_states e ! s) (h \<and> bm) (h \<and> as) (h \<and> ae) = closure_pushes (owned_states e ! s) bm as ae"
    if "s < length (owned_states e)" for s
    using assms that by (auto simp: engine_inv_def closure_pushes_def is_condition_def)
  then show ?thesis by (auto simp: eps_pushes)
qed

lemma cached_active:
  assumes inv: "engine_inv ts e" and q: "q < length (owned_states e)"
  shows "set (epsilon_closure_cached e (Some q) bm as ae) =
      active (owned_states e) ((eps (owned_states e) bm as ae)\<^sup>* `` {q})"
    "trivial_closure (owned_states e ! q) \<Longrightarrow> epsilon_closure_cached e (Some q) bm as ae = [q]"
proof -
  have "cache_ok e" using inv by (simp add: engine_inv_def)
  then have "is_closure (owned_states e) (has_conditionals e \<and> bm) (has_conditionals e \<and> as) (has_conditionals e \<and> ae) q
      (epsilon_closure_cached e (Some q) bm as ae)"
    "trivial_closure (owned_states e ! q) \<longrightarrow> epsilon_closure_cached e (Some q) bm as ae = [q]"
    using q by (simp_all add: cache_ok_def)
  then show "set (epsilon_closure_cached e (Some q) bm as ae) =
      active (owned_states e) ((eps (owned_states e) bm as ae)\<^sup>* `` {q})"
    "trivial_closure (owned_states e ! q) \<Longrightarrow> epsilon_closure_cached e (Some q) bm as ae = [q]"
    using eps_masked [OF inv refl] by (auto simp: is_closure_def active_def)
qed

lemma cached_bound:
  assumes inv: "engine_inv ts e" and q: "q < length (owned_states e)"
    and t: "t \<in> set (epsilon_closure_cached e (Some q) bm as ae)"
  shows "t < length (owned_states e) \<and> closure_index (owned_states e ! t) = t"
proof -
  have ok: "states_ok (owned_states e)" using inv by (simp add: engine_inv_def)
  have "(q, t) \<in> (eps (owned_states e) bm as ae)\<^sup>*" using t cached_active(1) [OF inv q] by (auto simp: active_def)
  then show ?thesis using eps_star_ok [OF ok q] states_okD(1) [OF ok] by auto
qed

lemma add_state_collects:
  assumes inv: "engine_inv ts e" and q: "\<And>q. state = Some q \<Longrightarrow> q < length (owned_states e)"
    and c: "ctx.collects (length (owned_states e)) ep states c S"
    and run: "add_state e states state ep c bm as ae = (states', c')"
  shows "ctx.collects (length (owned_states e)) ep states' c'
    (S \<union> active (owned_states e) ((eps (owned_states e) bm as ae)\<^sup>* `` {q. state = Some q}))"
proof (cases state)
  case None
  with c run show ?thesis by (simp add: add_state_def active_def)
next
  case (Some q)
  let ?c = "epsilon_closure_cached e (Some q) bm as ae"
  have "push_unvisited (already_visited ep) (\<lambda>t. closure_index (owned_states e ! t)) ?c states c = (states', c')"
    using run Some cached_active(2) [OF inv assms(2) [OF Some]]
    by (auto simp: add_state_def Let_def split: if_splits prod.splits)
  from ctx.collects_push [OF c _ this] cached_bound [OF inv assms(2) [OF Some]]
  have "ctx.collects (length (owned_states e)) ep states' c' (S \<union> set ?c)" by blast
  then show ?thesis using cached_active(1) [OF inv assms(2) [OF Some]] Some by simp
qed

lemma active_image_Un: "active ss (E `` A) \<union> active ss (E `` B) = active ss (E `` (A \<union> B))"
  by (auto simp: active_def)

lemma state_accepts_iff:
  assumes "engine_inv ts e" "s < length (owned_states e)"
  shows "state_accepts e r s \<longleftrightarrow> accepts (eng_classes e) (st_label (owned_states e ! s)) r"
  using assms by (auto simp: state_accepts_def engine_inv_def accepts_def Let_def)

lemma step_states_collects:
  assumes inv: "engine_inv ts e" and cur: "set cur \<subseteq> {..<length (owned_states e)}"
    and c: "ctx.collects (length (owned_states e)) ep out c S"
    and run: "step_states e r cur out ep c bm ae = (out', c')"
  shows "ctx.collects (length (owned_states e)) ep out' c'
    (S \<union> active (owned_states e) ((eps (owned_states e) bm False ae)\<^sup>* ``
       {t. \<exists>s \<in> set cur. state_accepts e r s \<and> st_next (owned_states e ! s) = Some t}))"
  using cur c run
proof (induction cur arbitrary: out c S)
  case (Cons s cur)
  let ?ss = "owned_states e" and ?E = "(eps (owned_states e) bm False ae)\<^sup>*"
  let ?A = "{q. state_accepts e r s \<and> st_next (?ss ! s) = Some q}"
  obtain out1 c1 where a: "(if state_accepts e r s then add_state e out (st_next (?ss ! s)) ep c bm False ae else (out, c)) = (out1, c1)"
    by fastforce
  have ok: "states_ok ?ss" using inv by (simp add: engine_inv_def)
  have s: "s < length ?ss" using Cons.prems(1) by simp
  have "ctx.collects (length ?ss) ep out1 c1 (S \<union> active ?ss (?E `` ?A))"
  proof (cases "state_accepts e r s")
    case True
    with a have run: "add_state e out (st_next (?ss ! s)) ep c bm False ae = (out1, c1)" by simp
    from add_state_collects [OF inv states_okD(2) [OF ok s] Cons.prems(2) run] True show ?thesis by simp
  next
    case False
    with a Cons.prems(2) show ?thesis by (simp add: active_def)
  qed
  from Cons.IH [OF _ this] a Cons.prems(1,3)
  have "ctx.collects (length ?ss) ep out' c' (S \<union> active ?ss (?E `` ?A) \<union> active ?ss (?E ``
       {t. \<exists>s \<in> set cur. state_accepts e r s \<and> st_next (?ss ! s) = Some t}))" by simp
  moreover have "?A \<union> {t. \<exists>s \<in> set cur. state_accepts e r s \<and> st_next (?ss ! s) = Some t} =
      {t. \<exists>s \<in> set (s # cur). state_accepts e r s \<and> st_next (?ss ! s) = Some t}" by auto
  ultimately show ?case by (simp only: Un_assoc active_image_Un)
qed (simp add: active_def)

subsubsection \<open>Positions reached\<close>

definition input_reach :: "engine \<Rightarrow> bytes \<Rightarrow> bool \<Rightarrow> bool \<Rightarrow> nat \<Rightarrow> nat set" where
  "input_reach e s at_start prev =
     reach (owned_states e) (input_acc (eng_classes e) s) (input_cond s prev at_start) (start_state e)"

lemma input_reach_bound:
  assumes "engine_inv ts e" "t \<in> input_reach e s as pr i"
  shows "t < length (owned_states e)"
proof -
  let ?E = "edges (owned_states e) (input_acc (eng_classes e) s) (input_cond s pr as)"
  have ok: "states_ok (owned_states e)" "start_state e < length (owned_states e)"
    using assms(1) by (auto simp: engine_inv_def)
  have "fst y < length (owned_states e)" if "((start_state e, 0), y) \<in> ?E\<^sup>*" for y
    using that
  proof (induction rule: rtrancl_induct)
    case (step y z)
    then show ?case using eps_ok [OF ok(1)] states_okD(2) [OF ok(1)]
      by (cases y; cases z) (auto simp: edges_split flags_eps_def)
  qed (use ok in simp)
  with assms(2) show ?thesis by (force simp: input_reach_def reach_def)
qed

lemma prefix_ends_reach:
  "engine_inv ts e \<Longrightarrow> j \<in> prefix_ends (eng_classes e) ts s as pr \<longleftrightarrow> accept_state e \<in> input_reach e s as pr j"
  by (simp add: engine_inv_def prefix_ends_def input_reach_def reach_def)

lemma accept_rests: "engine_inv ts e \<Longrightarrow> rests (owned_states e ! accept_state e)"
  by (auto simp: engine_inv_def final_def rests_def is_capture_def is_capture_open_def is_capture_close_def
      is_condition_def)

lemma reach_dead:
  assumes "active ss (reach ss acc cond z i) = {}" "i < j"
  shows "reach ss acc cond z j = {}"
  using assms(2)
proof (induction j)
  case (Suc j)
  have "successors ss acc (reach ss acc cond z j) j = {}"
  proof (cases "j = i")
    case True
    with assms(1) successors_active [of ss acc "reach ss acc cond z j" j] show ?thesis
      by (auto simp: successors_def)
  next
    case False
    with Suc show ?thesis by (auto simp: successors_def)
  qed
  then show ?case by (simp add: reach_Suc)
qed simp

lemma prefix_ends_bound:
  assumes inv: "engine_inv ts e" and j: "j \<in> prefix_ends (eng_classes e) ts s as pr"
  shows "j \<le> length (input_runes s)"
proof (rule ccontr)
  assume "\<not> j \<le> length (input_runes s)"
  then obtain k where k: "j = Suc k" "length (input_runes s) \<le> k" by (cases j) auto
  then have "input_reach e s as pr j = {}"
    by (simp add: input_reach_def reach_Suc successors_def input_acc_def)
  with prefix_ends_reach [OF inv] j show False by simp
qed

subsubsection \<open>One step of the loop\<close>

definition simulates :: "engine \<Rightarrow> bytes \<Rightarrow> bool \<Rightarrow> bool \<Rightarrow> nat \<Rightarrow> nat list \<Rightarrow> bool" where
  "simulates e s as pr i states \<longleftrightarrow> distinct states \<and> set states = active (owned_states e) (input_reach e s as pr i)"

lemma flags_eps_input:
  assumes "engine_inv ts e" "h = has_conditionals e"
  shows "flags_eps (owned_states e) (input_cond s pr as) i =
    eps (owned_states e) (h \<and> boundary_at s pr i) (h \<and> as \<and> i = 0) (h \<and> i = length (input_runes s))"
  unfolding eps_masked [OF assms] by (simp add: flags_eps_def input_cond_def)

lemma start_list_simulates:
  assumes inv: "engine_inv ts e" and v: "ctx_valid (length (owned_states e)) ep c"
    and h: "h = has_conditionals e"
    and run: "start_list e (start_state e) ep c (h \<and> boundary_at s pr 0) (h \<and> as) (h \<and> s = []) = (states, ep', c')"
  shows "ctx_valid (length (owned_states e)) ep' c'" "simulates e s as pr 0 states"
proof -
  have n: "s = [] \<longleftrightarrow> 0 = length (input_runes s)" using offset_less_iff [of 0 s] by auto
  obtain ep1 c1 where g: "next_generation ep c = (ep1, c1)" by fastforce
  from run g have a: "add_state e [] (Some (start_state e)) ep1 c1 (h \<and> boundary_at s pr 0) (h \<and> as) (h \<and> s = []) = (states, c')"
    "ep' = ep1" by (auto simp: start_list_def split: prod.splits)
  have st: "start_state e < length (owned_states e)" using inv by (simp add: engine_inv_def)
  from add_state_collects [OF inv _ ctx.collects_fresh [OF v g] a(1)] st
  have "ctx.collects (length (owned_states e)) ep1 states c' (active (owned_states e)
      ((eps (owned_states e) (h \<and> boundary_at s pr 0) (h \<and> as) (h \<and> s = []))\<^sup>* `` {start_state e}))" by simp
  then show "ctx_valid (length (owned_states e)) ep' c'" "simulates e s as pr 0 states"
    using a(2) flags_eps_input [OF inv h, of s pr as 0]
    by (auto simp: ctx.collects_def simulates_def input_reach_def reach_0 n)
qed

lemma step_simulates:
  assumes inv: "engine_inv ts e" and v: "ctx_valid (length (owned_states e)) ep c"
    and sim: "simulates e s as pr i cur" and i: "i < length (input_runes s)" and h: "h = has_conditionals e"
    and run: "step_all e cur (fst (input_runes s ! i)) ep c (h \<and> boundary_at s pr (Suc i))
      (h \<and> Suc i = length (input_runes s)) = (states, ep', c')"
  shows "ctx_valid (length (owned_states e)) ep' c'" "simulates e s as pr (Suc i) states"
proof -
  let ?ss = "owned_states e" and ?r = "fst (input_runes s ! i)" and ?acc = "input_acc (eng_classes e) s"
  obtain ep1 c1 where g: "next_generation ep c = (ep1, c1)" by fastforce
  from run g have a: "step_states e ?r cur [] ep1 c1 (h \<and> boundary_at s pr (Suc i)) (h \<and> Suc i = length (input_runes s)) = (states, c')"
    "ep' = ep1" by (auto simp: step_all_def split: prod.splits)
  have b: "set cur \<subseteq> {..<length ?ss}"
    using sim input_reach_bound [OF inv] by (auto simp: simulates_def active_def)
  have "{t. \<exists>q \<in> set cur. state_accepts e ?r q \<and> st_next (?ss ! q) = Some t} =
      successors ?ss ?acc (input_reach e s as pr i) i"
    using sim i b state_accepts_iff [OF inv]
    by (auto simp: simulates_def successors_def active_def input_acc_def dest: input_reach_bound [OF inv])
  with step_states_collects [OF inv b ctx.collects_fresh [OF v g] a(1)]
  have "ctx.collects (length ?ss) ep1 states c' (active ?ss
      ((eps ?ss (h \<and> boundary_at s pr (Suc i)) False (h \<and> Suc i = length (input_runes s)))\<^sup>* ``
        successors ?ss ?acc (input_reach e s as pr i) i))" by simp
  then show "ctx_valid (length ?ss) ep' c'" "simulates e s as pr (Suc i) states"
    using a(2) flags_eps_input [OF inv h, of s pr as "Suc i"]
    by (auto simp: ctx.collects_def simulates_def input_reach_def reach_Suc)
qed

lemma simulates_match:
  assumes "engine_inv ts e" "simulates e s as pr i states"
  shows "is_match e states \<longleftrightarrow> i \<in> prefix_ends (eng_classes e) ts s as pr"
  using assms accept_rests [OF assms(1)] prefix_ends_reach [OF assms(1)]
  by (auto simp: is_match_def list_ex_iff simulates_def active_def)

subsubsection \<open>The longest match\<close>

definition longest :: "bytes \<Rightarrow> nat set \<Rightarrow> nat option" where
  "longest s S = (if S = {} then None else Some (offset s (Max S)))"

lemma longest_Suc:
  "longest s {j \<in> L. j \<le> Suc i} = (if Suc i \<in> L then Some (offset s (Suc i)) else longest s {j \<in> L. j \<le> i})"
proof (cases "Suc i \<in> L")
  case True
  then have "Max {j \<in> L. j \<le> Suc i} = Suc i" by (intro Max_eqI) auto
  with True show ?thesis by (auto simp: longest_def)
next
  case False
  then have "{j \<in> L. j \<le> Suc i} = {j \<in> L. j \<le> i}" by (auto simp: le_Suc_eq)
  with False show ?thesis by simp
qed

lemma longest_0: "longest s {j \<in> L. j \<le> 0} = (if 0 \<in> L then Some 0 else None)"
proof -
  have "{j \<in> L. j \<le> 0} = (if 0 \<in> L then {0} else {})" by auto
  then show ?thesis by (simp add: longest_def)
qed

lemma word_at_offset: "i \<le> length (input_runes s) \<Longrightarrow> word_at (rune_at s (offset s i)) = word_rune s i"
  by (cases "input_runes s ! i") (simp add: rune_at_offset word_at_def word_rune_def)

lemma prefix_loop_longest:
  assumes inv: "engine_inv ts e" and h: "h = has_conditionals e"
    and L: "L = prefix_ends (eng_classes e) ts s as pr"
  shows "i \<le> length (input_runes s) \<Longrightarrow> ctx_valid (length (owned_states e)) ep c \<Longrightarrow> simulates e s as pr i states \<Longrightarrow>
    prefix_loop e s (offset s i) (rune_at s (offset s i)) (h \<and> word_rune s i) states ep c
      (longest s {j \<in> L. j \<le> i}) = (c', res) \<Longrightarrow>
    ctx_ok c' \<and> res = longest s L"
proof (induction "length (input_runes s) - i" arbitrary: i ep c states)
  case 0
  then have i: "i = length (input_runes s)" by simp
  then have "{j \<in> L. j \<le> i} = L" using prefix_ends_bound [OF inv] L by auto
  with 0 i show ?case by (auto simp: rune_at_offset ctx_valid_ok)
next
  case (Suc x)
  then have i: "i < length (input_runes s)" by simp
  obtain r w where rw: "input_runes s ! i = (r, w)" by fastforce
  have cur: "rune_at s (offset s i) = Some (r, w)" using i rw by (simp add: rune_at_offset)
  show ?case
  proof (cases "states = []")
    case True
    with Suc(5) have "active (owned_states e) (input_reach e s as pr i) = {}" by (simp add: simulates_def)
    then have "input_reach e s as pr j = {}" if "i < j" for j
      using reach_dead that unfolding input_reach_def by blast
    then have "j \<le> i" if "j \<in> L" for j using that prefix_ends_reach [OF inv] L by (cases "i < j") auto
    then have "{j \<in> L. j \<le> i} = L" by auto
    with Suc(4,6) cur True show ?thesis by (auto simp: ctx_valid_ok)
  next
    case False
    let ?b = "h \<and> boundary_at s pr (Suc i)" and ?n = "h \<and> Suc i = length (input_runes s)"
    obtain st' ep' c1 where st: "step_all e states r ep c ?b ?n = (st', ep', c1)" by (metis prod_cases3)
    note sim = step_simulates [OF inv Suc(4,5) i h, of st' ep' c1]
    have s1: "ctx_valid (length (owned_states e)) ep' c1" "simulates e s as pr (Suc i) st'"
      using sim st rw by simp_all
    have o: "offset s (Suc i) = offset s i + w" using i rw by (simp add: offset_Suc)
    have bd: "(h \<and> (h \<and> word_rune s i) \<noteq> (h \<and> word_rune s (Suc i))) = ?b"
      by (auto simp: boundary_at_def)
    have "length s \<le> offset s (Suc i) \<longleftrightarrow> Suc i = length (input_runes s)"
      using offset_less_iff [of "Suc i" s] i by auto
    then have "prefix_loop e s (offset s i) (rune_at s (offset s i)) (h \<and> word_rune s i) states ep c best =
        prefix_loop e s (offset s (Suc i)) (rune_at s (offset s (Suc i))) (h \<and> word_rune s (Suc i)) st' ep' c1
          (if is_match e st' then Some (offset s (Suc i)) else best)" for best
      using False cur o bd st i h word_at_offset [of "Suc i" s] by (simp add: Let_def)
    with Suc(6) simulates_match [OF inv s1(2)] L
    have "prefix_loop e s (offset s (Suc i)) (rune_at s (offset s (Suc i))) (h \<and> word_rune s (Suc i)) st' ep' c1
          (longest s {j \<in> L. j \<le> Suc i}) = (c', res)" by (simp add: longest_Suc)
    from Suc(1) [OF _ _ s1 this] Suc(2) i show ?thesis by simp
  qed
qed

lemma find_prefix_noncapturing_longest:
  assumes inv: "engine_inv ts e" and ok: "engine_ok e" and c: "ctx_ok c"
    and run: "find_prefix_noncapturing_with_context e this s c as pr = (c', res)"
  shows "ctx_ok c' \<and> res = longest s (prefix_ends (eng_classes e) ts s as pr)"
proof -
  define h where "h = has_conditionals e"
  define c0 where "c0 = bind_engine this (state_count e) c"
  let ?L = "prefix_ends (eng_classes e) ts s as pr"
  have v: "ctx_valid (length (owned_states e)) 0 c0"
    using bind_engine_valid [OF c] inv by (simp add: c0_def engine_inv_def)
  obtain states ep c1 where st: "start_list e (start_state e) 0 c0 (h \<and> boundary_at s pr 0) (h \<and> as) (h \<and> s = []) = (states, ep, c1)"
    by (metis prod_cases3)
  note s0 = start_list_simulates [OF inv v h_def st]
  have w: "word_at (rune_at s 0) = word_rune s 0" using word_at_offset [of 0 s] by simp
  have bd: "(h \<and> pr \<noteq> (h \<and> word_rune s 0)) = (h \<and> boundary_at s pr 0)" by (auto simp: boundary_at_def)
  have "prefix_loop e s 0 (rune_at s 0) (h \<and> word_rune s 0) states ep c1 (if is_match e states then Some 0 else None) = (c', res)"
    using run ok st bd w by (simp add: find_prefix_noncapturing_with_context_def Let_def c0_def h_def)
  then have "prefix_loop e s (offset s 0) (rune_at s (offset s 0)) (h \<and> word_rune s 0) states ep c1
      (longest s {j \<in> ?L. j \<le> 0}) = (c', res)"
    using simulates_match [OF inv s0(2)] by (simp only: longest_0 offset_0)
  from prefix_loop_longest [OF inv h_def refl _ s0 this] show ?thesis by simp
qed

end
