(* ===== verification/RegexCapture.thy ===== *)
theory RegexCapture
  imports RegexMatch
begin

text \<open>
  The capturing search of \<open>include/trieste/regex_engine.h\<close> (\<open>add_state_capturing\<close> and
  \<open>find_prefix_with_context\<close>, defined in \<open>RegexMatch\<close>): the arena of capture frames, the
  traversal that clones frames, and the search loop, shown to visit the same states as the
  search without captures as long as the arena has room.
\<close>

subsection \<open>Capturing\<close>

subsubsection \<open>Frames\<close>

definition capture_bounded :: "nat \<Rightarrow> u64 \<Rightarrow> bool" where
  "capture_bounded pos v \<longleftrightarrow> v = npos \<or> (\<exists>p \<le> pos. v = of_nat p)"

lemma capture_bounded_mono: "capture_bounded p v \<Longrightarrow> p \<le> q \<Longrightarrow> capture_bounded q v"
  by (metis capture_bounded_def order.trans)

text \<open>The arena holds whole frames, whose entries are \<open>npos\<close> or positions seen so far.\<close>

definition arena_ok :: "nat \<Rightarrow> nat \<Rightarrow> MatchContext \<Rightarrow> bool" where
  "arena_ok slots pos ctx \<longleftrightarrow> capture_frame_slots ctx = slots \<and> 0 < slots \<and> slots dvd length (capture_frames ctx) \<and>
     (\<forall>v \<in> set (capture_frames ctx). capture_bounded pos v)"

definition frame_in :: "MatchContext \<Rightarrow> nat \<Rightarrow> bool" where
  "frame_in ctx f \<longleftrightarrow> Suc f * capture_frame_slots ctx \<le> length (capture_frames ctx)"

text \<open>Frames are only appended; the visited set is left alone.\<close>

definition extends :: "MatchContext \<Rightarrow> MatchContext \<Rightarrow> bool" where
  "extends ctx ctx' \<longleftrightarrow> capture_frame_slots ctx' = capture_frame_slots ctx \<and>
     (\<exists>ext. capture_frames ctx' = capture_frames ctx @ ext)"

lemma extends_refl [simp]: "extends ctx ctx"
  by (simp add: extends_def)

lemma extends_trans: "extends a b \<Longrightarrow> extends b c \<Longrightarrow> extends a c"
  by (auto simp: extends_def)

lemma frame_in_extends: "frame_in ctx f \<Longrightarrow> extends ctx ctx' \<Longrightarrow> frame_in ctx' f"
  by (auto simp: frame_in_def extends_def)

lemma frame_data_extends:
  assumes "frame_in ctx f" "extends ctx ctx'"
  shows "capture_frame_data f ctx' = capture_frame_data f ctx"
proof -
  obtain ext where e: "capture_frame_slots ctx' = capture_frame_slots ctx" "capture_frames ctx' = capture_frames ctx @ ext"
    using assms(2) by (auto simp: extends_def)
  have "f * capture_frame_slots ctx + capture_frame_slots ctx \<le> length (capture_frames ctx)"
    using assms(1) by (simp add: frame_in_def add.commute)
  with e show ?thesis by (simp add: capture_frame_data_def)
qed

lemma frame_data_length: "frame_in ctx f \<Longrightarrow> length (capture_frame_data f ctx) = capture_frame_slots ctx"
  by (auto simp: frame_in_def capture_frame_data_def)

lemma frame_data_bounded:
  "arena_ok slots pos ctx \<Longrightarrow> v \<in> set (capture_frame_data f ctx) \<Longrightarrow> capture_bounded pos v"
  by (auto simp: arena_ok_def capture_frame_data_def dest!: in_set_takeD in_set_dropD)

lemma clone_and_set:
  assumes a: "arena_ok slots pos ctx" and f: "frame_in ctx f" and k: "k < slots"
    and room: "length (capture_frames ctx) + slots \<le> MaxCaptureFrameEntries"
  shows "\<exists>ctx1 g ctx'. clone_capture_frame f ctx = (ctx1, Some g) \<and> ctx' = set_capture g k (of_nat pos) ctx1 \<and>
    arena_ok slots pos ctx' \<and> extends ctx ctx' \<and> frame_in ctx' g \<and>
    length (capture_frames ctx') = length (capture_frames ctx) + slots \<and>
    visited_states ctx' = visited_states ctx \<and> epoch_counter ctx' = epoch_counter ctx"
proof -
  let ?fr = "capture_frames ctx" and ?d = "capture_frame_data f ctx"
  let ?g = "length ?fr div slots"
  have s: "capture_frame_slots ctx = slots" "0 < slots" "slots dvd length ?fr" using a by (auto simp: arena_ok_def)
  have g: "?g * slots = length ?fr" using s by simp
  have d: "length ?d = slots" using frame_data_length [OF f] s by simp
  let ?c1 = "ctx\<lparr>capture_frames := ?fr @ ?d\<rparr>"
  let ?c = "set_capture ?g k (of_nat pos) ?c1"
  have "clone_capture_frame f ctx = (?c1, Some ?g)" using room s by (simp add: clone_capture_frame_def)
  moreover have c: "?c = ctx\<lparr>capture_frames := ?fr @ ?d[k := of_nat pos]\<rparr>"
    using g s k by (simp add: set_capture_def list_update_append)
  moreover have "\<forall>v \<in> set (?d[k := of_nat pos]). capture_bounded pos v"
    using frame_data_bounded [OF a] set_update_subset_insert [of ?d k "of_nat pos"]
    by (auto simp: capture_bounded_def)
  then have "arena_ok slots pos (ctx\<lparr>capture_frames := ?fr @ ?d[k := of_nat pos]\<rparr>)"
    using a d by (auto simp: arena_ok_def)
  ultimately show ?thesis using d s g by (auto simp: extends_def frame_in_def)
qed

subsubsection \<open>One state\<close>

lemma capture_label_index:
  assumes "label_ok k n l" "n \<le> MaxCaptures" "is_capture l"
  shows "capture_index l < n"
proof -
  have o: "unat (CaptureOpen + of_nat i) = 0xAFFE00 + i" "unat (CaptureClose + of_nat i) = 0xAFFD00 + i" if "i < n" for i
    using that assms(2) by (simp_all add: unat_word_ariths unat_of_nat)
  have "\<not> is_capture l" if "l = Split \<or> l = Match \<or> atom_label k l"
    using that by (auto simp: is_capture_def is_capture_open_def is_capture_close_def atom_label_def is_class_ref_def
        word_le_nat_alt word_less_nat_alt)
  with assms(1,3) obtain i where i: "i < n" "l = CaptureOpen + of_nat i \<or> l = CaptureClose + of_nat i"
    by (auto simp: label_ok_def)
  have "is_capture_open (CaptureOpen + of_nat i)" "\<not> is_capture_open (CaptureClose + of_nat i)"
    using o [OF i(1)] i(1) assms(2) by (auto simp: is_capture_open_def word_le_nat_alt word_less_nat_alt)
  with i assms(2) show ?thesis by (auto simp: capture_index_def unat_of_nat)
qed

definition pushes_ok ::
  "nat \<Rightarrow> nat \<Rightarrow> state_def \<Rightarrow> bool \<Rightarrow> bool \<Rightarrow> bool \<Rightarrow> MatchContext \<Rightarrow> (nat option \<times> nat) list \<times> bool \<times> MatchContext \<Rightarrow> bool" where
  "pushes_ok slots pos st bm as ae ctx res \<longleftrightarrow> (case res of (pushed, t, ctx') \<Rightarrow>
     map fst pushed = fst (closure_pushes st bm as ae) \<and> t = rests st \<and> arena_ok slots pos ctx' \<and> extends ctx ctx' \<and>
     (\<forall>p \<in> set pushed. frame_in ctx' (snd p)) \<and> length (capture_frames ctx') \<le> length (capture_frames ctx) + slots \<and>
     visited_states ctx' = visited_states ctx \<and> epoch_counter ctx' = epoch_counter ctx)"

lemma capture_pushes_ok:
  assumes a: "arena_ok slots pos ctx" and f: "frame_in ctx f" and l: "label_ok k n (st_label st)" "n \<le> MaxCaptures"
    and n: "slots = 2 * n" and room: "length (capture_frames ctx) + slots \<le> MaxCaptureFrameEntries"
  shows "pushes_ok slots pos st bm as ae ctx (capture_pushes st f pos bm as ae ctx)"
proof (cases "is_capture (st_label st) \<and> st_label st \<noteq> Split")
  case True
  then have i: "capture_index (st_label st) * 2 < slots" "capture_index (st_label st) * 2 + 1 < slots"
    using capture_label_index [OF l] n by auto
  define k where "k = (if is_capture_open (st_label st) then capture_index (st_label st) * 2
    else capture_index (st_label st) * 2 + 1)"
  have "k < slots" using i by (simp add: k_def)
  from clone_and_set [OF a f this room] obtain ctx1 g ctx' where
    c: "clone_capture_frame f ctx = (ctx1, Some g)" "ctx' = set_capture g k (of_nat pos) ctx1"
    "arena_ok slots pos ctx'" "extends ctx ctx'" "frame_in ctx' g"
    "length (capture_frames ctx') = length (capture_frames ctx) + slots"
    "visited_states ctx' = visited_states ctx" "epoch_counter ctx' = epoch_counter ctx" by blast
  have "capture_pushes st f pos bm as ae ctx = ([(st_next st, g)], False, ctx')"
    using True c(1,2) by (auto simp: capture_pushes_def is_capture_def k_def)
  moreover have "closure_pushes st bm as ae = ([st_next st], False)" "\<not> rests st"
    using True by (auto simp: closure_pushes_def is_capture_def rests_def)
  ultimately show ?thesis using c(3-) by (simp add: pushes_ok_def)
next
  case False
  then have "\<not> is_capture_open (st_label st)" "\<not> is_capture_close (st_label st)"
    by (auto simp: is_capture_def is_capture_open_def is_capture_close_def)
  then have "capture_pushes st f pos bm as ae ctx =
      (map (\<lambda>x. (x, f)) (fst (closure_pushes st bm as ae)), snd (closure_pushes st bm as ae), ctx)"
    by (simp add: capture_pushes_def closure_pushes_def)
  moreover obtain p t where "closure_pushes st bm as ae = (p, t)" by fastforce
  moreover from this have "t = rests st" using closure_pushes_rests [of st bm as ae] by simp
  ultimately have "capture_pushes st f pos bm as ae ctx = (map (\<lambda>x. (x, f)) p, rests st, ctx)"
    "fst (closure_pushes st bm as ae) = p" by simp_all
  moreover have "map fst (map (\<lambda>x. (x, f)) p) = p" by (induction p) simp_all
  ultimately show ?thesis unfolding pushes_ok_def using a f by (simp only: prod.case) auto
qed

subsubsection \<open>A traversal with captures\<close>

text \<open>
  \<open>captures_from\<close>: processing the states \<open>S\<close> took the context from \<open>c\<close> to \<open>c'\<close> and the
  threads from \<open>th\<close> to \<open>th'\<close>. Every state visited costs at most one frame, so what the arena
  may still need is the size of what it holds with a frame for every unvisited state.
\<close>

definition arena_need :: "nat \<Rightarrow> u64 \<Rightarrow> MatchContext \<Rightarrow> nat" where
  "arena_need slots ep c = length (capture_frames c) + slots * card (unseen (visited_states c) ep)"

definition captures_from ::
  "state_def list \<Rightarrow> (nat \<times> nat) set \<Rightarrow> nat \<Rightarrow> nat \<Rightarrow> u64 \<Rightarrow> nat set \<Rightarrow> thread list \<Rightarrow> MatchContext \<Rightarrow>
     thread list \<Rightarrow> MatchContext \<Rightarrow> bool" where
  "captures_from ss E slots pos ep S th c th' c' \<longleftrightarrow>
     arena_ok slots pos c' \<and> extends c c' \<and> epoch_counter c' = epoch_counter c \<and>
     length (visited_states c') = length (visited_states c) \<and>
     (\<forall>v \<in> set (visited_states c'). v \<in> set (visited_states c) \<or> v = ep) \<and>
     arena_need slots ep c' \<le> arena_need slots ep c \<and> (\<forall>t \<in> set th'. frame_in c' (snd t)) \<and>
     (\<exists>new. th' = th @ new \<and>
        traversed ss E S (seen_set (visited_states c) ep) (seen_set (visited_states c') ep) (map fst new))"

lemma captures_from_refl:
  "arena_ok slots pos c \<Longrightarrow> \<forall>t \<in> set th. frame_in c (snd t) \<Longrightarrow> S \<subseteq> seen_set (visited_states c) ep \<Longrightarrow>
    captures_from ss E slots pos ep S th c th c"
  by (auto simp: captures_from_def intro: traversed_done)

lemma captures_from_skip:
  "s \<in> seen_set (visited_states c) ep \<Longrightarrow> captures_from ss E slots pos ep S th c th' c' \<Longrightarrow>
    captures_from ss E slots pos ep (insert s S) th c th' c'"
  by (auto simp: captures_from_def intro: traversed_skip)

lemma traversed_trans:
  assumes "traversed ss E S V V1 new1" "traversed ss E S' V1 V2 new2"
  shows "traversed ss E (S \<union> S') V V2 (new1 @ new2)"
proof -
  have t: "V \<subseteq> V1" "S \<subseteq> V1" "E `` (V1 - V) \<subseteq> V1" "V1 \<subseteq> V \<union> E\<^sup>* `` S" "distinct new1"
    "set new1 = {s \<in> V1 - V. rests (ss ! s)}" using assms(1) by (simp_all only: traversed_def)
  have u: "V1 \<subseteq> V2" "S' \<subseteq> V2" "E `` (V2 - V1) \<subseteq> V2" "V2 \<subseteq> V1 \<union> E\<^sup>* `` S'" "distinct new2"
    "set new2 = {s \<in> V2 - V1. rests (ss ! s)}" using assms(2) by (simp_all only: traversed_def)
  have "V \<subseteq> V2" "S \<union> S' \<subseteq> V2" using t u by blast+
  moreover have "E `` (V2 - V) \<subseteq> V2" using t(3) u(1,3) by blast
  moreover have "V2 \<subseteq> V \<union> E\<^sup>* `` (S \<union> S')" using t(4) u(4) by blast
  moreover have "set (new1 @ new2) = {s \<in> V2 - V. rests (ss ! s)}" using t(1,6) u(1,6) by auto
  moreover have "distinct (new1 @ new2)" using t(5,6) u(5,6) by auto
  ultimately show ?thesis by (simp only: traversed_def simp_thms)
qed

lemma captures_from_trans:
  assumes "captures_from ss E slots pos ep S th c th1 c1" "captures_from ss E slots pos ep S' th1 c1 th2 c2"
  shows "captures_from ss E slots pos ep (S \<union> S') th c th2 c2"
proof -
  obtain n1 n2 where n: "th1 = th @ n1" "th2 = th1 @ n2"
    "traversed ss E S (seen_set (visited_states c) ep) (seen_set (visited_states c1) ep) (map fst n1)"
    "traversed ss E S' (seen_set (visited_states c1) ep) (seen_set (visited_states c2) ep) (map fst n2)"
    using assms by (auto simp: captures_from_def)
  from traversed_trans [OF n(3,4)] n(1,2) assms show ?thesis
    unfolding captures_from_def by (auto intro: extends_trans order.trans)
qed

text \<open>Visiting one state.\<close>

lemma arena_need_visit:
  assumes "s < length (visited_states c)" "visited_states c ! s \<noteq> ep" "visited_states c1 = (visited_states c)[s := ep]"
    "length (capture_frames c1) \<le> length (capture_frames c) + slots"
  shows "arena_need slots ep c1 \<le> arena_need slots ep c"
proof -
  have "unseen (visited_states c1) ep = unseen (visited_states c) ep - {s}" "s \<in> unseen (visited_states c) ep"
    unfolding assms(3) using unseen_update [OF assms(1)] assms(1,2) by (simp_all, simp add: unseen_def)
  then have "card (unseen (visited_states c) ep) = Suc (card (unseen (visited_states c1) ep))"
    by (metis card.remove finite_unseen)
  with assms(4) show ?thesis by (simp add: arena_need_def)
qed

lemma captures_from_visit:
  assumes s: "s < length (visited_states c)" "visited_states c ! s \<noteq> ep"
    and p: "pushes_ok slots pos (ss ! s) bm as ae (mark_visited s ep c) (pushed, t, c1)"
    and E: "pending (map fst pushed) = E `` {s}"
    and r: "captures_from ss E slots pos ep (pending (map fst (pushed @ stack)))
      (if t then th @ [(s, f)] else th) c1 th' c'"
  shows "captures_from ss E slots pos ep (insert s (pending (map fst stack))) th c th' c'"
proof -
  have v: "visited_states c1 = (visited_states c)[s := ep]" and t: "t = rests (ss ! s)"
    and x: "extends c c1" "epoch_counter c1 = epoch_counter c"
    and l: "length (capture_frames c1) \<le> length (capture_frames c) + slots"
    using p by (auto simp: pushes_ok_def mark_visited_def extends_def)
  have need: "arena_need slots ep c1 \<le> arena_need slots ep c" by (rule arena_need_visit [OF s v l])
  have n: "s \<notin> seen_set (visited_states c) ep" "seen_set (visited_states c1) ep = insert s (seen_set (visited_states c) ep)"
    using s v by (simp_all add: seen_set_def [of "visited_states c"])
  from r obtain new where new: "th' = (if t then th @ [(s, f)] else th) @ new"
    "traversed ss E (E `` {s} \<union> pending (map fst stack)) (insert s (seen_set (visited_states c) ep))
       (seen_set (visited_states c') ep) (map fst new)"
    unfolding captures_from_def n(2) by (auto simp: E)
  have "traversed ss E (insert s (pending (map fst stack))) (seen_set (visited_states c) ep)
      (seen_set (visited_states c') ep) (map fst (if t then (s, f) # new else new))"
    using traversed_visit [OF n(1) new(2)] t by (simp add: if_distrib)
  moreover have "th' = th @ (if t then (s, f) # new else new)" using new(1) by simp
  moreover have "\<forall>v \<in> set (visited_states c1). v \<in> set (visited_states c) \<or> v = ep"
    using v set_update_subset_insert [of "visited_states c" s ep] by auto
  moreover have "length (visited_states c1) = length (visited_states c)" using v by simp
  ultimately show ?thesis using r x need unfolding captures_from_def
    by (auto intro: extends_trans order.trans)
qed

lemma capture_loop_captures:
  assumes ok: "states_ok (owned_states e)" and n: "slots = 2 * n" "n \<le> MaxCaptures"
    and lab: "\<And>s. s < length (owned_states e) \<Longrightarrow> label_ok k n (st_label (owned_states e ! s))"
    and c: "length (visited_states c) = length (owned_states e)" "arena_ok slots pos c"
      "\<And>s. s \<in> pending (map fst stack) \<Longrightarrow> s < length (owned_states e)"
      "\<forall>p \<in> set stack. frame_in c (snd p)" "\<forall>t \<in> set th. frame_in c (snd t)"
      "arena_need slots ep c \<le> MaxCaptureFrameEntries"
      "capture_loop e pos ep bm as ae stack th c = (th', c')"
  shows "captures_from (owned_states e) (eps (owned_states e) bm as ae) slots pos ep (pending (map fst stack)) th c th' c'"
  using ok lab c
proof (induction e pos ep bm as ae stack th c rule: capture_loop.induct)
  case (1 e pos epoch bm as ae threads ctx)
  then show ?case by (auto intro: captures_from_refl)
next
  case (2 e pos epoch bm as ae frame stack threads ctx)
  then show ?case by simp
next
  case (3 e pos epoch bm as ae s frame stack threads ctx)
  let ?ss = "owned_states e"
  have s: "s < length ?ss" using 3(7) by simp
  then have i: "closure_index (?ss ! s) = s" "s < length (visited_states ctx)"
    using states_okD(1) [OF 3(3)] 3(5) by auto
  show ?case
  proof (cases "is_visited s epoch ctx")
    case True
    then have seen: "s \<in> seen_set (visited_states ctx) epoch" using i by (simp add: is_visited_def seen_set_def)
    have run: "capture_loop e pos epoch bm as ae stack threads ctx = (th', c')" using 3(11) i True by simp
    have "captures_from ?ss (eps ?ss bm as ae) slots pos epoch (pending (map fst stack)) threads ctx th' c'"
      by (rule 3(1) [OF refl _ _ 3(3,4,5,6) _ _ 3(9,10) run]) (use 3(7,8) i True in simp_all)
    with captures_from_skip [OF seen this] show ?thesis by simp
  next
    case False
    obtain pushed t c1 where p: "capture_pushes (?ss ! s) frame pos bm as ae (mark_visited s epoch ctx) = (pushed, t, c1)"
      by (metis prod_cases3)
    have m: "arena_ok slots pos (mark_visited s epoch ctx)" "frame_in (mark_visited s epoch ctx) frame"
      "capture_frames (mark_visited s epoch ctx) = capture_frames ctx"
      using 3(6,8) by (auto simp: mark_visited_def arena_ok_def frame_in_def)
    have "s \<in> unseen (visited_states ctx) epoch" using i False by (simp add: unseen_def is_visited_def)
    then have "1 \<le> card (unseen (visited_states ctx) epoch)" by (auto simp: Suc_le_eq card_gt_0_iff)
    then have "slots * 1 \<le> slots * card (unseen (visited_states ctx) epoch)" by (rule mult_le_mono2)
    then have "slots \<le> slots * card (unseen (visited_states ctx) epoch)" by (simp only: mult_1_right)
    then have "length (capture_frames (mark_visited s epoch ctx)) + slots \<le> MaxCaptureFrameEntries"
      using 3(10) unfolding m(3) arena_need_def by linarith
    from capture_pushes_ok [OF m(1,2) 3(4) [OF s] n(2,1) this, of bm as ae] p
    have po: "pushes_ok slots pos (?ss ! s) bm as ae (mark_visited s epoch ctx) (pushed, t, c1)" by simp
    then have q: "map fst pushed = fst (closure_pushes (?ss ! s) bm as ae)" "arena_ok slots pos c1" "extends ctx c1"
      "\<forall>p \<in> set pushed. frame_in c1 (snd p)" "visited_states c1 = (visited_states ctx)[s := epoch]"
      "length (capture_frames c1) \<le> length (capture_frames ctx) + slots"
      by (auto simp: pushes_ok_def mark_visited_def extends_def)
    have E: "pending (map fst pushed) = eps ?ss bm as ae `` {s}"
      using q(1) s by (auto simp: pending_def eps_pushes)
    have v: "length (visited_states ctx) > s" "visited_states ctx ! s \<noteq> epoch" using i False by (auto simp: is_visited_def)
    have "arena_need slots epoch c1 \<le> arena_need slots epoch ctx"
      using arena_need_visit [OF v q(5,6)] .
    then have need: "arena_need slots epoch c1 \<le> MaxCaptureFrameEntries" using 3(10) by simp
    have run: "capture_loop e pos epoch bm as ae (pushed @ stack) (if t then threads @ [(s, frame)] else threads) c1 = (th', c')"
      using 3(11) i False p by simp
    have "captures_from ?ss (eps ?ss bm as ae) slots pos epoch (pending (map fst (pushed @ stack)))
        (if t then threads @ [(s, frame)] else threads) c1 th' c'"
    proof (rule 3(2) [OF refl _ _ _ _ _ 3(3,4) _ q(2) _ _ _ need run])
      show "x < length ?ss" if "x \<in> pending (map fst (pushed @ stack))" for x
        using that E eps_ok [OF 3(3)] 3(7) by auto
      show "\<forall>p \<in> set (pushed @ stack). frame_in c1 (snd p)"
        using q(4) 3(8) frame_in_extends [OF _ q(3)] by auto
      show "\<forall>t \<in> set (if t then threads @ [(s, frame)] else threads). frame_in c1 (snd t)"
        using 3(8,9) frame_in_extends [OF _ q(3)] by auto
    qed (use i False p q(5) 3(5) in auto)
    from captures_from_visit [OF v po E this] show ?thesis by simp
  qed
qed

lemma add_state_capturing_captures:
  assumes "states_ok (owned_states e)" "slots = 2 * n" "n \<le> MaxCaptures"
    "\<And>s. s < length (owned_states e) \<Longrightarrow> label_ok k n (st_label (owned_states e ! s))"
    "length (visited_states c) = length (owned_states e)" "arena_ok slots pos c" "frame_in c f"
    "\<And>q. state = Some q \<Longrightarrow> q < length (owned_states e)"
    "\<forall>t \<in> set th. frame_in c (snd t)" "arena_need slots ep c \<le> MaxCaptureFrameEntries"
    "add_state_capturing e th state f pos ep c bm as ae = (th', c')"
  shows "captures_from (owned_states e) (eps (owned_states e) bm as ae) slots pos ep {q. state = Some q} th c th' c'"
proof -
  have "pending [state] = {q. state = Some q}" by (cases state) auto
  with capture_loop_captures [OF assms(1-6), of "[(state, f)]" th ep bm as ae th' c'] assms(7-) show ?thesis
    by (auto simp: add_state_capturing_def)
qed

lemma step_threads_captures:
  assumes ok: "states_ok (owned_states e)" and n: "slots = 2 * n" "n \<le> MaxCaptures"
    and lab: "\<And>s. s < length (owned_states e) \<Longrightarrow> label_ok k n (st_label (owned_states e ! s))"
    and c: "length (visited_states c) = length (owned_states e)" "arena_ok slots pos c"
      "\<forall>t \<in> set cur. fst t < length (owned_states e) \<and> frame_in c (snd t)" "\<forall>t \<in> set out. frame_in c (snd t)"
      "arena_need slots ep c \<le> MaxCaptureFrameEntries"
      "step_threads e r cur out pos ep c bm ae = (out', c')"
  shows "captures_from (owned_states e) (eps (owned_states e) bm False ae) slots pos ep
    {q. \<exists>s \<in> fst ` set cur. state_accepts e r s \<and> st_next (owned_states e ! s) = Some q} out c out' c'"
  using c
proof (induction cur arbitrary: out c)
  case Nil
  then show ?case by (auto intro: captures_from_refl)
next
  case (Cons t cur)
  let ?ss = "owned_states e"
  obtain s f where t: "t = (s, f)" by fastforce
  let ?A = "{q. state_accepts e r s \<and> st_next (?ss ! s) = Some q}"
  let ?B = "{q. \<exists>s \<in> fst ` set cur. state_accepts e r s \<and> st_next (?ss ! s) = Some q}"
  obtain out1 c1 where a: "(if state_accepts e r s then add_state_capturing e out (st_next (?ss ! s)) f pos ep c bm False ae
      else (out, c)) = (out1, c1)" by fastforce
  have s: "s < length ?ss" "frame_in c f" using Cons.prems(3) t by auto
  have first: "captures_from ?ss (eps ?ss bm False ae) slots pos ep ?A out c out1 c1"
  proof (cases "state_accepts e r s")
    case True
    with a have "add_state_capturing e out (st_next (?ss ! s)) f pos ep c bm False ae = (out1, c1)" by simp
    from add_state_capturing_captures [OF ok n lab Cons.prems(1,2) s(2) states_okD(2) [OF ok s(1)] Cons.prems(4,5) this]
    show ?thesis using True by simp
  next
    case False
    with a Cons.prems(2,4) show ?thesis by (auto intro: captures_from_refl)
  qed
  then have c1: "arena_ok slots pos c1" "extends c c1" "length (visited_states c1) = length ?ss"
    "arena_need slots ep c1 \<le> MaxCaptureFrameEntries" "\<forall>t \<in> set out1. frame_in c1 (snd t)"
    using Cons.prems(1,5) by (auto simp: captures_from_def)
  have "captures_from ?ss (eps ?ss bm False ae) slots pos ep ?B out1 c1 out' c'"
    by (rule Cons.IH [OF c1(3,1) _ c1(5,4)]) (use Cons.prems(3,6) a t frame_in_extends [OF _ c1(2)] in auto)
  from captures_from_trans [OF first this]
  have "captures_from ?ss (eps ?ss bm False ae) slots pos ep (?A \<union> ?B) out c out' c'" .
  moreover have "?A \<union> ?B = {q. \<exists>s \<in> fst ` set (t # cur). state_accepts e r s \<and> st_next (?ss ! s) = Some q}"
    using t by auto
  ultimately show ?case by simp
qed

text \<open>A generation of the capturing search, and what it costs.\<close>

definition capture_ctx :: "nat \<Rightarrow> nat \<Rightarrow> nat \<Rightarrow> MatchContext \<Rightarrow> bool" where
  "capture_ctx n slots pos c \<longleftrightarrow> arena_ok slots pos c \<and> length (visited_states c) = n \<and> ctx_ok c"

lemma advance_capture_ctx:
  assumes "capture_ctx n slots pos c" "advance_epoch c = (ep, c1)"
  shows "capture_ctx n slots pos c1" "extends c c1" "seen_set (visited_states c1) ep = {}"
    "arena_need slots ep c1 = length (capture_frames c) + slots * n" "ep \<le> epoch_counter c1"
proof -
  have "\<forall>v \<in> set (visited_states c). v \<le> epoch_counter c" "length (visited_states c) = n"
    using assms(1) by (auto simp: capture_ctx_def ctx_ok_def)
  note a = advance_epoch_fresh [OF this(1) assms(2)] this(2)
  show "capture_ctx n slots pos c1" "ep \<le> epoch_counter c1"
    using a assms(1) by (auto simp: capture_ctx_def arena_ok_def ctx_ok_def epoch_valid_def)
  show "extends c c1" using a by (simp add: extends_def)
  show e: "seen_set (visited_states c1) ep = {}" using a by (simp add: epoch_members_def)
  then have "unseen (visited_states c1) ep = {..<n}" using a by (auto simp: unseen_def seen_set_def epoch_valid_def)
  with a show "arena_need slots ep c1 = length (capture_frames c) + slots * n" by (simp add: arena_need_def)
qed

lemma captures_from_top:
  assumes "captures_from ss E slots pos ep S [] c th' c'" "seen_set (visited_states c) ep = {}"
    "capture_ctx n slots p c" "ep \<le> epoch_counter c"
  shows "distinct (map fst th')" "set (map fst th') = active ss (E\<^sup>* `` S)" "capture_ctx n slots pos c'"
    "extends c c'" "length (capture_frames c') \<le> arena_need slots ep c" "\<forall>t \<in> set th'. frame_in c' (snd t)"
proof -
  have "traversed ss E S {} (seen_set (visited_states c') ep) (map fst th')"
    using assms(1,2) by (auto simp: captures_from_def)
  from traversed_top(2,3) [OF this]
  show "distinct (map fst th')" "set (map fst th') = active ss (E\<^sup>* `` S)" by (auto simp: active_def)
  show "capture_ctx n slots pos c'" "extends c c'" "\<forall>t \<in> set th'. frame_in c' (snd t)"
    using assms by (auto simp: captures_from_def capture_ctx_def ctx_ok_def)
  show "length (capture_frames c') \<le> arena_need slots ep c"
    using assms(1) by (simp add: captures_from_def arena_need_def)
qed

lemma capture_ctx_mono: "capture_ctx n slots p c \<Longrightarrow> p \<le> q \<Longrightarrow> capture_ctx n slots q c"
  by (auto simp: capture_ctx_def arena_ok_def intro: capture_bounded_mono)

lemma flags_eps_unmasked:
  "flags_eps ss (input_cond s pr as) i =
    eps ss (boundary_at s pr i) (as \<and> i = 0) (i = length (input_runes s))"
  by (simp add: flags_eps_def input_cond_def)

definition threads_simulate :: "engine \<Rightarrow> bytes \<Rightarrow> bool \<Rightarrow> bool \<Rightarrow> nat \<Rightarrow> thread list \<Rightarrow> MatchContext \<Rightarrow> bool" where
  "threads_simulate e s as pr i threads c \<longleftrightarrow>
     simulates e s as pr i (map fst threads) \<and> (\<forall>t \<in> set threads. frame_in c (snd t))"

lemma engine_labels:
  assumes "engine_inv ts e"
  shows "states_ok (owned_states e)" "eng_num_captures e \<le> MaxCaptures"
    "\<And>s. s < length (owned_states e) \<Longrightarrow>
      label_ok (length (eng_classes e)) (eng_num_captures e) (st_label (owned_states e ! s))"
  using assms by (auto simp: engine_inv_def)

lemma start_threads_simulate:
  assumes inv: "engine_inv ts e" and slots: "slots = 2 * eng_num_captures e"
    and c: "capture_ctx (length (owned_states e)) slots 0 c" and f: "frame_in c f"
    and room: "length (capture_frames c) + slots * length (owned_states e) \<le> MaxCaptureFrameEntries"
    and run: "advance_epoch c = (ep, c1)" "add_state_capturing e [] (Some (start_state e)) f 0 ep c1
      (boundary_at s pr 0) as (s = []) = (th, c2)"
  shows "capture_ctx (length (owned_states e)) slots 0 c2 \<and> extends c c2 \<and> threads_simulate e s as pr 0 th c2 \<and>
    length (capture_frames c2) \<le> length (capture_frames c) + slots * length (owned_states e)"
proof -
  let ?n = "length (owned_states e)"
  have z: "s = [] \<longleftrightarrow> 0 = length (input_runes s)" using offset_less_iff [of 0 s] by auto
  note a = advance_capture_ctx [OF c run(1)]
  have "captures_from (owned_states e) (eps (owned_states e) (boundary_at s pr 0) as (s = [])) slots 0 ep
      {q. Some (start_state e) = Some q} [] c1 th c2"
    by (rule add_state_capturing_captures [OF engine_labels(1) [OF inv] slots engine_labels(2) [OF inv]
        engine_labels(3) [OF inv] _ _ frame_in_extends [OF f a(2)] _ _ _ run(2)])
      (use a room inv in \<open>auto simp: capture_ctx_def engine_inv_def\<close>)
  note t = captures_from_top [OF this a(3,1,5)]
  have "simulates e s as pr 0 (map fst th)"
    using t(1,2) unfolding simulates_def input_reach_def reach_0 flags_eps_unmasked z by simp
  with t a extends_trans [OF a(2) t(4)] show ?thesis by (simp add: threads_simulate_def)
qed

lemma step_threads_simulate:
  assumes inv: "engine_inv ts e" and slots: "slots = 2 * eng_num_captures e"
    and c: "capture_ctx (length (owned_states e)) slots pos c" "pos \<le> pos'"
    and sim: "threads_simulate e s as pr i cur c" and i: "i < length (input_runes s)"
    and room: "length (capture_frames c) + slots * length (owned_states e) \<le> MaxCaptureFrameEntries"
    and run: "advance_epoch c = (ep, c1)" "step_threads e (fst (input_runes s ! i)) cur [] pos' ep c1
      (boundary_at s pr (Suc i)) (Suc i = length (input_runes s)) = (th, c2)"
  shows "capture_ctx (length (owned_states e)) slots pos' c2 \<and> extends c c2 \<and> threads_simulate e s as pr (Suc i) th c2 \<and>
    length (capture_frames c2) \<le> length (capture_frames c) + slots * length (owned_states e)"
proof -
  let ?ss = "owned_states e" and ?r = "fst (input_runes s ! i)" and ?acc = "input_acc (eng_classes e) s"
  note a = advance_capture_ctx [OF capture_ctx_mono [OF c] run(1)]
  have sim': "simulates e s as pr i (map fst cur)" using sim by (simp add: threads_simulate_def)
  have b: "fst t < length ?ss" if "t \<in> set cur" for t
  proof -
    have "fst t \<in> active (owned_states e) (input_reach e s as pr i)"
      using that sim' by (auto simp: simulates_def)
    then show ?thesis using input_reach_bound [OF inv, of "fst t" s as pr i] by (simp add: active_def)
  qed
  have "captures_from ?ss (eps ?ss (boundary_at s pr (Suc i)) False (Suc i = length (input_runes s))) slots pos' ep
      {q. \<exists>s \<in> fst ` set cur. state_accepts e ?r s \<and> st_next (?ss ! s) = Some q} [] c1 th c2"
    by (rule step_threads_captures [OF engine_labels(1) [OF inv] slots engine_labels(2) [OF inv]
        engine_labels(3) [OF inv] _ _ _ _ _ run(2)])
      (use a room b sim frame_in_extends [OF _ a(2)] in \<open>auto simp: capture_ctx_def threads_simulate_def\<close>)
  note t = captures_from_top [OF this a(3,1,5)]
  have "{q. \<exists>s \<in> fst ` set cur. state_accepts e ?r s \<and> st_next (?ss ! s) = Some q} =
      successors ?ss ?acc (input_reach e s as pr i) i"
    using sim' i state_accepts_iff [OF inv] input_reach_bound [OF inv]
    by (auto simp: simulates_def successors_def active_def input_acc_def)
  then have "simulates e s as pr (Suc i) (map fst th)"
    using t(1,2) unfolding simulates_def input_reach_def reach_Suc flags_eps_unmasked by simp
  with t a extends_trans [OF a(2) t(4)] show ?thesis by (simp add: threads_simulate_def)
qed

text \<open>The best match so far: its length, and a frame of positions up to it.\<close>

definition best_ok :: "bytes \<Rightarrow> nat set \<Rightarrow> nat \<Rightarrow> (nat \<times> nat) option \<Rightarrow> MatchContext \<Rightarrow> bool" where
  "best_ok s L i best c \<longleftrightarrow> map_option fst best = longest s {j \<in> L. j \<le> i} \<and>
     (\<forall>len f. best = Some (len, f) \<longrightarrow> frame_in c f \<and> (\<forall>v \<in> set (capture_frame_data f c). capture_bounded len v))"

lemma check_accept_best:
  assumes inv: "engine_inv ts e" and L: "L = prefix_ends (eng_classes e) ts s as pr"
    and sim: "threads_simulate e s as pr i th c" and c: "capture_ctx n slots (offset s i) c"
    and b: "\<forall>len f. best = Some (len, f) \<longrightarrow> frame_in c f \<and> (\<forall>v \<in> set (capture_frame_data f c). capture_bounded len v)"
    and l: "map_option fst best = longest s {j \<in> L. j < i}"
  shows "best_ok s L i (check_accept e th (offset s i) best) c"
proof -
  have m: "is_match e (map fst th) \<longleftrightarrow> i \<in> L"
    using simulates_match [OF inv, of s as pr i "map fst th"] sim L by (simp add: threads_simulate_def)
  have lg: "longest s {j \<in> L. j \<le> i} = (if i \<in> L then Some (offset s i) else longest s {j \<in> L. j < i})"
  proof (cases i)
    case 0
    then show ?thesis using longest_0 [of s L] by (auto simp: longest_def)
  next
    case (Suc k)
    then show ?thesis using longest_Suc [of s L k] by (simp add: less_Suc_eq_le)
  qed
  show ?thesis
  proof (cases "List.find (\<lambda>t. fst t = accept_state e) th")
    case None
    then have "\<not> is_match e (map fst th)" by (auto simp: is_match_def list_ex_iff find_None_iff)
    then have "i \<notin> L" using m by simp
    then show ?thesis using None b l lg by (simp add: check_accept_def best_ok_def)
  next
    case (Some t)
    then have t: "t \<in> set th" "fst t = accept_state e" by (auto simp: find_Some_iff)
    then have "accept_state e \<in> fst ` set th" by force
    then have "i \<in> L" using m by (simp add: is_match_def list_ex_iff)
    moreover have "frame_in c (snd t)" using sim t(1) by (simp add: threads_simulate_def)
    moreover have "\<forall>v \<in> set (capture_frame_data (snd t) c). capture_bounded (offset s i) v"
      using c frame_data_bounded by (auto simp: capture_ctx_def)
    ultimately show ?thesis using Some lg by (simp add: check_accept_def best_ok_def)
  qed
qed

lemma best_ok_extends:
  assumes "best_ok s L i best c" "extends c c'"
  shows "\<forall>len f. best = Some (len, f) \<longrightarrow> frame_in c' f \<and> (\<forall>v \<in> set (capture_frame_data f c'). capture_bounded len v)"
  using assms frame_in_extends [OF _ assms(2)] frame_data_extends [OF _ assms(2)] by (simp add: best_ok_def)

lemma capturing_loop_longest:
  assumes inv: "engine_inv ts e" and slots: "slots = 2 * eng_num_captures e"
    and L: "L = prefix_ends (eng_classes e) ts s as pr" and n: "n = length (owned_states e)"
  shows "i \<le> length (input_runes s) \<Longrightarrow> capture_ctx n slots (offset s i) c \<Longrightarrow> threads_simulate e s as pr i th c \<Longrightarrow>
    length (capture_frames c) + slots * n * (length (input_runes s) - i) \<le> MaxCaptureFrameEntries \<Longrightarrow>
    best_ok s L i best c \<Longrightarrow>
    capturing_loop e s (offset s i) (rune_at s (offset s i)) (word_rune s i) th c best = (c', res) \<Longrightarrow>
    best_ok s L (length (input_runes s)) res c' \<and> ctx_ok c' \<and> capture_frame_slots c' = slots"
proof (induction "length (input_runes s) - i" arbitrary: i c th best)
  case 0
  then have "i = length (input_runes s)" by simp
  with 0 show ?case by (auto simp: rune_at_offset capture_ctx_def arena_ok_def)
next
  case (Suc x)
  then have i: "i < length (input_runes s)" by simp
  obtain r w where rw: "input_runes s ! i = (r, w)" by fastforce
  have cur: "rune_at s (offset s i) = Some (r, w)" using i rw by (simp add: rune_at_offset)
  show ?case
  proof (cases "th = []")
    case True
    with Suc(5) have "active (owned_states e) (input_reach e s as pr i) = {}"
      by (simp add: threads_simulate_def simulates_def)
    then have "input_reach e s as pr j = {}" if "i < j" for j
      using reach_dead that unfolding input_reach_def by blast
    then have "j \<le> i" if "j \<in> L" for j using that prefix_ends_reach [OF inv] L by (cases "i < j") auto
    then have "{j \<in> L. j \<le> i} = {j \<in> L. j \<le> length (input_runes s)}" using i by force
    with Suc(4,7,8) cur True show ?thesis by (auto simp: best_ok_def capture_ctx_def arena_ok_def)
  next
    case False
    obtain ep c1 where a: "advance_epoch c = (ep, c1)" by fastforce
    obtain th' c2 where st: "step_threads e r th [] (offset s (Suc i)) ep c1 (boundary_at s pr (Suc i))
        (Suc i = length (input_runes s)) = (th', c2)" by fastforce
    have o: "offset s (Suc i) = offset s i + w" using i rw by (simp add: offset_Suc)
    have m: "length (input_runes s) - i = Suc (length (input_runes s) - Suc i)" using i by simp
    have room: "length (capture_frames c) + slots * n \<le> MaxCaptureFrameEntries"
      "length (capture_frames c) + slots * n + slots * n * (length (input_runes s) - Suc i) \<le> MaxCaptureFrameEntries"
      using Suc(6) unfolding m by simp_all
    have s2: "capture_ctx n slots (offset s (Suc i)) c2" "extends c c2" "threads_simulate e s as pr (Suc i) th' c2"
      "length (capture_frames c2) \<le> length (capture_frames c) + slots * n"
      using step_threads_simulate [OF inv slots, of "offset s i" c "offset s (Suc i)" s as pr i th ep c1 th' c2]
        Suc(4,5) i room(1) a st rw o n by simp_all
    have bd: "(word_rune s i \<noteq> word_rune s (Suc i)) = boundary_at s pr (Suc i)" by (simp add: boundary_at_def)
    have "length s \<le> offset s (Suc i) \<longleftrightarrow> Suc i = length (input_runes s)"
      using offset_less_iff [of "Suc i" s] i by auto
    then have run: "capturing_loop e s (offset s (Suc i)) (rune_at s (offset s (Suc i))) (word_rune s (Suc i)) th' c2
        (check_accept e th' (offset s (Suc i)) best) = (c', res)"
      using Suc(8) False cur o bd a st i word_at_offset [of "Suc i" s] by (simp add: Let_def)
    have b: "best_ok s L (Suc i) (check_accept e th' (offset s (Suc i)) best) c2"
      by (rule check_accept_best [OF inv L s2(3,1) best_ok_extends [OF Suc(7) s2(2)]])
        (use Suc(7) in \<open>simp add: best_ok_def less_Suc_eq_le\<close>)
    show ?thesis
      by (rule Suc(1) [OF _ _ s2(1,3) _ b run]) (use Suc(2) i room(2) s2(4) in simp_all)
  qed
qed

lemma bind_capture_ctx:
  assumes "ctx_ok c" "0 < slots" "slots \<le> MaxCaptureFrameEntries"
    "c0 = reset_capture_frames slots (bind_engine this n c)" "allocate_capture_frame npos c0 = (c1, fr)"
  shows "capture_ctx n slots 0 c1 \<and> fr = Some 0 \<and> frame_in c1 0 \<and> length (capture_frames c1) = slots"
proof -
  have v: "length (visited_states (bind_engine this n c)) = n" "ctx_ok (bind_engine this n c)"
    using bind_engine_valid [OF assms(1), of n this] by (auto simp: ctx_valid_def epoch_valid_def ctx_ok_def)
  have c0: "c0 = (bind_engine this n c)\<lparr>capture_frame_slots := slots, capture_frames := []\<rparr>"
    using assms(4) by (simp add: reset_capture_frames_def)
  have "c1 = c0\<lparr>capture_frames := replicate slots npos\<rparr>" "fr = Some 0"
    using assms(3,5) c0 by (auto simp: allocate_capture_frame_def)
  with v c0 assms(2) show ?thesis
    by (auto simp: capture_ctx_def arena_ok_def ctx_ok_def frame_in_def capture_bounded_def)
qed

lemma find_prefix_capturing_longest:
  assumes inv: "engine_inv ts e" and ok: "engine_ok e" and c: "ctx_ok c"
    and room: "2 * eng_num_captures e * (1 + length (owned_states e) * (1 + length (input_runes s))) \<le> MaxCaptureFrameEntries"
    and run: "find_prefix_with_context e this s c as pr = (c', caps, res)"
  shows "ctx_ok c' \<and> res = longest s (prefix_ends (eng_classes e) ts s as pr) \<and>
    (\<forall>len. res = Some len \<longrightarrow> length caps = eng_num_captures e \<and>
       (\<forall>cap \<in> set caps. capture_bounded len (fst cap) \<and> capture_bounded len (snd cap)))"
proof (cases "eng_num_captures e = 0")
  case True
  obtain c1 r where n: "find_prefix_noncapturing_with_context e this s (bind_engine this (state_count e) c) as pr = (c1, r)"
    by fastforce
  have "ctx_ok (bind_engine this (state_count e) c)" by (rule ctx_valid_ok [OF bind_engine_valid [OF c]])
  from find_prefix_noncapturing_longest [OF inv ok this n] True run n ok show ?thesis
    by (auto simp: find_prefix_with_context_def Let_def)
next
  case False
  let ?L = "prefix_ends (eng_classes e) ts s as pr" and ?n = "length (owned_states e)"
  define slots where "slots = 2 * eng_num_captures e"
  have sc: "state_count e = ?n" using inv by (simp add: engine_inv_def)
  have sl: "0 < slots" "slots + slots * ?n + slots * ?n * length (input_runes s) \<le> MaxCaptureFrameEntries"
    using False room by (simp_all add: slots_def algebra_simps)
  obtain c1 fr where al: "allocate_capture_frame npos (reset_capture_frames slots (bind_engine this ?n c)) = (c1, fr)" by fastforce
  have b: "capture_ctx ?n slots 0 c1" "fr = Some 0" "frame_in c1 0" "length (capture_frames c1) = slots"
    using bind_capture_ctx [OF c sl(1) _ refl al] sl(2) by simp_all
  obtain ep c2 where a: "advance_epoch c1 = (ep, c2)" by fastforce
  obtain th c3 where st: "add_state_capturing e [] (Some (start_state e)) 0 0 ep c2 (boundary_at s pr 0) as (s = []) = (th, c3)"
    by fastforce
  have t: "capture_ctx ?n slots 0 c3" "threads_simulate e s as pr 0 th c3" "length (capture_frames c3) \<le> slots + slots * ?n"
    using start_threads_simulate [OF inv slots_def b(1,3) _ a st] b(4) sl(2) by simp_all
  obtain c4 best where lp: "capturing_loop e s 0 (rune_at s 0) (word_rune s 0) th c3 (check_accept e th 0 None) = (c4, best)" by fastforce
  have b0: "best_ok s ?L 0 (check_accept e th (offset s 0) None) c3"
    by (rule check_accept_best [OF inv refl t(2)]) (use t(1) in \<open>auto simp: longest_def\<close>)
  have "best_ok s ?L (length (input_runes s)) best c4 \<and> ctx_ok c4 \<and> capture_frame_slots c4 = slots"
    by (rule capturing_loop_longest [OF inv slots_def refl refl _ _ t(2) _ b0]) (use t lp sl(2) in simp_all)
  moreover have "{j \<in> ?L. j \<le> length (input_runes s)} = ?L" using prefix_ends_bound [OF inv] by auto
  ultimately have bo: "map_option fst best = longest s ?L" "ctx_ok c4" "capture_frame_slots c4 = slots"
    "\<And>len f. best = Some (len, f) \<Longrightarrow> frame_in c4 f \<and> (\<forall>v \<in> set (capture_frame_data f c4). capture_bounded len v)"
    by (auto simp: best_ok_def)
  have "word_at (rune_at s 0) = word_rune s 0" using word_at_offset [of 0 s] by simp
  moreover have "pr \<noteq> word_rune s 0 \<longleftrightarrow> boundary_at s pr 0" by (simp add: boundary_at_def)
  ultimately have f: "(c', caps, res) = (case best of None \<Rightarrow> (c4, [], None) | Some (len, f) \<Rightarrow> (c4, read_captures e f c4, Some len))"
    using run False ok sc al b(2) a st lp
    by (simp add: find_prefix_with_context_def Let_def slots_def [symmetric] split: option.splits)
  show ?thesis
  proof (cases best)
    case None
    with f bo show ?thesis by simp
  next
    case (Some p)
    obtain len fi where p: "p = (len, fi)" by (cases p)
    note d = bo(4) [OF Some [unfolded p]]
    have l: "length (capture_frame_data fi c4) = slots" using frame_data_length d bo(3) by simp
    have "capture_bounded len (capture_frame_data fi c4 ! k)" if "k < slots" for k using d l that by simp
    then have "\<forall>cap \<in> set (read_captures e fi c4). capture_bounded len (fst cap) \<and> capture_bounded len (snd cap)"
      by (auto simp: read_captures_def slots_def Let_def)
    moreover have "length (read_captures e fi c4) = eng_num_captures e" by (simp add: read_captures_def Let_def)
    moreover have "c' = c4" "caps = read_captures e fi c4" "res = Some len" using f Some p by simp_all
    moreover have "longest s ?L = Some len" using bo(1) Some p by simp
    ultimately show ?thesis using bo(2) by simp
  qed
qed

end
