(* ===== verification/CaptureBounds.thy ===== *)
theory CaptureBounds
  imports RegexCapture
begin

text \<open>
  The capturing search of \<open>include/trieste/regex_engine.h\<close> whether or not the arena of capture frames has
  room (\<open>RegexCapture\<close> assumes that it has): the frames of the threads stay inside the arena, the arena inside
  its limit, and the captures of a match inside the match.
\<close>

subsection \<open>The arena, full or not\<close>

text \<open>What holds of a capturing search whether or not the arena has room for its frames: a thread whose
  frame cannot be cloned is dropped.\<close>

definition within_arena :: "engine \<Rightarrow> nat \<Rightarrow> MatchContext \<Rightarrow> bool" where
  "within_arena e pos c \<longleftrightarrow> arena_ok (2 * eng_num_captures e) pos c \<and>
     length (visited_states c) = length (owned_states e) \<and> length (capture_frames c) \<le> MaxCaptureFrameEntries"

definition thread_in :: "engine \<Rightarrow> MatchContext \<Rightarrow> thread \<Rightarrow> bool" where
  "thread_in e c t \<longleftrightarrow> fst t < length (owned_states e) \<and> frame_in c (snd t)"

definition push_in :: "engine \<Rightarrow> MatchContext \<Rightarrow> nat option \<times> nat \<Rightarrow> bool" where
  "push_in e c p \<longleftrightarrow> (\<forall>s. fst p = Some s \<longrightarrow> s < length (owned_states e)) \<and> frame_in c (snd p)"

lemma thread_in_extends: "thread_in e c t \<Longrightarrow> extends c c' \<Longrightarrow> thread_in e c' t"
  by (auto simp: thread_in_def intro: frame_in_extends)

lemma push_in_extends: "push_in e c p \<Longrightarrow> extends c c' \<Longrightarrow> push_in e c' p"
  by (auto simp: push_in_def intro: frame_in_extends)

lemma within_mark: "within_arena e pos c \<Longrightarrow> within_arena e pos (mark_visited i ep c)"
  by (simp add: within_arena_def arena_ok_def mark_visited_def)

lemma capture_pushes_within:
  assumes inv: "engine_inv ts e" and s: "s < length (owned_states e)" and c: "within_arena e pos c" "frame_in c f"
    and run: "capture_pushes (owned_states e ! s) f pos bm as ae c = (pushed, t, c')"
  shows "within_arena e pos c' \<and> extends c c' \<and> (\<forall>p \<in> set pushed. push_in e c' p)"
proof -
  let ?st = "owned_states e ! s"
  note n = states_okD [OF engine_labels(1) [OF inv] s]
  show ?thesis
  proof (cases "is_capture (st_label ?st) \<and> st_label ?st \<noteq> Split")
    case True
    define k where "k = (if is_capture_open (st_label ?st) then capture_index (st_label ?st) * 2
      else capture_index (st_label ?st) * 2 + 1)"
    have k: "k < 2 * eng_num_captures e"
      using capture_label_index [OF engine_labels(3) [OF inv s] engine_labels(2) [OF inv]] True by (auto simp: k_def)
    show ?thesis
    proof (cases "length (capture_frames c) + 2 * eng_num_captures e \<le> MaxCaptureFrameEntries")
      case room: True
      have "arena_ok (2 * eng_num_captures e) pos c" using c(1) by (simp add: within_arena_def)
      from clone_and_set [OF this c(2) k room] obtain ctx1 g c1 where
        g: "clone_capture_frame f c = (ctx1, Some g)" "c1 = set_capture g k (of_nat pos) ctx1"
        "arena_ok (2 * eng_num_captures e) pos c1" "extends c c1" "frame_in c1 g"
        "length (capture_frames c1) = length (capture_frames c) + 2 * eng_num_captures e"
        "visited_states c1 = visited_states c" by blast
      have "capture_pushes ?st f pos bm as ae c = ([(st_next ?st, g)], False, c1)"
        using True g(1,2) by (auto simp: capture_pushes_def is_capture_def k_def)
      with run g room n(2) c(1) show ?thesis by (auto simp: within_arena_def push_in_def)
    next
      case False
      then have "clone_capture_frame f c = (c, None)" using c(1) by (simp add: clone_capture_frame_def within_arena_def arena_ok_def)
      then have "capture_pushes ?st f pos bm as ae c = ([], False, c)"
        using True unfolding is_capture_def by (elim conjE disjE) (simp_all add: capture_pushes_def)
      with run c(1) show ?thesis by simp
    qed
  next
    case False
    then have "\<not> is_capture_open (st_label ?st)" "\<not> is_capture_close (st_label ?st)"
      by (auto simp: is_capture_def is_capture_open_def is_capture_close_def)
    with run c n show ?thesis by (auto simp: capture_pushes_def push_in_def split: if_splits)
  qed
qed

lemma capture_loop_within:
  assumes "engine_inv ts e"
  shows "within_arena e pos c \<Longrightarrow> \<forall>p \<in> set stack. push_in e c p \<Longrightarrow> \<forall>t \<in> set th. thread_in e c t \<Longrightarrow>
    capture_loop e pos ep bm as ae stack th c = (th', c') \<Longrightarrow>
    within_arena e pos c' \<and> extends c c' \<and> (\<forall>t \<in> set th'. thread_in e c' t)"
  using assms
proof (induction e pos ep bm as ae stack th c rule: capture_loop.induct)
  case (3 e pos epoch bm as ae s frame stack threads ctx)
  let ?ss = "owned_states e"
  have s: "s < length ?ss" "frame_in ctx frame" using 3(4) by (simp_all add: push_in_def)
  then have i: "closure_index (?ss ! s) = s" "s < length (visited_states ctx)"
    using states_okD(1) [OF engine_labels(1) [OF 3(7)]] 3(3) by (auto simp: within_arena_def)
  show ?case
  proof (cases "is_visited s epoch ctx")
    case True
    show ?thesis by (rule 3(1) [OF refl]) (use 3(3-7) i True in simp_all)
  next
    case False
    let ?m = "mark_visited s epoch ctx"
    obtain pushed t c1 where p: "capture_pushes (?ss ! s) frame pos bm as ae ?m = (pushed, t, c1)"
      by (metis prod_cases3)
    have m: "within_arena e pos ?m" "frame_in ?m frame" "extends ctx ?m"
      using within_mark [OF 3(3)] s(2) by (simp_all add: frame_in_def extends_def mark_visited_def)
    note q = capture_pushes_within [OF 3(7) s(1) m(1,2) p]
    then have x: "extends ctx c1" using extends_trans [OF m(3)] by blast
    have "within_arena e pos c' \<and> extends c1 c' \<and> (\<forall>t \<in> set th'. thread_in e c' t)"
    proof (rule 3(2) [OF refl _ _ _ _ _ _ _ _ _ 3(7)])
      show "\<forall>p \<in> set (pushed @ stack). push_in e c1 p" using q 3(4) push_in_extends [OF _ x] by auto
      show "\<forall>t \<in> set (if t then threads @ [(s, frame)] else threads). thread_in e c1 t"
        using 3(5) s thread_in_extends [OF _ x] by (auto simp: thread_in_def)
    qed (use i False p q 3(6) in simp_all)
    then show ?thesis using extends_trans [OF x] by blast
  qed
qed auto

lemma add_state_within:
  assumes "engine_inv ts e" "within_arena e pos c" "push_in e c (state, f)" "\<forall>t \<in> set th. thread_in e c t"
    "add_state_capturing e th state f pos ep c bm as ae = (th', c')"
  shows "within_arena e pos c' \<and> extends c c' \<and> (\<forall>t \<in> set th'. thread_in e c' t)"
  using capture_loop_within [OF assms(1,2) _ assms(4), of "[(state, f)]"] assms(3,5) by (simp add: add_state_capturing_def)

lemma step_threads_within:
  assumes "engine_inv ts e"
  shows "within_arena e pos c \<Longrightarrow> \<forall>t \<in> set cur. thread_in e c t \<Longrightarrow> \<forall>t \<in> set th. thread_in e c t \<Longrightarrow>
    step_threads e r cur th pos ep c bm ae = (th', c') \<Longrightarrow>
    within_arena e pos c' \<and> extends c c' \<and> (\<forall>t \<in> set th'. thread_in e c' t)"
proof (induction cur arbitrary: th c)
  case (Cons t cur)
  obtain s f where t: "t = (s, f)" by fastforce
  obtain th1 c1 where a: "(if state_accepts e r s then add_state_capturing e th (st_next (owned_states e ! s)) f pos ep c bm False ae
      else (th, c)) = (th1, c1)" by fastforce
  have s: "s < length (owned_states e)" "frame_in c f" using Cons.prems(2) t by (simp_all add: thread_in_def)
  have p: "push_in e c (st_next (owned_states e ! s), f)"
    using states_okD(2) [OF engine_labels(1) [OF assms] s(1)] s(2) by (simp add: push_in_def)
  have c1: "within_arena e pos c1 \<and> extends c c1 \<and> (\<forall>t \<in> set th1. thread_in e c1 t)"
    using add_state_within [OF assms Cons.prems(1) p Cons.prems(3)] a Cons.prems(1,3)
    by (auto split: if_splits)
  have "within_arena e pos c' \<and> extends c1 c' \<and> (\<forall>t \<in> set th'. thread_in e c' t)"
    by (rule Cons.IH) (use c1 Cons.prems(2,4) t a thread_in_extends in auto)
  with c1 extends_trans show ?case by blast
qed auto

lemma within_mono: "within_arena e p c \<Longrightarrow> p \<le> q \<Longrightarrow> within_arena e q c"
  by (auto simp: within_arena_def arena_ok_def intro: capture_bounded_mono)

lemma within_advance: "within_arena e pos c \<Longrightarrow> advance_epoch c = (ep, c') \<Longrightarrow> within_arena e pos c' \<and> extends c c'"
  by (auto simp: advance_epoch_def Let_def within_arena_def arena_ok_def extends_def split: if_splits)

text \<open>The best match so far.\<close>

definition best_within :: "nat \<Rightarrow> (nat \<times> nat) option \<Rightarrow> MatchContext \<Rightarrow> bool" where
  "best_within pos best c \<longleftrightarrow> (\<forall>len f. best = Some (len, f) \<longrightarrow> len \<le> pos \<and> frame_in c f \<and>
     (\<forall>v \<in> set (capture_frame_data f c). capture_bounded len v))"

lemma best_within_extends:
  assumes "best_within pos best c" "extends c c'" "pos \<le> pos'"
  shows "best_within pos' best c'"
proof (cases best)
  case (Some p)
  obtain len f where p: "p = (len, f)" by fastforce
  have "len \<le> pos" "frame_in c f" "\<forall>v \<in> set (capture_frame_data f c). capture_bounded len v"
    using assms(1) Some p by (simp_all add: best_within_def)
  with frame_in_extends [OF _ assms(2)] frame_data_extends [OF _ assms(2)] assms(3) Some p show ?thesis
    by (simp add: best_within_def)
qed (simp add: best_within_def)

lemma check_accept_within:
  assumes "best_within pos best c" "within_arena e pos c" "\<forall>t \<in> set th. thread_in e c t"
  shows "best_within pos (check_accept e th pos best) c"
proof (cases "List.find (\<lambda>t. fst t = accept_state e) th")
  case (Some t)
  then have "t \<in> set th" by (auto simp: find_Some_iff)
  with Some assms frame_data_bounded show ?thesis
    by (auto simp: check_accept_def best_within_def thread_in_def within_arena_def)
qed (use assms(1) in \<open>simp add: check_accept_def\<close>)

lemma rune_at_bound: "rune_at s pos = Some (r, n) \<Longrightarrow> pos + n \<le> length s"
  by (auto simp: rune_at_def split: if_splits dest!: decode_rune_bound)

lemma capturing_loop_within:
  assumes "engine_inv ts e"
  shows "within_arena e pos c \<Longrightarrow> \<forall>t \<in> set th. thread_in e c t \<Longrightarrow> best_within pos best c \<Longrightarrow> pos \<le> length s \<Longrightarrow>
    cur = rune_at s pos \<Longrightarrow> capturing_loop e s pos cur nw th c best = (c', res) \<Longrightarrow>
    within_arena e (length s) c' \<and> best_within (length s) res c'"
  using assms
proof (induction e s pos cur nw th c best rule: capturing_loop.induct)
  case (1 e s pos nw th c best)
  then show ?case using within_mono [of e pos c "length s"] best_within_extends [of pos best c c "length s"] by simp
next
  case (2 e s pos r n nw th c best)
  show ?case
  proof (cases "th = []")
    case True
    with 2(7) have "c' = c" "res = best" by simp_all
    then show ?thesis using 2(2,4,5) within_mono [of e pos c "length s"] best_within_extends [of pos best c c "length s"] by simp
  next
    case False
    have b: "pos + n \<le> length s" using rune_at_bound 2(6) by metis
    obtain ep c1 where a: "advance_epoch c = (ep, c1)" by fastforce
    let ?w = "word_at (rune_at s (pos + n))"
    obtain th2 c2 where st: "step_threads e r th [] (pos + n) ep c1 (nw \<noteq> ?w) (length s \<le> pos + n) = (th2, c2)" by fastforce
    note w1 = within_advance [OF 2(2) a]
    then have w1': "within_arena e (pos + n) c1" using within_mono [of e pos c1 "pos + n"] by simp
    have w2: "within_arena e (pos + n) c2 \<and> extends c1 c2 \<and> (\<forall>t \<in> set th2. thread_in e c2 t)"
      by (rule step_threads_within [OF 2(8) w1' _ _ st]) (use 2(3) w1 thread_in_extends in auto)
    then have "best_within (pos + n) best c2" using best_within_extends [OF 2(4)] w1 extends_trans by fastforce
    then have "best_within (pos + n) (check_accept e th2 (pos + n) best) c2" using check_accept_within w2 by blast
    note cb = this
    have run: "capturing_loop e s (pos + n) (rune_at s (pos + n)) ?w th2 c2 (check_accept e th2 (pos + n) best) = (c', res)"
      using 2(7) False a st by (simp add: Let_def)
    show ?thesis
      by (rule 2(1) [OF False refl refl refl refl refl a [symmetric] refl refl _ refl _ _ cb b refl _ 2(8)]) (use st w2 run in simp_all)
  qed
qed


lemma find_prefix_within:
  assumes inv: "engine_inv ts e" and n: "0 < eng_num_captures e" and ok: "engine_ok e"
    and run: "find_prefix_with_context e this s c as pr = (c', caps, Some len)"
  shows "len \<le> length s \<and> length caps = eng_num_captures e \<and>
    (\<forall>cap \<in> set caps. capture_bounded len (fst cap) \<and> capture_bounded len (snd cap)) \<and>
    length (capture_frames c') \<le> MaxCaptureFrameEntries"
proof -
  let ?slots = "2 * eng_num_captures e" and ?w = "word_at (rune_at s 0)"
  have sl: "?slots \<le> MaxCaptureFrameEntries" using engine_labels(2) [OF inv] by simp
  let ?c0 = "reset_capture_frames ?slots (bind_engine this (state_count e) c)"
  have v: "length (visited_states ?c0) = length (owned_states e)"
    using inv by (simp add: engine_inv_def reset_capture_frames_def bind_engine_def ensure_visited_capacity_def Let_def)
  obtain c1 where al: "allocate_capture_frame npos ?c0 = (c1, Some 0)" "within_arena e 0 c1" "frame_in c1 0"
    using sl v n by (auto simp: allocate_capture_frame_def reset_capture_frames_def within_arena_def arena_ok_def
        frame_in_def capture_bounded_def)
  obtain ep c2 where a: "advance_epoch c1 = (ep, c2)" by fastforce
  note w2 = within_advance [OF al(2) a]
  obtain th c3 where st: "add_state_capturing e [] (Some (start_state e)) 0 0 ep c2 (pr \<noteq> ?w) as (s = []) = (th, c3)"
    by fastforce
  have p: "push_in e c2 (Some (start_state e), 0)"
    using inv frame_in_extends [OF al(3)] w2 by (simp add: push_in_def engine_inv_def)
  have w3: "within_arena e 0 c3" "\<forall>t \<in> set th. thread_in e c3 t"
    using add_state_within [OF inv _ p _ st] w2 by simp_all
  obtain c4 best where lp: "capturing_loop e s 0 (rune_at s 0) ?w th c3 (check_accept e th 0 None) = (c4, best)" by fastforce
  have b: "best_within 0 (check_accept e th 0 None) c3"
    by (rule check_accept_within [OF _ w3]) (simp add: best_within_def)
  have w4: "within_arena e (length s) c4" "best_within (length s) best c4"
    using capturing_loop_within [OF inv w3 b _ refl lp] by simp_all
  have f: "(c', caps, Some len) = (case best of None \<Rightarrow> (c4, [], None) | Some (len, f) \<Rightarrow> (c4, read_captures e f c4, Some len))"
    using run n ok al(1) a st lp by (simp add: find_prefix_with_context_def Let_def split: option.splits)
  then obtain fi where best: "best = Some (len, fi)" "caps = read_captures e fi c4" "c' = c4"
    by (auto split: option.splits)
  then have d: "len \<le> length s" "frame_in c4 fi" "\<forall>v \<in> set (capture_frame_data fi c4). capture_bounded len v"
    using w4(2) by (simp_all add: best_within_def)
  have l: "length (capture_frame_data fi c4) = ?slots"
    using frame_data_length [OF d(2)] w4(1) by (simp add: within_arena_def arena_ok_def)
  have "capture_bounded len (capture_frame_data fi c4 ! k)" if "k < ?slots" for k using d(3) l that by simp
  then have "\<forall>cap \<in> set caps. capture_bounded len (fst cap) \<and> capture_bounded len (snd cap)"
    by (auto simp: best(2) read_captures_def Let_def)
  moreover have "length caps = eng_num_captures e" by (simp add: best(2) read_captures_def Let_def)
  ultimately show ?thesis using d(1) w4(1) best(3) by (simp add: within_arena_def)
qed

end
