(* ===== verification/Source.thy ===== *)
theory Source
  imports Utf8 "HOL-Library.List_Lexorder"
begin

text \<open>
  \<open>include/trieste/source.h\<close>: source buffers with their index of lines, and locations in them.
  A \<open>Source\<close> is a reference-counted pointer, so a \<open>source_def\<close> carries the identity of its object;
  the null pointer is \<open>None\<close>. Positions are \<open>nat\<close> below \<open>size_mod\<close>, and the differences the code
  takes wrap around. An exception of \<open>std::string_view::substr\<close> is \<open>Inl OutOfRange\<close>.

  The lemmas show that the index of lines cuts the contents at its newlines, that \<open>linecol\<close> and
  \<open>linepos\<close> agree, that printing a location that lies inside its source never throws, and that
  \<open>operator*\<close> is the smallest location around two locations of one source.
\<close>

abbreviation NL :: byte where "NL \<equiv> 0x0A"
abbreviation CR :: byte where "CR \<equiv> 0x0D"

text \<open>\<open>std::string::npos\<close>.\<close>

definition no_pos :: nat where "no_pos = size_mod - 1"

record source_def =
  sd_id :: nat
  sd_origin :: bytes
  sd_contents :: bytes
  sd_lines :: "nat list"
  sd_offset :: nat

subsection \<open>Sources\<close>

text \<open>\<open>contents.find(c, pos)\<close>, with \<open>None\<close> for \<open>npos\<close>.\<close>

definition find_byte :: "byte \<Rightarrow> bytes \<Rightarrow> nat \<Rightarrow> nat option" where
  "find_byte c s pos =
     (let k = pos + length (takeWhile (\<lambda>x. x \<noteq> c) (drop pos s))
      in if k < length s then Some k else None)"

lemma find_byte_Some:
  "find_byte c s pos = Some k \<longleftrightarrow> pos \<le> k \<and> k < length s \<and> s ! k = c \<and> (\<forall>i. pos \<le> i \<and> i < k \<longrightarrow> s ! i \<noteq> c)"
proof -
  let ?t = "takeWhile (\<lambda>x. x \<noteq> c) (drop pos s)"
  have lt: "s ! (pos + i) \<noteq> c" if "i < length ?t" for i
  proof -
    have "?t ! i = s ! (pos + i)"
      using that length_takeWhile_le [of "\<lambda>x. x \<noteq> c" "drop pos s"] by (simp add: takeWhile_nth)
    then show ?thesis using nth_mem [OF that] set_takeWhileD by fastforce
  qed
  have at: "s ! (pos + length ?t) = c" if "pos + length ?t < length s"
  proof -
    have "length ?t < length (drop pos s)" using that by auto
    from nth_length_takeWhile [OF this] show ?thesis using that by simp
  qed
  have lt': "s ! i \<noteq> c" if "pos \<le> i" "i < pos + length ?t" for i
    using lt [of "i - pos"] that by simp
  show ?thesis
  proof
    assume "find_byte c s pos = Some k"
    then have k: "k = pos + length ?t" "k < length s" by (auto simp: find_byte_def Let_def split: if_splits)
    with at lt' show "pos \<le> k \<and> k < length s \<and> s ! k = c \<and> (\<forall>i. pos \<le> i \<and> i < k \<longrightarrow> s ! i \<noteq> c)" by auto
  next
    assume a: "pos \<le> k \<and> k < length s \<and> s ! k = c \<and> (\<forall>i. pos \<le> i \<and> i < k \<longrightarrow> s ! i \<noteq> c)"
    then have "\<not> k < pos + length ?t" using lt' by blast
    moreover from this a have "pos + length ?t < length s" by linarith
    moreover from this have "\<not> pos + length ?t < k" using at a by fastforce
    ultimately show "find_byte c s pos = Some k" by (simp add: find_byte_def Let_def)
  qed
qed

lemma find_byte_None: "find_byte c s pos = None \<longleftrightarrow> (\<forall>i. pos \<le> i \<and> i < length s \<longrightarrow> s ! i \<noteq> c)"
proof
  assume n: "find_byte c s pos = None"
  show "\<forall>i. pos \<le> i \<and> i < length s \<longrightarrow> s ! i \<noteq> c"
  proof (rule ccontr)
    assume "\<not> (\<forall>i. pos \<le> i \<and> i < length s \<longrightarrow> s ! i \<noteq> c)"
    then have e: "\<exists>i. pos \<le> i \<and> i < length s \<and> s ! i = c" by blast
    define m where "m = (LEAST i. pos \<le> i \<and> i < length s \<and> s ! i = c)"
    from LeastI_ex [OF e] have m: "pos \<le> m" "m < length s" "s ! m = c" by (simp_all add: m_def)
    have "s ! i \<noteq> c" if "pos \<le> i" "i < m" for i
      using not_less_Least [of i "\<lambda>i. pos \<le> i \<and> i < length s \<and> s ! i = c"] that m(2) by (auto simp: m_def)
    with m have "find_byte c s pos = Some m" unfolding find_byte_Some by blast
    with n show False by simp
  qed
next
  assume "\<forall>i. pos \<le> i \<and> i < length s \<longrightarrow> s ! i \<noteq> c"
  then show "find_byte c s pos = None"
    using find_byte_Some [of c s pos] by (cases "find_byte c s pos") auto
qed

text \<open>\<open>find_lines\<close>: the loop over the newlines, from the one found first.\<close>

function find_lines_from :: "bytes \<Rightarrow> nat option \<Rightarrow> nat list" where
  "find_lines_from s None = []"
| "find_lines_from s (Some pos) = pos # find_lines_from s (find_byte NL s (pos + 1))"
  by pat_completeness auto
termination
  by (relation "measure (\<lambda>(s, p). case p of None \<Rightarrow> 0 | Some p \<Rightarrow> Suc (length s - p))")
    (auto simp: find_byte_Some split: option.splits)

definition find_lines :: "source_def \<Rightarrow> source_def" where
  "find_lines s = s\<lparr>sd_lines := sd_lines s @ find_lines_from (sd_contents s) (find_byte NL (sd_contents s) 0)\<rparr>"

text \<open>\<open>Source::make()\<close> for the object \<open>obj\<close>, and the three ways to fill it. What the file system
  delivers is the argument \<open>file\<close>: \<open>None\<close> when the file does not open, \<open>Some None\<close> when reading it
  fails.\<close>

definition make_source :: "nat \<Rightarrow> source_def" where
  "make_source obj = \<lparr>sd_id = obj, sd_origin = [], sd_contents = [], sd_lines = [], sd_offset = 0\<rparr>"

definition load :: "nat \<Rightarrow> bytes \<Rightarrow> bytes option option \<Rightarrow> source_def option" where
  "load obj relative file =
     (case file of
        None \<Rightarrow> None
      | Some None \<Rightarrow> None
      | Some (Some contents) \<Rightarrow>
          Some (find_lines ((make_source obj)\<lparr>sd_origin := relative, sd_contents := contents\<rparr>)))"

definition synthetic :: "nat \<Rightarrow> bytes \<Rightarrow> bytes \<Rightarrow> source_def" where
  "synthetic obj contents origin =
     find_lines ((make_source obj)\<lparr>sd_contents := contents, sd_origin := origin\<rparr>)"

definition synthetic_at_offset :: "nat \<Rightarrow> bytes \<Rightarrow> bytes \<Rightarrow> nat \<Rightarrow> source_def" where
  "synthetic_at_offset obj contents origin off = (synthetic obj contents origin)\<lparr>sd_offset := off\<rparr>"

definition linecol :: "source_def \<Rightarrow> nat \<Rightarrow> nat \<times> nat" where
  "linecol s pos =
     (let line = length (takeWhile (\<lambda>l. l < pos) (sd_lines s));
          col = (if line \<noteq> 0 then size_sub pos (sd_lines s ! (line - 1) + 1) else pos)
      in (line, col))"

definition linepos :: "source_def \<Rightarrow> nat \<Rightarrow> nat \<times> nat" where
  "linepos s line =
     (if length (sd_lines s) < line then (no_pos, 0)
      else let start = (if 0 < line then sd_lines s ! (line - 1) + 1 else 0);
               end = (if line < length (sd_lines s) then sd_lines s ! line else length (sd_contents s))
           in (start, size_sub end start))"

text \<open>\<open>std::string_view::substr\<close>.\<close>

definition substr :: "bytes \<Rightarrow> nat \<Rightarrow> nat \<Rightarrow> string_error + bytes" where
  "substr s pos n = (if length s < pos then Inl OutOfRange else Inr (take n (drop pos s)))"

subsection \<open>Locations\<close>

record location =
  loc_source :: "source_def option"
  loc_pos :: nat
  loc_len :: nat

definition no_location :: location where
  "no_location = \<lparr>loc_source = None, loc_pos = 0, loc_len = 0\<rparr>"

definition location_of_string :: "nat \<Rightarrow> bytes \<Rightarrow> location" where
  "location_of_string obj s = \<lparr>loc_source = Some (synthetic obj s []), loc_pos = 0, loc_len = length s\<rparr>"

definition view :: "location \<Rightarrow> string_error + bytes" where
  "view l =
     (case loc_source l of
        None \<Rightarrow> Inr []
      | Some s \<Rightarrow> substr (sd_contents s) (size_sub (loc_pos l) (sd_offset s)) (loc_len l))"

definition loc_linecol :: "location \<Rightarrow> nat \<times> nat" where
  "loc_linecol l =
     (case loc_source l of
        None \<Rightarrow> (0, 0)
      | Some s \<Rightarrow> if sd_offset s \<noteq> 0 then (0, loc_pos l) else linecol s (loc_pos l))"

text \<open>A number written to a stream.\<close>

fun dec_digits :: "nat \<Rightarrow> bytes" where
  "dec_digits n = (if n < 10 then [0x30 + of_nat n] else dec_digits (n div 10) @ [0x30 + of_nat (n mod 10)])"

declare dec_digits.simps [simp del]

definition origin_linecol :: "location \<Rightarrow> bytes" where
  "origin_linecol l =
     (case loc_source l of
        None \<Rightarrow> []
      | Some s \<Rightarrow>
          if sd_origin s \<noteq> [] then
            (let (line, col) = loc_linecol l
             in sd_origin s @ lit '':'' @ dec_digits (line + 1) @ lit '':'' @ dec_digits (col + 1))
          else [])"

definition write_chars_skipping_r :: "bytes \<Rightarrow> bytes" where
  "write_chars_skipping_r s = filter (\<lambda>ch. ch \<noteq> CR) s"

definition write_indexed_skipping_r :: "bytes \<Rightarrow> (nat \<Rightarrow> byte) \<Rightarrow> bytes" where
  "write_indexed_skipping_r s fn =
     concat (map (\<lambda>(idx, ch). if ch \<noteq> CR then [fn idx] else []) (enumerate 0 s))"

text \<open>The two ways of underlining: a location with a newline in its view, and one without.\<close>

definition str_lines :: "source_def \<Rightarrow> nat \<Rightarrow> nat \<Rightarrow> nat \<Rightarrow> nat \<Rightarrow> string_error + bytes" where
  "str_lines s lpos llen col end_pos =
     (let v = sd_contents s;
          (line2, col_last) = linecol s end_pos;
          (lpos2, llen2) = linepos s line2;
          interim_pos = size_add lpos llen
      in and_then (substr v lpos llen) (\<lambda>line_view_first.
         and_then (substr v lpos2 llen2) (\<lambda>line_view_last.
         and_then (substr v interim_pos (size_sub lpos2 interim_pos)) (\<lambda>interim_view.
         and_then (substr line_view_last 0 col_last) (\<lambda>marked.
           Inr (write_indexed_skipping_r line_view_first (\<lambda>idx. if idx < col then c8 CHR '' '' else c8 CHR ''~'') @ [NL] @
                write_chars_skipping_r line_view_first @
                write_chars_skipping_r interim_view @
                write_chars_skipping_r line_view_last @ [NL] @
                write_indexed_skipping_r marked (\<lambda>_. c8 CHR ''~'') @ [NL]))))))"

definition str_line :: "source_def \<Rightarrow> nat \<Rightarrow> nat \<Rightarrow> nat \<Rightarrow> nat \<Rightarrow> nat \<Rightarrow> string_error + bytes" where
  "str_line s lpos llen col pos len =
     and_then (substr (sd_contents s) lpos llen) (\<lambda>line_view.
     and_then (substr line_view 0 (size_add (size_sub pos lpos) len)) (\<lambda>marked.
       Inr (write_chars_skipping_r line_view @ [NL] @
            write_indexed_skipping_r marked (\<lambda>idx. if idx < col then c8 CHR '' '' else c8 CHR ''~'') @ [NL])))"

definition str :: "location \<Rightarrow> string_error + bytes" where
  "str l =
     (case loc_source l of
        None \<Rightarrow> Inr []
      | Some s \<Rightarrow>
          let (line, col) = loc_linecol l;
              (lpos, llen) = linepos s line
          in and_then (view l) (\<lambda>v.
               if NL \<in> set v then str_lines s lpos llen col (size_add (loc_pos l) (loc_len l))
               else str_line s lpos llen col (loc_pos l) (loc_len l)))"

text \<open>\<open>operator*\<close>; two sources are the same when they are the same object.\<close>

definition loc_mult :: "location \<Rightarrow> location \<Rightarrow> location" where
  "loc_mult this that =
     (case (loc_source this, loc_source that) of
        (None, _) \<Rightarrow> that
      | (Some _, None) \<Rightarrow> this
      | (Some s, Some t) \<Rightarrow>
          if sd_id s \<noteq> sd_id t then this
          else let lo = min (loc_pos this) (loc_pos that);
                   hi = max (size_add (loc_pos this) (loc_len this)) (size_add (loc_pos that) (loc_len that))
               in \<lparr>loc_source = Some s, loc_pos = lo, loc_len = size_sub hi lo\<rparr>)"

text \<open>The comparisons read the views, so they throw where a view does.\<close>

definition on_views :: "(bytes \<Rightarrow> bytes \<Rightarrow> bool) \<Rightarrow> location \<Rightarrow> location \<Rightarrow> string_error + bool" where
  "on_views f a b = and_then (view a) (\<lambda>x. and_then (view b) (\<lambda>y. Inr (f x y)))"

definition loc_eq :: "location \<Rightarrow> location \<Rightarrow> string_error + bool" where
  "loc_eq a b = on_views (=) a b"

definition loc_neq :: "location \<Rightarrow> location \<Rightarrow> string_error + bool" where
  "loc_neq a b = map_sum id Not (loc_eq a b)"

definition loc_less :: "location \<Rightarrow> location \<Rightarrow> string_error + bool" where
  "loc_less a b = on_views (<) a b"

definition loc_leq :: "location \<Rightarrow> location \<Rightarrow> string_error + bool" where
  "loc_leq a b = and_then (loc_less a b) (\<lambda>lt. if lt then Inr True else loc_eq a b)"

definition loc_greater :: "location \<Rightarrow> location \<Rightarrow> string_error + bool" where
  "loc_greater a b = map_sum id Not (loc_leq a b)"

definition loc_geq :: "location \<Rightarrow> location \<Rightarrow> string_error + bool" where
  "loc_geq a b = map_sum id Not (loc_less a b)"

subsection \<open>The index of lines\<close>

definition newlines :: "bytes \<Rightarrow> nat \<Rightarrow> nat list" where
  "newlines s pos = filter (\<lambda>i. s ! i = NL) [pos..<length s]"

lemma newlines_find:
  "newlines s pos = (case find_byte NL s pos of None \<Rightarrow> [] | Some k \<Rightarrow> k # newlines s (Suc k))"
proof (cases "find_byte NL s pos")
  case None
  from None have "newlines s pos = []" by (auto simp: newlines_def find_byte_None filter_empty_conv)
  with None show ?thesis by simp
next
  case (Some k)
  then have k: "pos \<le> k" "k < length s" "s ! k = NL" "\<forall>i. pos \<le> i \<and> i < k \<longrightarrow> s ! i \<noteq> NL"
    by (simp_all add: find_byte_Some)
  then have "[pos..<length s] = [pos..<k] @ k # [Suc k..<length s]"
    using upt_add_eq_append [of pos k "length s - k"] by (simp add: upt_conv_Cons)
  moreover have "filter (\<lambda>i. s ! i = NL) [pos..<k] = []" using k(4) by (auto simp: filter_empty_conv)
  ultimately show ?thesis using Some k(3) by (simp add: newlines_def)
qed

lemma find_lines_from_newlines: "find_lines_from s (find_byte NL s pos) = newlines s pos"
proof (induction "length s - pos" arbitrary: pos rule: less_induct)
  case less
  show ?case
  proof (cases "find_byte NL s pos")
    case (Some k)
    then have "length s - Suc k < length s - pos" by (auto simp: find_byte_Some)
    from less [OF this] Some show ?thesis by (subst newlines_find) simp
  qed (subst newlines_find, simp)
qed

text \<open>A source as it is built: its index is that of its contents, and its size is a \<open>size_t\<close>.\<close>

definition source_ok :: "source_def \<Rightarrow> bool" where
  "source_ok s \<longleftrightarrow> sd_lines s = newlines (sd_contents s) 0 \<and> length (sd_contents s) < size_mod"

lemma synthetic_fields [simp]:
  "sd_id (synthetic obj c o') = obj" "sd_origin (synthetic obj c o') = o'"
  "sd_contents (synthetic obj c o') = c" "sd_offset (synthetic obj c o') = 0"
  "sd_lines (synthetic obj c o') = newlines c 0"
  by (simp_all add: synthetic_def find_lines_def make_source_def find_lines_from_newlines)

lemma synthetic_ok [intro]: "length c < size_mod \<Longrightarrow> source_ok (synthetic obj c o')"
  by (simp add: source_ok_def)

lemma synthetic_at_offset_ok [intro]: "length c < size_mod \<Longrightarrow> source_ok (synthetic_at_offset obj c o' off)"
  by (simp add: source_ok_def synthetic_at_offset_def)

lemma load_ok: "load obj rel file = Some s \<Longrightarrow> length (sd_contents s) < size_mod \<Longrightarrow>
    source_ok s \<and> file = Some (Some (sd_contents s)) \<and> sd_offset s = 0"
  by (auto simp: load_def source_ok_def find_lines_def make_source_def find_lines_from_newlines split: option.splits)

lemma set_newlines: "set (newlines s pos) = {i. pos \<le> i \<and> i < length s \<and> s ! i = NL}"
  by (auto simp: newlines_def)

lemma sorted_newlines: "sorted (newlines s pos)" "distinct (newlines s pos)"
  by (simp_all add: newlines_def sorted_wrt_filter)

lemma newlines_mono: "i < j \<Longrightarrow> j < length (newlines s pos) \<Longrightarrow> newlines s pos ! i < newlines s pos ! j"
  using sorted_newlines [of s pos] by (metis less_trans nat_neq_iff nth_eq_iff_index_eq order_le_imp_less_or_eq sorted_nth_mono less_imp_le)

text \<open>The line a position is on, where it starts and where it ends.\<close>

definition line_of :: "bytes \<Rightarrow> nat \<Rightarrow> nat" where
  "line_of c pos = length (takeWhile (\<lambda>l. l < pos) (newlines c 0))"

definition line_start :: "bytes \<Rightarrow> nat \<Rightarrow> nat" where
  "line_start c line = (if line = 0 then 0 else newlines c 0 ! (line - 1) + 1)"

definition line_end :: "bytes \<Rightarrow> nat \<Rightarrow> nat" where
  "line_end c line = (if line < length (newlines c 0) then newlines c 0 ! line else length c)"

lemma nth_newlines: "i < length (newlines c 0) \<Longrightarrow> newlines c 0 ! i < length c \<and> c ! (newlines c 0 ! i) = NL"
  using nth_mem [of i "newlines c 0"] by (simp add: set_newlines)

lemma line_start_le_end: "line \<le> length (newlines c 0) \<Longrightarrow> line_start c line \<le> line_end c line"
  using newlines_mono [of "line - 1" line c 0] nth_newlines [of "line - 1" c]
  by (auto simp: line_start_def line_end_def Suc_le_eq)

lemma line_end_le: "line_end c line \<le> length c"
  using nth_newlines [of line c] by (auto simp: line_end_def)

lemma line_of_le: "line_of c pos \<le> length (newlines c 0)"
  by (simp add: line_of_def length_takeWhile_le)

lemma line_of_bounds:
  assumes "pos \<le> length c"
  shows "line_start c (line_of c pos) \<le> pos" "pos \<le> line_end c (line_of c pos)"
proof -
  let ?L = "newlines c 0" and ?k = "line_of c pos"
  have "?L ! (?k - 1) < pos" if "?k \<noteq> 0"
  proof -
    have "?k - 1 < length (takeWhile (\<lambda>l. l < pos) ?L)" using that by (simp add: line_of_def)
    then show ?thesis by (metis nth_mem set_takeWhileD takeWhile_nth)
  qed
  then show "line_start c ?k \<le> pos" by (auto simp: line_start_def)
  have "pos \<le> ?L ! ?k" if "?k < length ?L"
    using nth_length_takeWhile [of "\<lambda>l. l < pos" ?L] that by (simp add: line_of_def)
  then show "pos \<le> line_end c ?k" using assms by (auto simp: line_end_def)
qed

lemma line_of_unique:
  assumes "line \<le> length (newlines c 0)" "line_start c line \<le> pos" "pos \<le> line_end c line"
  shows "line_of c pos = line"
  unfolding line_of_def
proof (rule takeWhile_eq_take_P_nth [THEN arg_cong, of _ _ _ length, THEN trans])
  let ?L = "newlines c 0"
  show "?L ! i < pos" if "i < line" "i < length ?L" for i
  proof -
    have "?L ! i \<le> ?L ! (line - 1)" using that assms(1) sorted_newlines(1) [of c 0] by (auto intro: sorted_nth_mono)
    then show ?thesis using assms(2) that(1) by (simp add: line_start_def)
  qed
  show "\<not> ?L ! line < pos" if "line < length ?L" using assms(3) that by (simp add: line_end_def)
  show "length (take line ?L) = line" using assms(1) by simp
qed

lemma linecol_eq:
  assumes "source_ok s" "pos \<le> length (sd_contents s)"
  shows "linecol s pos = (line_of (sd_contents s) pos, pos - line_start (sd_contents s) (line_of (sd_contents s) pos))"
  using assms line_of_bounds(1) [OF assms(2)]
  by (auto simp: linecol_def source_ok_def line_of_def line_start_def Let_def size_sub_eq split: if_splits)

lemma linepos_eq:
  assumes "source_ok s" "line \<le> length (sd_lines s)"
  shows "linepos s line = (line_start (sd_contents s) line, line_end (sd_contents s) line - line_start (sd_contents s) line)"
proof -
  have "line_end (sd_contents s) line < size_mod"
    using assms(1) line_end_le [of "sd_contents s" line] by (simp add: source_ok_def)
  then have "size_sub (line_end (sd_contents s) line) (line_start (sd_contents s) line)
      = line_end (sd_contents s) line - line_start (sd_contents s) line"
    using assms by (intro size_sub_eq line_start_le_end) (simp_all add: source_ok_def)
  then show ?thesis using assms by (auto simp: linepos_def source_ok_def line_start_def line_end_def Let_def)
qed

lemma line_no_newline:
  assumes "line \<le> length (newlines c 0)" "line_start c line \<le> i" "i < line_end c line"
  shows "c ! i \<noteq> NL"
proof
  assume nl: "c ! i = NL"
  have "i < length c" using assms(3) line_end_le [of c line] by simp
  with nl have "i \<in> set (newlines c 0)" by (simp add: set_newlines)
  then obtain j where j: "j < length (newlines c 0)" "newlines c 0 ! j = i" by (auto simp: in_set_conv_nth)
  have "line_of c i = j"
  proof (rule line_of_unique)
    show "i \<le> line_end c j" using j by (simp add: line_end_def)
    show "line_start c j \<le> i" using j line_start_le_end [of j c] by (simp add: line_end_def)
  qed (use j in simp)
  moreover have "line_of c i = line" using assms by (intro line_of_unique) simp_all
  ultimately show False using assms(3) j by (simp add: line_end_def)
qed

text \<open>The lines of a source, as \<open>linepos\<close> cuts them, and text joined with newlines.\<close>

definition line_view :: "source_def \<Rightarrow> nat \<Rightarrow> bytes" where
  "line_view s line = (let (start, len) = linepos s line in take len (drop start (sd_contents s)))"

fun join_lines :: "bytes list \<Rightarrow> bytes" where
  "join_lines [] = []"
| "join_lines [l] = l"
| "join_lines (l # m # ls) = l @ NL # join_lines (m # ls)"

lemma line_view_eq:
  assumes "source_ok s" "line \<le> length (sd_lines s)"
  shows "line_view s line = take (line_end (sd_contents s) line - line_start (sd_contents s) line)
    (drop (line_start (sd_contents s) line) (sd_contents s))"
  using linepos_eq [OF assms] by (simp add: line_view_def)

lemma line_start_Suc: "line < length (newlines c 0) \<Longrightarrow> line_start c (Suc line) = Suc (line_end c line)"
  by (simp add: line_start_def line_end_def)

lemma join_lines_from:
  assumes "source_ok s" "line \<le> length (sd_lines s)"
  shows "join_lines (map (line_view s) [line..<Suc (length (sd_lines s))]) =
    drop (line_start (sd_contents s) line) (sd_contents s)"
  using assms(2)
proof (induction rule: inc_induct)
  case base
  let ?c = "sd_contents s"
  have "line_end ?c (length (sd_lines s)) = length ?c" using assms(1) by (simp add: line_end_def source_ok_def)
  then show ?case using line_view_eq [OF assms(1), of "length (sd_lines s)"] by simp
next
  case (step n)
  let ?c = "sd_contents s"
  have n: "n < length (newlines ?c 0)" using step(2) assms(1) by (simp add: source_ok_def)
  have e: "line_end ?c n < length ?c" "?c ! line_end ?c n = NL" "line_start ?c n \<le> line_end ?c n"
    using n nth_newlines [of n ?c] line_start_le_end [of n ?c] by (auto simp: line_end_def)
  have u: "[n..<Suc (length (sd_lines s))] = n # Suc n # [Suc (Suc n)..<Suc (length (sd_lines s))]"
    using step(2) by (simp add: upt_conv_Cons)
  have u': "[Suc n..<Suc (length (sd_lines s))] = Suc n # [Suc (Suc n)..<Suc (length (sd_lines s))]"
    using step(2) by (simp add: upt_conv_Cons)
  have "join_lines (map (line_view s) [n..<Suc (length (sd_lines s))]) =
      line_view s n @ NL # drop (line_start ?c (Suc n)) ?c"
    using step.IH unfolding u u' by simp
  also have "\<dots> = take (line_end ?c n - line_start ?c n) (drop (line_start ?c n) ?c) @ drop (line_end ?c n) ?c"
    using e(2) line_view_eq [OF assms(1), of n] step(2) Cons_nth_drop_Suc [OF e(1)]
    by (simp add: line_start_Suc [OF n])
  also have "\<dots> = drop (line_start ?c n) ?c"
    using append_take_drop_id [of "line_end ?c n - line_start ?c n" "drop (line_start ?c n) ?c"] e(3) by simp
  finally show ?case .
qed

subsection \<open>Properties of sources\<close>

definition sample_source :: source_def where
  "sample_source = synthetic 0 [0x61, 0x62, NL, NL, 0x63] (lit ''f'')"

lemma sample_source_ok: "source_ok sample_source"
  unfolding sample_source_def by (rule synthetic_ok) (simp add: size_mod_def)

lemma newlines_sample: "newlines [0x61, 0x62, NL, NL, 0x63] 0 = [2, 3]"
  by (simp add: newlines_def upt_rec)

lemmas sample_source_eval = sample_source_def linecol_def linepos_def newlines_sample size_sub_def size_add_def size_mod_def

text \<open>C35: \<open>linecol\<close> numbers the positions of a source, its end included, by line and column:
  every pair of a line and a column of that line belongs to exactly one position, which \<open>linepos\<close>
  of the line, moved by the column, gives back.\<close>

theorem linecol_bij:
  assumes "source_ok s"
  shows "bij_betw (linecol s) {..length (sd_contents s)}
      {(line, col). line \<le> length (sd_lines s) \<and> col \<le> snd (linepos s line)} \<and>
    list_all (\<lambda>pos. fst (linepos s (fst (linecol s pos))) + snd (linecol s pos) = pos) [0..<Suc (length (sd_contents s))]"
proof
  let ?c = "sd_contents s" and ?g = "\<lambda>(line, col). fst (linepos s line) + col"
  let ?B = "{(line, col). line \<le> length (sd_lines s) \<and> col \<le> snd (linepos s line)}"
  have n: "sd_lines s = newlines ?c 0" using assms by (simp add: source_ok_def)
  have lp: "linepos s line = (line_start ?c line, line_end ?c line - line_start ?c line)"
    if "line \<le> length (newlines ?c 0)" for line
    using linepos_eq [OF assms, of line] that n by simp
  have f: "linecol s pos \<in> ?B \<and> ?g (linecol s pos) = pos" if "pos \<le> length ?c" for pos
    using line_of_bounds [OF that] line_of_le [of ?c pos] by (simp add: linecol_eq [OF assms that] n lp)
  have g: "?g p \<le> length ?c \<and> linecol s (?g p) = p" if "p \<in> ?B" for p
  proof -
    obtain line col where p: "p = (line, col)" by (cases p)
    with that have l: "line \<le> length (newlines ?c 0)" "col \<le> line_end ?c line - line_start ?c line"
      using lp [of line] by (auto simp: n)
    then have b: "line_start ?c line + col \<le> line_end ?c line" using line_start_le_end [OF l(1)] by simp
    then have "line_of ?c (line_start ?c line + col) = line" by (intro line_of_unique l(1)) simp_all
    moreover have "line_start ?c line + col \<le> length ?c" using b line_end_le le_trans by blast
    ultimately show ?thesis using p l(1) by (simp add: lp linecol_eq [OF assms])
  qed
  show "bij_betw (linecol s) {..length ?c} ?B"
  proof (rule bij_betw_byWitness [where f' = ?g])
    show "linecol s ` {..length ?c} \<subseteq> ?B" by (rule image_subsetI) (rule conjunct1 [OF f], simp)
    show "?g ` ?B \<subseteq> {..length ?c}" by (rule image_subsetI, subst atMost_iff) (rule conjunct1 [OF g])
    show "\<forall>pos \<in> {..length ?c}. ?g (linecol s pos) = pos" by (rule ballI) (rule conjunct2 [OF f], simp)
    show "\<forall>p \<in> ?B. linecol s (?g p) = p" by (rule ballI) (rule conjunct2 [OF g])
  qed
  show "list_all (\<lambda>pos. fst (linepos s (fst (linecol s pos))) + snd (linecol s pos) = pos) [0..<Suc (length ?c)]"
    using f by (auto simp: list_all_iff case_prod_beta simp del: upt_Suc)
qed

theorem linecol_bij_witness:
  "bij_betw (linecol sample_source) {..5}
      {(line, col). line \<le> length (sd_lines sample_source) \<and> col \<le> snd (linepos sample_source line)} \<and>
    map (linecol sample_source) [0, 1, 2, 3, 4, 5] = [(0, 0), (0, 1), (0, 2), (1, 0), (2, 0), (2, 1)]"
proof
  have "length (sd_contents sample_source) = 5" by (simp add: sample_source_def)
  then show "bij_betw (linecol sample_source) {..5}
      {(line, col). line \<le> length (sd_lines sample_source) \<and> col \<le> snd (linepos sample_source line)}"
    using linecol_bij [OF sample_source_ok] by simp
qed (simp add: sample_source_eval)

text \<open>The lines that \<open>linepos\<close> delivers contain no newline, and joined with newlines they are the
  contents of the source.\<close>

theorem lines_partition:
  assumes "source_ok s"
  shows "join_lines (map (line_view s) [0..<Suc (length (sd_lines s))]) = sd_contents s \<and>
    list_all (\<lambda>line. NL \<notin> set (line_view s line)) [0..<Suc (length (sd_lines s))]"
proof
  show "join_lines (map (line_view s) [0..<Suc (length (sd_lines s))]) = sd_contents s"
    using join_lines_from [OF assms, of 0] by (simp add: line_start_def)
  show "list_all (\<lambda>line. NL \<notin> set (line_view s line)) [0..<Suc (length (sd_lines s))]"
  proof (simp only: list_all_iff, rule ballI)
    fix line assume "line \<in> set [0..<Suc (length (sd_lines s))]"
    then have l: "line \<le> length (sd_lines s)" by auto
    then have l': "line \<le> length (newlines (sd_contents s) 0)" using assms by (simp add: source_ok_def)
    have "x \<noteq> NL" if "x \<in> set (line_view s line)" for x
    proof -
      from that obtain i where "i < line_end (sd_contents s) line - line_start (sd_contents s) line"
        "x = sd_contents s ! (line_start (sd_contents s) line + i)"
        by (auto simp: line_view_eq [OF assms l] in_set_conv_nth)
      with line_no_newline [OF l', of "line_start (sd_contents s) line + i"] show ?thesis by simp
    qed
    then show "NL \<notin> set (line_view s line)" by blast
  qed
qed

theorem lines_partition_witness:
  "map (line_view sample_source) [0, 1, 2] = [[0x61, 0x62], [], [0x63]] \<and>
    join_lines (map (line_view sample_source) [0, 1, 2]) = sd_contents sample_source"
  using lines_partition [OF sample_source_ok] by (simp add: sample_source_eval line_view_def upt_rec)

subsection \<open>Properties of locations\<close>

text \<open>A location that lies inside its source, whose positions are those of the original file when
  the source has an offset.\<close>

definition inside :: "location \<Rightarrow> bool" where
  "inside l \<longleftrightarrow>
     (case loc_source l of
        None \<Rightarrow> True
      | Some s \<Rightarrow> source_ok s \<and> sd_offset s \<le> loc_pos l \<and>
          loc_pos l - sd_offset s + loc_len l \<le> length (sd_contents s) \<and> loc_pos l + loc_len l < size_mod)"

lemma view_inside:
  assumes "inside l" "loc_source l = Some s"
  shows "view l = Inr (take (loc_len l) (drop (loc_pos l - sd_offset s) (sd_contents s)))"
  using assms by (simp add: view_def inside_def substr_def size_sub_eq)

lemma linecol_line_le: "fst (linecol s pos) \<le> length (sd_lines s)"
  by (simp add: linecol_def Let_def length_takeWhile_le)

lemma loc_linecol_line_le: "loc_source l = Some s \<Longrightarrow> fst (loc_linecol l) \<le> length (sd_lines s)"
  by (simp add: loc_linecol_def linecol_line_le)

lemma linepos_le:
  assumes "source_ok s" "line \<le> length (sd_lines s)"
  shows "fst (linepos s line) + snd (linepos s line) \<le> length (sd_contents s)"
proof -
  have "line \<le> length (newlines (sd_contents s) 0)" using assms by (simp add: source_ok_def)
  from line_start_le_end [OF this] show ?thesis
    using linepos_eq [OF assms] line_end_le [of "sd_contents s" line] by simp
qed

lemma substr_ok: "pos \<le> length s \<Longrightarrow> substr s pos n = Inr (take n (drop pos s))"
  by (simp add: substr_def)

text \<open>C36: printing a location that lies inside its source never throws, whether it spans one line
  or several, and whether or not its source carries an offset.\<close>

theorem str_never_throws:
  assumes "inside l"
  shows "\<exists>out. str l = Inr out"
proof (cases "loc_source l")
  case (Some s)
  then have ok: "source_ok s" using assms by (simp add: inside_def)
  obtain line col where lc: "loc_linecol l = (line, col)" by (cases "loc_linecol l")
  obtain lpos llen where lp: "linepos s line = (lpos, llen)" by (cases "linepos s line")
  obtain line2 col2 where lc2: "linecol s (size_add (loc_pos l) (loc_len l)) = (line2, col2)"
    by (cases "linecol s (size_add (loc_pos l) (loc_len l))")
  obtain lpos2 llen2 where lp2: "linepos s line2 = (lpos2, llen2)" by (cases "linepos s line2")
  have b: "lpos + llen \<le> length (sd_contents s)"
    using linepos_le [OF ok, of line] loc_linecol_line_le [OF Some] lc lp by simp
  have b2: "lpos2 + llen2 \<le> length (sd_contents s)"
    using linepos_le [OF ok, of line2] linecol_line_le [of s "size_add (loc_pos l) (loc_len l)"] lc2 lp2 by simp
  have "size_add lpos llen = lpos + llen" using b ok by (simp add: size_add_eq source_ok_def)
  then have "\<exists>out. str_lines s lpos llen col (size_add (loc_pos l) (loc_len l)) = Inr out"
    using b b2 by (simp add: str_lines_def lc2 lp2 substr_ok Let_def)
  moreover have "\<exists>out. str_line s lpos llen col (loc_pos l) (loc_len l) = Inr out"
    using b by (simp add: str_line_def substr_ok)
  ultimately show ?thesis using Some view_inside [OF assms Some] by (simp add: str_def lc lp)
qed (simp add: str_def)

theorem str_never_throws_witness:
  "\<exists>out. str \<lparr>loc_source = Some sample_source, loc_pos = 1, loc_len = 4\<rparr> = Inr out"
  by (rule str_never_throws) (use sample_source_ok in \<open>simp add: inside_def sample_source_def size_mod_def\<close>)

lemma write_indexed_no_cr:
  assumes "CR \<notin> set s"
  shows "write_indexed_skipping_r s fn = map fn [0..<length s]"
proof -
  have "concat (map (\<lambda>(idx, ch). if ch \<noteq> CR then [fn idx] else []) (enumerate k s)) = map fn [k..<k + length s]" for k
    using assms by (induction s arbitrary: k) (auto simp: upt_rec simp del: upt_Suc)
  from this [of 0] show ?thesis by (simp add: write_indexed_skipping_r_def)
qed

lemma map_upt_split:
  "map (\<lambda>i. if i < a then x else y) [0..<a + b] = replicate a x @ replicate b y"
proof -
  have "map (\<lambda>i. if i < a then x else y) [0..<a] = map (\<lambda>_. x) [0..<a]"
    by (intro map_cong refl) simp
  moreover have "map (\<lambda>i. if i < a then x else y) [a..<a + b] = map (\<lambda>_. y) [a..<a + b]"
    by (intro map_cong refl) simp
  ultimately show ?thesis using upt_add_eq_append [of 0 a b] by (simp add: map_replicate_const del: upt_Suc)
qed

text \<open>A location within one line prints as that line, and under it as many spaces as its column
  and as many tildes as its length.\<close>

theorem str_one_line:
  assumes "inside \<lparr>loc_source = Some s, loc_pos = pos, loc_len = len\<rparr>" "sd_offset s = 0" "CR \<notin> set (sd_contents s)"
    and "NL \<notin> set (take len (drop pos (sd_contents s)))" "linecol s pos = (line, col)"
  shows "str \<lparr>loc_source = Some s, loc_pos = pos, loc_len = len\<rparr> =
    Inr (line_view s line @ [NL] @ replicate col (c8 CHR '' '') @ replicate len (c8 CHR ''~'') @ [NL])"
proof -
  let ?l = "\<lparr>loc_source = Some s, loc_pos = pos, loc_len = len\<rparr>" and ?c = "sd_contents s"
  let ?st = "line_start ?c line" and ?en = "line_end ?c line"
  have ok: "source_ok s" and p: "pos + len \<le> length ?c" "pos + len < size_mod" using assms(1,2) by (simp_all add: inside_def)
  have line: "line = line_of ?c pos" and col: "col = pos - ?st"
    using linecol_eq [OF ok, of pos] p assms(5) by auto
  have st: "?st \<le> pos" "pos \<le> ?en" using line_of_bounds [of pos ?c] p line by simp_all
  have en: "pos + len \<le> ?en"
  proof (rule ccontr)
    assume "\<not> pos + len \<le> ?en"
    then have lt: "?en < pos + len" by simp
    with p have "line < length (newlines ?c 0)" by (auto simp: line_end_def split: if_splits)
    then have "?c ! ?en = NL" using nth_newlines [of line ?c] by (simp add: line_end_def)
    moreover have "?c ! ?en \<in> set (take len (drop pos ?c))"
      unfolding in_set_conv_nth by (rule exI [of _ "?en - pos"]) (use lt st p in simp)
    ultimately show False using assms(4) by simp
  qed
  have ll: "line \<le> length (sd_lines s)" using linecol_line_le [of s pos] assms(5) by simp
  have lv: "line_view s line = take (?en - ?st) (drop ?st ?c)" by (rule line_view_eq [OF ok ll])
  have lp: "linepos s line = (?st, ?en - ?st)" by (rule linepos_eq [OF ok ll])
  have cr: "CR \<notin> set (line_view s line)" using assms(3) by (auto simp: lv dest: in_set_takeD in_set_dropD)
  have m: "size_add (size_sub pos ?st) len = col + len"
    using st p by (simp add: size_sub_eq size_add_eq col)
  have len: "length (take (col + len) (line_view s line)) = col + len"
    using st en line_end_le [of ?c line] by (simp add: lv col)
  have "CR \<notin> set (take (col + len) (line_view s line))" using cr by (auto dest: in_set_takeD)
  from write_indexed_no_cr [OF this] have "write_indexed_skipping_r (take (col + len) (line_view s line))
      (\<lambda>idx. if idx < col then c8 CHR '' '' else c8 CHR ''~'') = replicate col (c8 CHR '' '') @ replicate len (c8 CHR ''~'')"
    by (simp only: len map_upt_split)
  moreover have "write_chars_skipping_r (line_view s line) = line_view s line"
    using cr by (auto simp: write_chars_skipping_r_def filter_id_conv)
  moreover have "substr ?c ?st (?en - ?st) = Inr (line_view s line)"
    using st p by (simp add: substr_ok lv)
  ultimately have "str_line s ?st (?en - ?st) col pos len =
      Inr (line_view s line @ [NL] @ replicate col (c8 CHR '' '') @ replicate len (c8 CHR ''~'') @ [NL])"
    by (simp add: str_line_def m substr_ok)
  then show ?thesis
    using view_inside [OF assms(1)] assms(2,4,5) by (simp add: str_def loc_linecol_def lp)
qed

theorem str_one_line_witness:
  "str \<lparr>loc_source = Some sample_source, loc_pos = 1, loc_len = 1\<rparr> = Inr (lit ''ab'' @ [NL] @ lit '' ~'' @ [NL])"
proof -
  have "str \<lparr>loc_source = Some sample_source, loc_pos = 1, loc_len = 1\<rparr> =
    Inr (line_view sample_source 0 @ [NL] @ replicate 1 (c8 CHR '' '') @ replicate 1 (c8 CHR ''~'') @ [NL])"
    by (rule str_one_line)
      (use sample_source_ok in \<open>simp_all add: inside_def sample_source_def size_mod_def linecol_def newlines_sample\<close>)
  then show ?thesis by (simp add: sample_source_eval line_view_def)
qed

text \<open>One location around another.\<close>

definition covers :: "location \<Rightarrow> location \<Rightarrow> bool" where
  "covers l m \<longleftrightarrow> map_option sd_id (loc_source l) = map_option sd_id (loc_source m) \<and>
     loc_pos l \<le> loc_pos m \<and> loc_pos m + loc_len m \<le> loc_pos l + loc_len l"

text \<open>C37: within one source \<open>operator*\<close> is the least location around two locations, and it lies
  inside the source when they do.\<close>

theorem loc_mult_least:
  assumes "inside l" "inside m" "loc_source l = Some s" "loc_source m = Some s"
  shows "inside (loc_mult l m) \<and> (covers k (loc_mult l m) \<longleftrightarrow> covers k l \<and> covers k m)"
proof -
  let ?lo = "min (loc_pos l) (loc_pos m)" and ?hi = "max (loc_pos l + loc_len l) (loc_pos m + loc_len m)"
  have b: "loc_pos l + loc_len l < size_mod" "loc_pos m + loc_len m < size_mod" using assms by (simp_all add: inside_def)
  then have "size_sub ?hi ?lo = ?hi - ?lo" by (intro size_sub_eq) auto
  then have e: "loc_mult l m = \<lparr>loc_source = Some s, loc_pos = ?lo, loc_len = ?hi - ?lo\<rparr>"
    using b assms(3,4) by (simp add: loc_mult_def Let_def size_add_eq)
  moreover have "inside (loc_mult l m)" using assms unfolding e by (auto simp: inside_def)
  moreover have "covers k (loc_mult l m) \<longleftrightarrow> covers k l \<and> covers k m"
    unfolding e covers_def using assms(3,4) by auto
  ultimately show ?thesis by simp
qed

theorem loc_mult_least_witness:
  "loc_mult \<lparr>loc_source = Some sample_source, loc_pos = 1, loc_len = 1\<rparr>
     \<lparr>loc_source = Some sample_source, loc_pos = 4, loc_len = 1\<rparr> =
     \<lparr>loc_source = Some sample_source, loc_pos = 1, loc_len = 4\<rparr> \<and>
   inside (loc_mult \<lparr>loc_source = Some sample_source, loc_pos = 1, loc_len = 1\<rparr>
     \<lparr>loc_source = Some sample_source, loc_pos = 4, loc_len = 1\<rparr>)"
proof
  show "inside (loc_mult \<lparr>loc_source = Some sample_source, loc_pos = 1, loc_len = 1\<rparr>
     \<lparr>loc_source = Some sample_source, loc_pos = 4, loc_len = 1\<rparr>)"
    by (rule conjunct1 [OF loc_mult_least])
      (use sample_source_ok in \<open>simp_all add: inside_def sample_source_def size_mod_def\<close>)
qed (simp add: loc_mult_def size_add_def size_sub_def size_mod_def)

text \<open>The comparisons of two locations whose views are defined.\<close>

lemma loc_compare:
  assumes "view l = Inr v" "view m = Inr w"
  shows "loc_eq l m = Inr (v = w)" "loc_neq l m = Inr (v \<noteq> w)" "loc_less l m = Inr (v < w)"
    "loc_leq l m = Inr (v \<le> w)" "loc_greater l m = Inr (w < v)" "loc_geq l m = Inr (w \<le> v)"
  using assms by (auto simp: loc_eq_def loc_neq_def loc_less_def loc_leq_def loc_greater_def loc_geq_def on_views_def
    not_le not_less order_le_less)

end
