(* ===== verification/Token.thy ===== *)
theory Token
  imports Prelude
begin

text \<open>
  \<open>include/trieste/token.h\<close> and \<open>include/trieste/defaultmap.h\<close>: the definitions of tokens, their
  flags and the global table of their names, and the map from tokens to values with a default that
  the rewriter indexes its rules with. A \<open>Token\<close> is a pointer to a \<open>TokenDef\<close>; as two definitions
  of one name are refused, equality of the records is equality of the pointers. The global counter
  and the global table are passed as arguments.

  The lemmas show that the default map refines the list of the updates made to it.
\<close>

subsection \<open>Tokens\<close>

type_synonym flag = u32

record token_def =
  tok_name :: bytes
  tok_fl :: flag
  default_map_id :: u32

definition DEFAULT_MAP_TABLE_SIZE :: nat where "DEFAULT_MAP_TABLE_SIZE = 128"
definition pointer_size :: u32 where "pointer_size = 8"

definition has :: "token_def \<Rightarrow> flag \<Rightarrow> bool" where
  "has t f \<longleftrightarrow> tok_fl t AND f \<noteq> 0"

definition default_map_hash :: "token_def \<Rightarrow> u32" where
  "default_map_hash t = default_map_id t div pointer_size"

definition token_in :: "token_def \<Rightarrow> token_def list \<Rightarrow> bool" where
  "token_in t ts = List.member ts t"

text \<open>\<open>detail::token_map\<close>, \<open>register_token\<close> and \<open>find_token\<close>, and the constructor, which advances the
  global counter and registers the token or throws.\<close>

datatype token_error = DuplicateToken bytes

type_synonym token_map = "bytes \<rightharpoonup> token_def"

definition register_token :: "token_def \<Rightarrow> token_map \<Rightarrow> token_error + token_map" where
  "register_token t m =
     (case m (tok_name t) of
        Some _ \<Rightarrow> Inl (DuplicateToken (tok_name t))
      | None \<Rightarrow> Inr (m(tok_name t \<mapsto> t)))"

definition make_token :: "bytes \<Rightarrow> flag \<Rightarrow> u32 \<times> token_map \<Rightarrow> token_error + (token_def \<times> u32 \<times> token_map)" where
  "make_token name fl g =
     (let (next_id, m) = g;
          t = \<lparr>tok_name = name, tok_fl = fl,
               default_map_id = (next_id mod of_nat DEFAULT_MAP_TABLE_SIZE) * pointer_size\<rparr>
      in map_sum id (\<lambda>m. (t, next_id + 1, m)) (register_token t m))"

definition find_token :: "token_def \<Rightarrow> bytes \<Rightarrow> token_map \<Rightarrow> token_def" where
  "find_token invalid str m = (case m str of Some t \<Rightarrow> t | None \<Rightarrow> invalid)"

text \<open>The flags.\<close>

definition flag_none :: flag where "flag_none = 0"
definition flag_print :: flag where "flag_print = push_bit 0 1"
definition flag_symtab :: flag where "flag_symtab = push_bit 1 1"
definition flag_defbeforeuse :: flag where "flag_defbeforeuse = push_bit 2 1"
definition flag_shadowing :: flag where "flag_shadowing = push_bit 3 1"
definition flag_lookup :: flag where "flag_lookup = push_bit 4 1"
definition flag_lookdown :: flag where "flag_lookdown = push_bit 5 1"
definition flag_internal :: flag where "flag_internal = push_bit 6 1"

text \<open>The built-in tokens, in the order of the header, as the counter numbers them when it starts
  from zero.\<close>

definition builtin :: "bytes \<Rightarrow> flag \<Rightarrow> u32 \<Rightarrow> token_def" where
  "builtin name fl i = \<lparr>tok_name = name, tok_fl = fl, default_map_id = i * pointer_size\<rparr>"

definition Top :: token_def where "Top = builtin (lit ''top'') flag_symtab 0"
definition Directory :: token_def where "Directory = builtin (lit ''directory'') flag_none 1"
definition File :: token_def where "File = builtin (lit ''file'') flag_none 2"
definition Group :: token_def where "Group = builtin (lit ''group'') flag_none 3"
definition Seq :: token_def where "Seq = builtin (lit ''seq'') flag_internal 4"
definition Lift :: token_def where "Lift = builtin (lit ''lift'') flag_internal 5"
definition NoChange :: token_def where "NoChange = builtin (lit ''nochange'') flag_internal 6"
definition Reapply :: token_def where "Reapply = builtin (lit ''reapply'') flag_internal 7"
definition Include :: token_def where "Include = builtin (lit ''include'') flag_internal 8"
definition Invalid :: token_def where "Invalid = builtin (lit ''invalid'') flag_internal 9"
definition Error :: token_def where "Error = builtin (lit ''error'') flag_internal 10"
definition ErrorMsg :: token_def where "ErrorMsg = builtin (lit ''errormsg'') (flag_print OR flag_internal) 11"
definition ErrorAst :: token_def where "ErrorAst = builtin (lit ''errorast'') flag_internal 12"

lemmas token_defs = builtin_def Top_def Directory_def File_def Group_def Seq_def Lift_def NoChange_def Reapply_def
  Include_def Invalid_def Error_def ErrorMsg_def ErrorAst_def
  flag_none_def flag_print_def flag_symtab_def flag_defbeforeuse_def flag_shadowing_def flag_lookup_def
  flag_lookdown_def flag_internal_def

subsection \<open>The default map\<close>

text \<open>An entry of the table that points to the default value is \<open>None\<close>.\<close>

record 'a default_map =
  dm_def :: 'a
  dm_map :: "'a option list"
  dm_empty :: bool

definition make_default_map :: "'a \<Rightarrow> 'a default_map" where
  "make_default_map d = \<lparr>dm_def = d, dm_map = replicate DEFAULT_MAP_TABLE_SIZE None, dm_empty = True\<rparr>"

definition is_index_default :: "'a default_map \<Rightarrow> nat \<Rightarrow> bool" where
  "is_index_default dm i = (dm_map dm ! i = None)"

definition token_index :: "token_def \<Rightarrow> nat" where
  "token_index t = unat (default_map_hash t)"

definition copy_default_map :: "'a default_map \<Rightarrow> 'a default_map" where
  "copy_default_map dm =
     \<lparr>dm_def = dm_def dm,
      dm_map = map (\<lambda>i. if is_index_default dm i then None else Some (the (dm_map dm ! i))) [0..<DEFAULT_MAP_TABLE_SIZE],
      dm_empty = dm_empty dm\<rparr>"

definition modify_all :: "('a \<Rightarrow> 'a) \<Rightarrow> 'a default_map \<Rightarrow> 'a default_map" where
  "modify_all f dm =
     dm\<lparr>dm_empty := False, dm_map := map (map_option f) (dm_map dm), dm_def := f (dm_def dm)\<rparr>"

text \<open>\<open>modify\<close> returns a reference to the entry, through which the caller changes it by \<open>f\<close>.\<close>

definition modify :: "token_def \<Rightarrow> ('a \<Rightarrow> 'a) \<Rightarrow> 'a default_map \<Rightarrow> 'a default_map" where
  "modify t f dm =
     (let i = token_index t;
          v = (if is_index_default dm i then dm_def dm else the (dm_map dm ! i))
      in dm\<lparr>dm_empty := False, dm_map := (dm_map dm)[i := Some (f v)]\<rparr>)"

definition get :: "'a default_map \<Rightarrow> token_def \<Rightarrow> 'a" where
  "get dm t = (case dm_map dm ! token_index t of None \<Rightarrow> dm_def dm | Some v \<Rightarrow> v)"

text \<open>\<open>clear\<close>, with the \<open>clear\<close> of the values as an argument.\<close>

definition clear :: "('a \<Rightarrow> 'a) \<Rightarrow> 'a default_map \<Rightarrow> 'a default_map" where
  "clear clr dm =
     dm\<lparr>dm_empty := True, dm_map := map (\<lambda>_. None) (dm_map dm), dm_def := clr (dm_def dm)\<rparr>"

subsection \<open>The default map as the list of its updates\<close>

datatype 'a update = ModifyAll "'a \<Rightarrow> 'a" | Modify token_def "'a \<Rightarrow> 'a"

fun apply_update :: "'a update \<Rightarrow> 'a default_map \<Rightarrow> 'a default_map" where
  "apply_update (ModifyAll f) dm = modify_all f dm"
| "apply_update (Modify t f) dm = modify t f dm"

text \<open>The updates that concern a token: the general ones, and those made for this token.\<close>

fun concerns :: "token_def \<Rightarrow> 'a update \<Rightarrow> ('a \<Rightarrow> 'a) list" where
  "concerns t (ModifyAll f) = [f]"
| "concerns t (Modify t' f) = (if t' = t then [f] else [])"

text \<open>The updates that the table applies to a token, which are those of its place.\<close>

fun in_place :: "token_def \<Rightarrow> 'a update \<Rightarrow> ('a \<Rightarrow> 'a) list" where
  "in_place t (ModifyAll f) = [f]"
| "in_place t (Modify t' f) = (if token_index t' = token_index t then [f] else [])"

fun update_tokens :: "'a update \<Rightarrow> token_def list" where
  "update_tokens (ModifyAll f) = []"
| "update_tokens (Modify t f) = [t]"

definition dm_ok :: "'a default_map \<Rightarrow> bool" where
  "dm_ok dm \<longleftrightarrow> length (dm_map dm) = DEFAULT_MAP_TABLE_SIZE"

definition in_table :: "token_def \<Rightarrow> bool" where
  "in_table t \<longleftrightarrow> token_index t < DEFAULT_MAP_TABLE_SIZE"

lemma make_in_table: "make_token name fl g = Inr (t, g') \<Longrightarrow> in_table t"
proof -
  assume a: "make_token name fl g = Inr (t, g')"
  obtain i m where g: "g = (i, m)" by (cases g)
  let ?r = "i mod 128 :: u32"
  have r: "unat ?r < 128" by (simp add: unat_mod)
  have "default_map_id t = ?r * 8"
    using a unfolding make_token_def g by (auto simp: Let_def register_token_def DEFAULT_MAP_TABLE_SIZE_def pointer_size_def split: option.splits)
  moreover have "unat (?r * 8) = unat ?r * 8" using r by (subst unat_mult_lem [THEN iffD1]) simp_all
  ultimately have "unat (default_map_id t div 8) = unat ?r" by (simp add: unat_div)
  with r show ?thesis by (simp add: in_table_def token_index_def default_map_hash_def pointer_size_def DEFAULT_MAP_TABLE_SIZE_def)
qed

lemma apply_update_ok [simp]: "dm_ok (apply_update u dm) \<longleftrightarrow> dm_ok dm"
  by (cases u) (simp_all add: dm_ok_def modify_all_def modify_def Let_def)

text \<open>No other token of the updates has the place of \<open>t\<close> in the table.\<close>

definition alone :: "token_def \<Rightarrow> 'a update list \<Rightarrow> bool" where
  "alone t us \<longleftrightarrow> (\<forall>u \<in> set us. \<forall>t' \<in> set (update_tokens u). token_index t' = token_index t \<longrightarrow> t' = t)"

lemma apply_update_get:
  assumes "dm_ok dm" "in_table t"
  shows "get (apply_update u dm) t = foldl (\<lambda>v f. f v) (get dm t) (in_place t u)"
  using assms by (cases u)
    (auto simp: get_def modify_all_def modify_def Let_def dm_ok_def in_table_def is_index_default_def nth_list_update
      split: option.splits)

lemma updates_get:
  "dm_ok dm \<Longrightarrow> in_table t \<Longrightarrow>
   get (foldl (\<lambda>dm u. apply_update u dm) dm us) t = foldl (\<lambda>v f. f v) (get dm t) (concat (map (in_place t) us))"
  by (induction us arbitrary: dm) (simp_all add: apply_update_get)

lemma alone_concerns: "alone t us \<Longrightarrow> concat (map (in_place t) us) = concat (map (concerns t) us)"
proof (induction us)
  case (Cons u us)
  then have "in_place t u = concerns t u" "alone t us" by (cases u; auto simp: alone_def)+
  with Cons.IH show ?case by simp
qed simp

lemma make_default_map_ok: "dm_ok (make_default_map d)" "in_table t \<Longrightarrow> get (make_default_map d) t = d"
  by (simp_all add: make_default_map_def dm_ok_def in_table_def get_def)

lemma copy_default_map_get:
  assumes "dm_ok dm" "in_table t"
  shows "dm_ok (copy_default_map dm) \<and> get (copy_default_map dm) t = get dm t"
  using assms by (auto simp: copy_default_map_def dm_ok_def in_table_def get_def is_index_default_def split: option.splits)

subsection \<open>The tokens of a program\<close>

text \<open>The definitions of tokens, which are made one after another.\<close>

fun make_tokens :: "(bytes \<times> flag) list \<Rightarrow> u32 \<times> token_map \<Rightarrow> token_error + (token_def list \<times> u32 \<times> token_map)" where
  "make_tokens [] g = Inr ([], g)"
| "make_tokens ((name, fl) # ds) g =
     (case make_token name fl g of
        Inl e \<Rightarrow> Inl e
      | Inr (t, g) \<Rightarrow> map_sum id (\<lambda>(ts, g). (t # ts, g)) (make_tokens ds g))"

lemma make_token_index:
  assumes "make_token name fl (n, m) = Inr (t, n', m')"
  shows "token_index t = unat n mod 128" "n' = n + 1"
proof -
  let ?r = "n mod 128"
  have r: "unat ?r < 128" by (simp add: unat_mod)
  have "default_map_id t = ?r * 8" and n: "n' = n + 1"
    using assms unfolding make_token_def by (auto simp: Let_def register_token_def DEFAULT_MAP_TABLE_SIZE_def pointer_size_def split: option.splits)
  moreover have "unat (?r * 8) = unat ?r * 8" using r by (subst unat_mult_lem [THEN iffD1]) simp_all
  ultimately have "unat (default_map_id t div 8) = unat ?r" by (simp add: unat_div)
  then show "token_index t = unat n mod 128" by (simp add: token_index_def default_map_hash_def pointer_size_def unat_mod)
  show "n' = n + 1" by (rule n)
qed

lemma unat_Suc_mod: "unat (n + 1 :: u32) mod 128 = (unat n + 1) mod 128"
  by (simp add: unat_word_ariths mod_mod_cancel)

lemma make_tokens_index:
  "make_tokens ds (n, m) = Inr (ts, g) \<Longrightarrow>
    length ts = length ds \<and> (\<forall>i < length ts. token_index (ts ! i) = (unat n + i) mod 128)"
proof (induction ds arbitrary: n m ts)
  case (Cons d ds)
  obtain name fl where d: "d = (name, fl)" by fastforce
  from Cons.prems d obtain t n' m' us where t: "make_token name fl (n, m) = Inr (t, n', m')"
    "make_tokens ds (n', m') = Inr (us, g)" "ts = t # us"
    by (cases "make_token name fl (n, m)"; cases "make_tokens ds (snd (projr (make_token name fl (n, m))))") auto
  note i = make_token_index [OF t(1)]
  have "(unat n' + j) mod 128 = (unat n + Suc j) mod 128" for j
  proof -
    have "(unat n' mod 128 + j) mod 128 = ((unat n + 1) mod 128 + j) mod 128" using unat_Suc_mod [of n] i(2) by simp
    then show ?thesis by (simp only: mod_add_left_eq) simp
  qed
  with Cons.IH [OF t(2)] have us: "length us = length ds" "\<forall>j < length us. token_index (us ! j) = (unat n + Suc j) mod 128"
    by auto
  have "token_index (ts ! j) = (unat n + j) mod 128" if "j < length ts" for j
    using us(2) i(1) t(3) that by (cases j) simp_all
  with us(1) t(3) show ?case by simp
qed simp

lemma window_inj:
  assumes "(a + i) mod 128 = (a + j) mod (128 :: nat)" "i < 128" "j < 128" "i \<le> j"
  shows "i = j"
proof -
  have "128 dvd (a + j) - (a + i)" using assms(1,4) by (metis add_le_cancel_left mod_eq_dvd_iff_nat)
  then have "128 dvd j - i" by simp
  with assms(3) show ?thesis using assms(4) nat_dvd_not_less [of "j - i" 128] by fastforce
qed

lemma make_tokens_alone:
  assumes "make_tokens ds g = Inr (ts, g')" "length ds \<le> DEFAULT_MAP_TABLE_SIZE" "t \<in> set ts"
    and "\<forall>u \<in> set us. set (update_tokens u) \<subseteq> set ts"
  shows "in_table t \<and> alone t us"
proof -
  obtain n m where g: "g = (n, m)" by (cases g)
  note i = make_tokens_index [OF assms(1) [unfolded g]]
  have inj: "i = j" if "i < 128" "j < 128" "(unat n + i) mod 128 = (unat n + j) mod 128" for i j
    using window_inj [of "unat n" i j] window_inj [of "unat n" j i] that by (cases "i \<le> j") simp_all
  have "x = y" if "x \<in> set ts" "y \<in> set ts" "token_index x = token_index y" for x y
  proof -
    note xy = that
    obtain j k where jk: "j < length ts" "x = ts ! j" "k < length ts" "y = ts ! k" using xy(1,2) by (metis in_set_conv_nth)
    then have "j = k" using inj [of j k] i assms(2) xy(3) by (simp add: DEFAULT_MAP_TABLE_SIZE_def)
    with jk show ?thesis by simp
  qed
  moreover have "in_table t"
    using assms(3) i by (auto simp: in_table_def DEFAULT_MAP_TABLE_SIZE_def in_set_conv_nth)
  ultimately show ?thesis using assms(3,4) by (fastforce simp: alone_def)
qed

text \<open>C29: in a program with at most 128 tokens, a default map to which updates were made, and any copy of it,
  holds for each token the default value changed by the general updates and those made for this token, and no
  others, in the order they were made.\<close>

theorem default_map_refines:
  assumes "make_tokens ds g = Inr (ts, g')" "length ds \<le> 128" "t \<in> set ts"
    and "\<forall>u \<in> set us. set (update_tokens u) \<subseteq> set ts"
  shows "get (foldl (\<lambda>dm u. apply_update u dm) (make_default_map d) us) t =
      foldl (\<lambda>v f. f v) d (concat (map (concerns t) us)) \<and>
    get (copy_default_map (foldl (\<lambda>dm u. apply_update u dm) (make_default_map d) us)) t =
      foldl (\<lambda>v f. f v) d (concat (map (concerns t) us))"
proof -
  have ok: "in_table t" "alone t us"
    using make_tokens_alone [OF assms(1) _ assms(3,4)] assms(2) by (simp_all add: DEFAULT_MAP_TABLE_SIZE_def)
  let ?dm = "foldl (\<lambda>dm u. apply_update u dm) (make_default_map d) us"
  have g: "get ?dm t = foldl (\<lambda>v f. f v) d (concat (map (concerns t) us))"
    using updates_get [OF make_default_map_ok(1) ok(1), of d us] make_default_map_ok(2) [OF ok(1), of d] alone_concerns [OF ok(2)] by simp
  have "dm_ok (foldl (\<lambda>dm u. apply_update u dm) dm us)" if "dm_ok dm" for dm :: "'a default_map"
    using that by (induction us arbitrary: dm) simp_all
  with copy_default_map_get [OF _ ok(1)] make_default_map_ok(1) g show ?thesis by metis
qed

theorem default_map_refines_witness:
  "\<exists>t u g. make_tokens [(lit ''a'', 0), (lit ''b'', 0)] (0, Map.empty) = Inr ([t, u], g) \<and> t \<noteq> u \<and>
    get (modify u (\<lambda>l. l @ [3]) (modify_all (\<lambda>l. l @ [2]) (modify t (\<lambda>l. l @ [1 :: nat]) (make_default_map [])))) u = [2, 3]"
proof -
  define t where "t = \<lparr>tok_name = lit ''a'', tok_fl = 0, default_map_id = 0\<rparr>"
  define u where "u = \<lparr>tok_name = lit ''b'', tok_fl = 0, default_map_id = 8\<rparr>"
  obtain g where m: "make_tokens [(lit ''a'', 0), (lit ''b'', 0)] (0, Map.empty) = Inr ([t, u], g)"
    by (simp add: make_token_def register_token_def t_def u_def pointer_size_def DEFAULT_MAP_TABLE_SIZE_def Let_def)
  have "t \<noteq> u" by (simp add: t_def u_def)
  moreover from default_map_refines [OF m, of u "[Modify t (\<lambda>l. l @ [1 :: nat]), ModifyAll (\<lambda>l. l @ [2]), Modify u (\<lambda>l. l @ [3])]" "[]"]
  have "get (modify u (\<lambda>l. l @ [3]) (modify_all (\<lambda>l. l @ [2]) (modify t (\<lambda>l. l @ [1 :: nat]) (make_default_map [])))) u = [2, 3]"
    using \<open>t \<noteq> u\<close> by simp
  ultimately show ?thesis using m by blast
qed

text \<open>With more tokens the places repeat: what is added for one token is found for the 128th after it.\<close>

theorem specific_update_leaks:
  assumes "make_token name fl (n, m) = Inr (t, g)" "make_token name' fl' (n + 128, m') = Inr (t', g')" "name \<noteq> name'"
  shows "t \<noteq> t' \<and> get (modify t f (make_default_map d)) t' = f d"
proof -
  obtain n1 m1 n2 m2 where g: "g = (n1, m1)" "g' = (n2, m2)" by (cases g; cases g')
  have "unat (n + 128) mod 128 = unat n mod 128" by (simp add: unat_word_ariths mod_mod_cancel)
  then have i: "token_index t' = token_index t"
    using make_token_index(1) [OF assms(1) [unfolded g]] make_token_index(1) [OF assms(2) [unfolded g]] by simp
  have "tok_name t = name" "tok_name t' = name'"
    using assms(1,2) by (auto simp: make_token_def register_token_def Let_def split: option.splits)
  moreover have "in_table t" by (rule make_in_table [OF assms(1)])
  ultimately show ?thesis using i assms(3)
    by (auto simp: get_def modify_def Let_def is_index_default_def make_default_map_def in_table_def)
qed

end
