(* ===== verification/Ast.thy ===== *)
theory Ast
  imports Source Token
begin

text \<open>
  \<open>include/trieste/ast.h\<close>: the nodes of the syntax tree, their flags, their symbol tables, and the
  operations on them. The heap is the list of the nodes ever created, and a node pointer is an index
  in it; a pointer that may be null is an option. \<open>parent_\<close> is a plain pointer of the code, so it is
  a field like the children.

  An exception of the code is a value of \<open>ast_error\<close>. Walks along \<open>parent_\<close> are bounded by the number
  of nodes, which is enough where no node is its own ancestor. This theory holds the operations;
  \<open>AstForest\<close> and \<open>AstOrder\<close> hold what they do to a heap that is a forest.
\<close>

unbundle bit_operations_syntax

datatype ast_error = NoSymbolTable | NodeNotFound | LiftedWithoutDestination | Throws string_error | NullNode

text \<open>\<open>symbols\<close> is a \<open>std::map\<close> ordered by the views of its keys.\<close>

record symtab_def =
  st_symbols :: "(bytes \<times> nat list) list"
  st_includes :: "nat list"
  st_next_id :: nat

record node_def =
  nd_type :: token_def
  nd_location :: location
  nd_symtab :: "symtab_def option"
  nd_parent :: "nat option"
  nd_flags :: byte
  nd_children :: "nat list"

type_synonym ast = "node_def list"

subsection \<open>Flags\<close>

definition set_contains_error :: "byte \<Rightarrow> byte" where "set_contains_error f = f OR push_bit 0 1"
definition set_contains_lift :: "byte \<Rightarrow> byte" where "set_contains_lift f = f OR push_bit 1 1"
definition reset_contains_error :: "byte \<Rightarrow> byte" where "reset_contains_error f = f AND NOT (push_bit 0 1)"
definition reset_contains_lift :: "byte \<Rightarrow> byte" where "reset_contains_lift f = f AND NOT (push_bit 1 1)"
definition contains_error :: "byte \<Rightarrow> bool" where "contains_error f \<longleftrightarrow> f AND push_bit 0 1 \<noteq> 0"
definition contains_lift :: "byte \<Rightarrow> bool" where "contains_lift f \<longleftrightarrow> f AND push_bit 1 1 \<noteq> 0"

lemma contains_bits: "contains_error f \<longleftrightarrow> bit f 0" "contains_lift f \<longleftrightarrow> bit f 1"
  by (simp_all add: contains_error_def contains_lift_def and_exp_eq_0_iff_not_bit [where 'a = "8 word", of _ 0, simplified]
    and_exp_eq_0_iff_not_bit [where 'a = "8 word", of _ 1, simplified])

lemma contains_set [simp]:
  "contains_error (set_contains_error f)" "contains_lift (set_contains_lift f)"
  "contains_error (set_contains_lift f) = contains_error f" "contains_lift (set_contains_error f) = contains_lift f"
  "\<not> contains_error (reset_contains_error f)" "\<not> contains_lift (reset_contains_lift f)"
  "contains_error (reset_contains_lift f) = contains_error f" "contains_lift (reset_contains_error f) = contains_lift f"
  by (simp_all add: contains_bits set_contains_error_def set_contains_lift_def reset_contains_error_def reset_contains_lift_def
    bit_or_iff bit_and_iff bit_not_iff bit_push_bit_iff bit_1_iff)

subsection \<open>Making nodes\<close>

definition update :: "nat \<Rightarrow> (node_def \<Rightarrow> node_def) \<Rightarrow> ast \<Rightarrow> ast" where
  "update a f h = h[a := f (h ! a)]"

definition make_symtab :: symtab_def where
  "make_symtab = \<lparr>st_symbols = [], st_includes = [], st_next_id = 0\<rparr>"

definition make_node :: "token_def \<Rightarrow> location \<Rightarrow> node_def" where
  "make_node t loc = \<lparr>nd_type = t, nd_location = loc,
     nd_symtab = (if has t flag_symtab then Some make_symtab else None),
     nd_parent = None, nd_flags = 0, nd_children = []\<rparr>"

definition create_at :: "token_def \<Rightarrow> location \<Rightarrow> ast \<Rightarrow> nat \<times> ast" where
  "create_at t loc h = (length h, h @ [make_node t loc])"

definition create :: "token_def \<Rightarrow> ast \<Rightarrow> nat \<times> ast" where
  "create t h = create_at t no_location h"

definition create_range :: "token_def \<Rightarrow> nat list \<Rightarrow> ast \<Rightarrow> nat \<times> ast" where
  "create_range t rg h =
     (if rg = [] then create t h
      else create_at t (loc_mult (nd_location (h ! hd rg)) (nd_location (h ! last rg))) h)"

text \<open>The loops of \<open>add_flags\<close>: the flag is set on the way up to the first node that has it.\<close>

definition unset_count :: "(byte \<Rightarrow> bool) \<Rightarrow> ast \<Rightarrow> nat" where
  "unset_count test h = length (filter (\<lambda>nd. \<not> test (nd_flags nd)) h)"

function set_up :: "(byte \<Rightarrow> bool) \<Rightarrow> (byte \<Rightarrow> byte) \<Rightarrow> nat option \<Rightarrow> ast \<Rightarrow> ast" where
  "set_up test setf None h = h"
| "set_up test setf (Some cur) h =
     (if \<not> cur < length h \<or> test (nd_flags (h ! cur)) \<or> \<not> test (setf (nd_flags (h ! cur))) then h
      else set_up test setf (nd_parent (h ! cur)) (update cur (\<lambda>nd. nd\<lparr>nd_flags := setf (nd_flags nd)\<rparr>) h))"
  by pat_completeness auto
termination
proof (relation "measure (\<lambda>(test, setf, p, h). unset_count test h)", goal_cases)
  case (2 test setf cur h)
  have "unset_count test (update cur (\<lambda>nd. nd\<lparr>nd_flags := setf (nd_flags nd)\<rparr>) h) < unset_count test h"
    using 2 unfolding unset_count_def update_def length_filter_conv_card
    by (intro psubset_card_mono) (auto simp: nth_list_update split: if_splits)
  then show ?case by simp
qed simp

declare set_up.simps [simp del]

definition add_flags :: "nat \<Rightarrow> ast \<Rightarrow> ast" where
  "add_flags a h =
     (let nd = h ! a
      in if nd_type nd = Error \<or> contains_error (nd_flags nd) then
           set_up contains_error set_contains_error (nd_parent nd) h
         else if nd_type nd = Lift \<or> contains_lift (nd_flags nd) then
           set_up contains_lift set_contains_lift (nd_parent nd) h
         else h)"

subsection \<open>Children\<close>

definition set_parent :: "nat \<Rightarrow> nat option \<Rightarrow> ast \<Rightarrow> ast" where
  "set_parent a p h = update a (\<lambda>nd. nd\<lparr>nd_parent := p\<rparr>) h"

definition set_children :: "nat \<Rightarrow> nat list \<Rightarrow> ast \<Rightarrow> ast" where
  "set_children a cs h = update a (\<lambda>nd. nd\<lparr>nd_children := cs\<rparr>) h"

text \<open>A node that got the children \<open>cs\<close> becomes the parent of \<open>node\<close>.\<close>

definition adopt :: "nat \<Rightarrow> nat \<Rightarrow> ast \<Rightarrow> ast" where
  "adopt this node h = add_flags node (set_parent node (Some this) h)"

definition push_front :: "nat \<Rightarrow> nat option \<Rightarrow> ast \<Rightarrow> ast" where
  "push_front this n h =
     (case n of None \<Rightarrow> h
      | Some node \<Rightarrow> adopt this node (set_children this (node # nd_children (h ! this)) h))"

definition push_back :: "nat \<Rightarrow> nat option \<Rightarrow> ast \<Rightarrow> ast" where
  "push_back this n h =
     (case n of None \<Rightarrow> h
      | Some node \<Rightarrow> adopt this node (set_children this (nd_children (h ! this) @ [node]) h))"

definition push_back_range :: "nat \<Rightarrow> nat option list \<Rightarrow> ast \<Rightarrow> ast" where
  "push_back_range this rg h = foldl (\<lambda>h n. push_back this n h) h rg"

definition push_back_ephemeral :: "nat \<Rightarrow> nat option \<Rightarrow> ast \<Rightarrow> ast" where
  "push_back_ephemeral this n h =
     (case n of None \<Rightarrow> h | Some node \<Rightarrow> set_children this (nd_children (h ! this) @ [node]) h)"

text \<open>Where a node is taken out, its parent is cleared only if it is this one.\<close>

definition orphan :: "nat \<Rightarrow> nat \<Rightarrow> ast \<Rightarrow> ast" where
  "orphan this node h = (if nd_parent (h ! node) = Some this then set_parent node None h else h)"

definition pop_back :: "nat \<Rightarrow> ast \<Rightarrow> nat option \<times> ast" where
  "pop_back this h =
     (let cs = nd_children (h ! this)
      in if cs = [] then (None, h)
         else (Some (last cs), orphan this (last cs) (set_children this (butlast cs) h)))"

text \<open>Iterators into the children are positions; \<open>erase\<close> and \<open>insert\<close> return the position.\<close>

definition erase :: "nat \<Rightarrow> nat \<Rightarrow> nat \<Rightarrow> ast \<Rightarrow> nat \<times> ast" where
  "erase this i j h =
     (let cs = nd_children (h ! this);
          h = foldl (\<lambda>h node. orphan this node h) h (take (j - i) (drop i cs))
      in (i, set_children this (take i cs @ drop j cs) h))"

definition insert_node :: "nat \<Rightarrow> nat \<Rightarrow> nat option \<Rightarrow> ast \<Rightarrow> nat \<times> ast" where
  "insert_node this i n h =
     (case n of None \<Rightarrow> (i, h)
      | Some node \<Rightarrow>
          (let h = adopt this node h; cs = nd_children (h ! this)
           in (i, set_children this (take i cs @ node # drop i cs) h)))"

definition insert_range :: "nat \<Rightarrow> nat \<Rightarrow> nat list \<Rightarrow> ast \<Rightarrow> nat \<times> ast" where
  "insert_range this i rg h =
     (if rg = [] then (i, h)
      else let h = foldl (\<lambda>h node. adopt this node h) h rg; cs = nd_children (h ! this)
           in (i, set_children this (take i cs @ rg @ drop i cs) h))"

text \<open>The vector of \<open>count\<close> elements that \<open>insert\<close> makes from a token is filled with copies of one
  pointer, to one new node.\<close>

definition insert_tokens :: "nat \<Rightarrow> nat \<Rightarrow> nat \<Rightarrow> token_def \<Rightarrow> ast \<Rightarrow> nat \<times> ast" where
  "insert_tokens this i count t h =
     (if count = 0 then (i, h)
      else let (a, h) = create t h;
               nodes = replicate count a;
               h = foldl (\<lambda>h node. adopt this node h) h nodes;
               cs = nd_children (h ! this)
           in (i, set_children this (take i cs @ nodes @ drop i cs) h))"

definition find_first :: "nat \<Rightarrow> token_def \<Rightarrow> nat \<Rightarrow> ast \<Rightarrow> nat" where
  "find_first this t i h =
     i + length (takeWhile (\<lambda>c. nd_type (h ! c) \<noteq> t) (drop i (nd_children (h ! this))))"

definition contains_child :: "nat \<Rightarrow> token_def \<Rightarrow> ast \<Rightarrow> bool" where
  "contains_child this t h \<longleftrightarrow> find_first this t 0 h \<noteq> length (nd_children (h ! this))"

definition find_child :: "nat \<Rightarrow> nat \<Rightarrow> ast \<Rightarrow> nat" where
  "find_child this node h = length (takeWhile (\<lambda>c. c \<noteq> node) (nd_children (h ! this)))"

definition replace :: "nat \<Rightarrow> nat \<Rightarrow> nat option \<Rightarrow> ast \<Rightarrow> ast_error + ast" where
  "replace this node1 n2 h =
     (let cs = nd_children (h ! this); i = find_child this node1 h
      in if i = length cs then Inl NodeNotFound
         else (case n2 of
             Some node2 \<Rightarrow>
               (let h = orphan this node1 h
                in Inr (set_children this (cs[i := node2]) (adopt this node2 h)))
           | None \<Rightarrow> Inr (set_children this (take i cs @ drop (i + 1) cs) h)))"

definition replace_at :: "nat \<Rightarrow> nat \<Rightarrow> nat option \<Rightarrow> ast \<Rightarrow> ast_error + ast" where
  "replace_at this i n2 h =
     (if length (nd_children (h ! this)) \<le> i then Inl (Throws OutOfRange)
      else replace this (nd_children (h ! this) ! i) n2 h)"

subsection \<open>Walking up\<close>

text \<open>The first ancestor that satisfies a test; the number of steps is bounded by the number of
  nodes.\<close>

fun first_up :: "(nat \<Rightarrow> bool) \<Rightarrow> nat \<Rightarrow> nat option \<Rightarrow> ast \<Rightarrow> nat option" where
  "first_up test 0 p h = None"
| "first_up test (Suc n) None h = None"
| "first_up test (Suc n) (Some p) h = (if test p then Some p else first_up test n (nd_parent (h ! p)) h)"

definition parent_in :: "nat \<Rightarrow> token_def list \<Rightarrow> ast \<Rightarrow> nat option" where
  "parent_in a ts h = first_up (\<lambda>p. token_in (nd_type (h ! p)) ts) (length h) (nd_parent (h ! a)) h"

definition scope :: "nat \<Rightarrow> ast \<Rightarrow> nat option" where
  "scope a h = first_up (\<lambda>p. nd_symtab (h ! p) \<noteq> None) (length h) (nd_parent (h ! a)) h"

text \<open>\<open>same_parent\<close>: both nodes are brought to one depth, then both go up until their parents are the
  same.\<close>

fun depth_loop :: "nat \<Rightarrow> nat option \<Rightarrow> ast \<Rightarrow> nat" where
  "depth_loop 0 t h = 0"
| "depth_loop (Suc n) None h = 0"
| "depth_loop (Suc n) (Some t) h = Suc (depth_loop n (nd_parent (h ! t)) h)"

definition depth :: "nat \<Rightarrow> ast \<Rightarrow> nat" where
  "depth a h = depth_loop (length h) (Some a) h"

fun go_up :: "nat \<Rightarrow> nat \<Rightarrow> ast \<Rightarrow> nat option" where
  "go_up 0 p h = Some p"
| "go_up (Suc n) p h = (case nd_parent (h ! p) of None \<Rightarrow> None | Some q \<Rightarrow> go_up n q h)"

fun meet_loop :: "nat \<Rightarrow> nat \<Rightarrow> nat \<Rightarrow> ast \<Rightarrow> (nat \<times> nat) option" where
  "meet_loop 0 p q h = None"
| "meet_loop (Suc n) p q h =
     (if nd_parent (h ! p) = nd_parent (h ! q) then Some (p, q)
      else (case (nd_parent (h ! p), nd_parent (h ! q)) of
              (Some p', Some q') \<Rightarrow> meet_loop n p' q' h
            | _ \<Rightarrow> None))"

definition same_parent :: "nat \<Rightarrow> nat \<Rightarrow> ast \<Rightarrow> (nat \<times> nat) option" where
  "same_parent p q h =
     (let d1 = depth p h; d2 = depth q h
      in Option.bind (go_up (d1 - d2) p h) (\<lambda>p.
         Option.bind (go_up (d2 - d1) q h) (\<lambda>q. meet_loop (length h) p q h)))"

text \<open>\<open>None\<close> is an access through a null pointer.\<close>

definition common_parent :: "nat \<Rightarrow> nat \<Rightarrow> ast \<Rightarrow> nat option" where
  "common_parent a b h =
     Option.bind (same_parent a b h) (\<lambda>(p, q). if p = q then Some p else nd_parent (h ! p))"

definition precedes :: "nat \<Rightarrow> nat \<Rightarrow> ast \<Rightarrow> bool option" where
  "precedes a b h =
     Option.bind (same_parent a b h) (\<lambda>(p, q).
       if p = q then Some False
       else Option.bind (nd_parent (h ! p)) (\<lambda>parent. Some (find_child parent p h < find_child parent q h)))"

subsection \<open>Symbol tables\<close>

text \<open>\<open>symbols[loc].push_back(node)\<close> on the ordered map.\<close>

fun sym_push :: "bytes \<Rightarrow> nat \<Rightarrow> (bytes \<times> nat list) list \<Rightarrow> (bytes \<times> nat list) list" where
  "sym_push k v [] = [(k, [v])]"
| "sym_push k v ((k', vs) # m) =
     (if k < k' then (k, [v]) # (k', vs) # m
      else if k = k' then (k', vs @ [v]) # m
      else (k', vs) # sym_push k v m)"

definition symtab_includes :: "nat \<Rightarrow> ast \<Rightarrow> nat list" where
  "symtab_includes a h = (case nd_symtab (h ! a) of None \<Rightarrow> [] | Some st \<Rightarrow> st_includes st)"

text \<open>The two \<open>get_symbols\<close> append to the result.\<close>

definition get_all_symbols :: "nat \<Rightarrow> nat list \<Rightarrow> (nat \<Rightarrow> bool) \<Rightarrow> ast \<Rightarrow> nat list" where
  "get_all_symbols a result f h =
     (case nd_symtab (h ! a) of
        None \<Rightarrow> result
      | Some st \<Rightarrow> foldl (\<lambda>r (loc, nodes). r @ filter f nodes) result (st_symbols st))"

definition get_symbols :: "nat \<Rightarrow> bytes \<Rightarrow> nat list \<Rightarrow> (nat \<Rightarrow> bool) \<Rightarrow> ast \<Rightarrow> nat list" where
  "get_symbols a loc result f h =
     (case nd_symtab (h ! a) of
        None \<Rightarrow> result
      | Some st \<Rightarrow>
          (case map_of (st_symbols st) loc of
             None \<Rightarrow> result
           | Some nodes \<Rightarrow> result @ filter f nodes))"

definition set_symtab :: "nat \<Rightarrow> symtab_def \<Rightarrow> ast \<Rightarrow> ast" where
  "set_symtab a st h = update a (\<lambda>nd. nd\<lparr>nd_symtab := Some st\<rparr>) h"

definition clear_symbols :: "nat \<Rightarrow> ast \<Rightarrow> ast" where
  "clear_symbols a h =
     (case nd_symtab (h ! a) of
        None \<Rightarrow> h
      | Some st \<Rightarrow> set_symtab a (st\<lparr>st_symbols := [], st_includes := []\<rparr>) h)"

definition lookdown :: "nat \<Rightarrow> bytes \<Rightarrow> ast \<Rightarrow> nat list" where
  "lookdown a loc h = get_symbols a loc [] (\<lambda>n. has (nd_type (h ! n)) flag_lookdown) h"

definition look :: "nat \<Rightarrow> bytes \<Rightarrow> ast \<Rightarrow> nat list" where
  "look a loc h = get_symbols a loc [] (\<lambda>_. True) h"

text \<open>\<open>lookup\<close>: the loop over the enclosing scopes, which gathers the definitions and the includes. The
  maps are searched by the view of the location, which throws where the location is not inside its source;
  a search in an empty map compares nothing. \<open>NullNode\<close> is a definition in a table for which \<open>precedes\<close> goes
  through a null pointer.\<close>

definition found_in_scope :: "nat \<Rightarrow> nat \<Rightarrow> nat \<Rightarrow> ast \<Rightarrow> bool option" where
  "found_in_scope a st m h =
     (if \<not> has (nd_type (h ! m)) flag_lookup then Some False
      else if \<not> has (nd_type (h ! st)) flag_defbeforeuse then Some True
      else precedes m a h)"

definition table_key :: "nat \<Rightarrow> string_error + bytes \<Rightarrow> ast \<Rightarrow> string_error + bytes" where
  "table_key a key h =
     (case nd_symtab (h ! a) of
        None \<Rightarrow> Inr []
      | Some st \<Rightarrow> if st_symbols st = [] then Inr [] else key)"

fun lookup_loop ::
  "nat \<Rightarrow> nat \<Rightarrow> string_error + bytes \<Rightarrow> nat option \<Rightarrow> nat option \<Rightarrow> nat list \<Rightarrow> ast \<Rightarrow> ast_error + nat list" where
  "lookup_loop 0 a key until st result h = Inr result"
| "lookup_loop (Suc n) a key until None result h = Inr result"
| "lookup_loop (Suc n) a key until (Some st) result h =
     (case table_key st key h of
        Inl e \<Rightarrow> Inl (Throws e)
      | Inr loc \<Rightarrow>
          if list_ex (\<lambda>m. found_in_scope a st m h = None) (look st loc h) then Inl NullNode
          else
            let result = get_symbols st loc result (\<lambda>m. found_in_scope a st m h = Some True) h;
                result = result @ symtab_includes st h
            in if Some st = until \<or> list_ex (\<lambda>m. has (nd_type (h ! m)) flag_shadowing) result then Inr result
               else lookup_loop n a key until (scope st h) result h)"

definition lookup :: "nat \<Rightarrow> nat option \<Rightarrow> ast \<Rightarrow> ast_error + nat list" where
  "lookup a until h = lookup_loop (length h) a (view (nd_location (h ! a))) until (scope a h) [] h"

text \<open>\<open>bind\<close>. The keys of the model are views, so a location outside its source always throws; the code,
  which compares keys only with those already there, would make it the first entry of an empty map.\<close>

definition bind :: "nat \<Rightarrow> location \<Rightarrow> ast \<Rightarrow> ast_error + (bool \<times> ast)" where
  "bind a loc h =
     (case scope a h of
        None \<Rightarrow> Inl NoSymbolTable
      | Some s \<Rightarrow>
          (case view loc of
             Inl e \<Rightarrow> Inl (Throws e)
           | Inr k \<Rightarrow>
               let st = the (nd_symtab (h ! s));
                   symbols = sym_push k a (st_symbols st);
                   entry = the (map_of symbols k);
                   h = set_symtab s (st\<lparr>st_symbols := symbols\<rparr>) h
               in Inr (length entry = 1 \<or> \<not> list_ex (\<lambda>m. has (nd_type (h ! m)) flag_shadowing) entry, h)))"

definition include_node :: "nat \<Rightarrow> ast \<Rightarrow> ast_error + ast" where
  "include_node a h =
     (case scope a h of
        None \<Rightarrow> Inl NoSymbolTable
      | Some s \<Rightarrow>
          let st = the (nd_symtab (h ! s))
          in Inr (set_symtab s (st\<lparr>st_includes := st_includes st @ [a]\<rparr>) h))"

text \<open>\<open>SymtabDef::fresh\<close> makes a new source for the name; \<open>NodeDef::fresh\<close> finds the table of \<open>Top\<close>.\<close>

definition symtab_fresh :: "nat \<Rightarrow> location \<Rightarrow> symtab_def \<Rightarrow> ast_error + (location \<times> symtab_def)" where
  "symtab_fresh obj prefix st =
     (case view prefix of
        Inl e \<Rightarrow> Inl (Throws e)
      | Inr v \<Rightarrow> Inr (location_of_string obj (v @ lit ''$'' @ dec_digits (st_next_id st)), st\<lparr>st_next_id := st_next_id st + 1\<rparr>))"

definition fresh :: "nat \<Rightarrow> nat \<Rightarrow> location \<Rightarrow> ast \<Rightarrow> ast_error + (location \<times> ast)" where
  "fresh obj a prefix h =
     (case (if nd_type (h ! a) = Top then Some a else parent_in a [Top] h) of
        None \<Rightarrow> Inl NullNode
      | Some t \<Rightarrow>
          (case nd_symtab (h ! t) of
             None \<Rightarrow> Inl NullNode
           | Some st \<Rightarrow> map_sum id (\<lambda>(l, st). (l, set_symtab t st h)) (symtab_fresh obj prefix st)))"

subsection \<open>Walking down\<close>

text \<open>\<open>traverse\<close>: the stack of nodes with the position of the iterator in their children. The actions
  act on a state that holds the heap; the loop need not end where the actions change the tree.\<close>

partial_function (option) traverse_loop ::
  "('s \<Rightarrow> ast) \<Rightarrow> (nat \<Rightarrow> 's \<Rightarrow> bool \<times> 's) \<Rightarrow> (nat \<Rightarrow> 's \<Rightarrow> 's) \<Rightarrow> (nat \<times> nat) list \<Rightarrow> 's \<Rightarrow> 's option" where
  "traverse_loop heap pre post path s =
     (case path of
        [] \<Rightarrow> Some s
      | (node, it) # rest \<Rightarrow>
          let cs = nd_children (heap s ! node)
          in if it < length cs then
               (case pre (cs ! it) s of
                  (b, s) \<Rightarrow> if b then traverse_loop heap pre post ((cs ! it, 0) # (node, it + 1) # rest) s
                    else traverse_loop heap pre post ((node, it + 1) # rest) s)
             else traverse_loop heap pre post rest (post node s))"

definition traverse :: "('s \<Rightarrow> ast) \<Rightarrow> (nat \<Rightarrow> 's \<Rightarrow> bool \<times> 's) \<Rightarrow> (nat \<Rightarrow> 's \<Rightarrow> 's) \<Rightarrow> nat \<Rightarrow> 's \<Rightarrow> 's option" where
  "traverse heap pre post root s =
     (case pre root s of
        (b, s) \<Rightarrow> if b then traverse_loop heap pre post [(root, 0)] s else Some s)"

definition nop_post :: "nat \<Rightarrow> 's \<Rightarrow> 's" where "nop_post n s = s"

definition tree_size :: "nat \<Rightarrow> ast \<Rightarrow> nat option" where
  "tree_size a h = traverse (\<lambda>_. h) (\<lambda>n size. (True, size + 1)) nop_post a 0"

definition tree_height :: "nat \<Rightarrow> ast \<Rightarrow> nat option" where
  "tree_height a h =
     map_option snd (traverse (\<lambda>_. h) (\<lambda>n (cur_depth, max_depth). (True, cur_depth + 1, max_depth))
       (\<lambda>n (cur_depth, max_depth). (cur_depth - 1, if max_depth < cur_depth then cur_depth else max_depth)) a (0, 0))"

definition get_and_reset_contains_error :: "nat \<Rightarrow> ast \<Rightarrow> bool \<times> ast" where
  "get_and_reset_contains_error a h =
     (contains_error (nd_flags (h ! a)), update a (\<lambda>nd. nd\<lparr>nd_flags := reset_contains_error (nd_flags nd)\<rparr>) h)"

definition get_and_reset_contains_lift :: "nat \<Rightarrow> ast \<Rightarrow> bool \<times> ast" where
  "get_and_reset_contains_lift a h =
     (contains_lift (nd_flags (h ! a)), update a (\<lambda>nd. nd\<lparr>nd_flags := reset_contains_lift (nd_flags nd)\<rparr>) h)"

definition get_errors :: "nat \<Rightarrow> ast \<times> nat list \<Rightarrow> (ast \<times> nat list) option" where
  "get_errors a s =
     traverse fst
       (\<lambda>n (h, errors).
          (case get_and_reset_contains_error n h of
             (b, h) \<Rightarrow> if b then (True, h, errors)
               else (False, h, if nd_type (h ! n) = Error then errors @ [n] else errors)))
       nop_post a s"

definition set_location :: "nat \<Rightarrow> location \<Rightarrow> ast \<Rightarrow> ast option" where
  "set_location a loc h =
     traverse id
       (\<lambda>n h. if loc_source (nd_location (h ! n)) \<noteq> None then (False, h)
              else (True, update n (\<lambda>nd. nd\<lparr>nd_location := loc\<rparr>) h))
       nop_post a h"

definition extend :: "nat \<Rightarrow> location \<Rightarrow> ast \<Rightarrow> ast" where
  "extend a loc h = update a (\<lambda>nd. nd\<lparr>nd_location := loc_mult (nd_location nd) loc\<rparr>) h"

text \<open>\<open>clone\<close> and \<open>equals\<close> recurse on the children; the depth of the recursion is bounded by the first
  argument.\<close>

fun clone :: "nat \<Rightarrow> nat \<Rightarrow> ast \<Rightarrow> (nat \<times> ast) option" where
  "clone 0 a h = None"
| "clone (Suc n) a h =
     (let (node, h') = create_at (nd_type (h ! a)) (nd_location (h ! a)) h
      in map_option (Pair node)
           (foldl (\<lambda>r child. Option.bind r (\<lambda>h.
              Option.bind (clone n child h) (\<lambda>(c, h). Some (push_back node (Some c) h))))
            (Some h') (nd_children (h ! a))))"

fun equals :: "nat \<Rightarrow> nat \<Rightarrow> nat \<Rightarrow> ast \<Rightarrow> ast_error + bool" where
  "equals 0 a b h = Inl NullNode"
| "equals (Suc n) a b h =
     (if nd_type (h ! a) \<noteq> nd_type (h ! b) then Inr False
      else and_then (if has (nd_type (h ! a)) flag_print
          then (case loc_eq (nd_location (h ! a)) (nd_location (h ! b)) of Inl e \<Rightarrow> Inl (Throws e) | Inr r \<Rightarrow> Inr r)
          else Inr True) (\<lambda>same.
        if \<not> same then Inr False
        else if length (nd_children (h ! a)) \<noteq> length (nd_children (h ! b)) then Inr False
        else foldl (\<lambda>r (x, y). and_then r (\<lambda>eq. if eq then equals n x y h else Inr False)) (Inr True)
          (zip (nd_children (h ! a)) (nd_children (h ! b)))))"

definition range_contains_error :: "nat list \<Rightarrow> ast \<Rightarrow> bool" where
  "range_contains_error ns h \<longleftrightarrow> list_ex (\<lambda>n. nd_type (h ! n) = Error \<or> contains_error (nd_flags (h ! n))) ns"

end
