(* ===== verification/Pattern.thy ===== *)
theory Pattern
  imports Ast RegexMatch
begin

text \<open>
  \<open>include/trieste/rewrite.h\<close>: the captures of a match (\<open>Match\<close>) and the patterns (\<open>PatternDef\<close> and the
  classes derived from it) with their \<open>match\<close>.

  An iterator into the children of a node is a position. A pattern pointer with its chain of
  continuations is the list of them, the null pointer is the empty list, so \<open>clone\<close>, which copies the
  chain, is the identity. A regular expression of \<open>regex.h\<close> is its engine. The function of an
  \<open>Action\<close> is given the tree and a range.

  A result is \<open>None\<close> when a repetition never ends; an access outside the children is an error.
\<close>

subsection \<open>Captures\<close>

text \<open>A range of the children of a node: the node and two positions.\<close>

type_synonym node_range = "nat \<times> nat \<times> nat"

type_synonym capture_frame = "bool \<times> (token_def \<rightharpoonup> node_range)"

record match_def =
  m_index :: nat
  m_captures :: "capture_frame list"

definition make_match :: match_def where
  "make_match = \<lparr>m_index = 0, m_captures = replicate 16 (False, Map.empty)\<rparr>"

text \<open>The loop of \<open>operator[]\<close>, from the frame \<open>i\<close> down; \<open>None\<close> is the empty range.\<close>

fun find_capture :: "nat \<Rightarrow> token_def \<Rightarrow> capture_frame list \<Rightarrow> node_range option" where
  "find_capture i t cs =
     (let (valid, m) = cs ! i
      in if valid \<and> m t \<noteq> None then m t
         else (case i of 0 \<Rightarrow> None | Suc j \<Rightarrow> find_capture j t cs))"

declare find_capture.simps [simp del]

definition captured :: "token_def \<Rightarrow> match_def \<Rightarrow> node_range option" where
  "captured t m = find_capture (m_index m) t (m_captures m)"

definition set_match :: "token_def \<Rightarrow> node_range \<Rightarrow> match_def \<Rightarrow> match_def" where
  "set_match t r m =
     (let (valid, f) = m_captures m ! m_index m;
          f = (if valid then f else Map.empty)
      in m\<lparr>m_captures := (m_captures m)[m_index m := (True, f(t \<mapsto> r))]\<rparr>)"

text \<open>\<open>operator()\<close>: the first node of a range; the nodes of a tree are never null. An empty range has
  no first node.\<close>

definition first_captured :: "token_def \<Rightarrow> match_def \<Rightarrow> ast \<Rightarrow> ast_error + nat option" where
  "first_captured t m h =
     (case captured t m of
        None \<Rightarrow> Inr None
      | Some (node, b, e) \<Rightarrow> if b < e \<and> e \<le> length (nd_children (h ! node)) then Inr (Some (nd_children (h ! node) ! b)) else Inl NullNode)"

definition add_frame :: "match_def \<Rightarrow> nat \<times> match_def" where
  "add_frame m =
     (let index = m_index m + 1;
          cs = m_captures m;
          cs = (if length cs = index then cs @ replicate (index * 2 - length cs) (False, Map.empty)
                else cs[index := (False, snd (cs ! index))])
      in (index - 1, \<lparr>m_index = index, m_captures = cs\<rparr>))"

definition return_to_frame :: "nat \<Rightarrow> match_def \<Rightarrow> match_def" where
  "return_to_frame new_index m = m\<lparr>m_index := new_index\<rparr>"

definition reset_match :: "match_def \<Rightarrow> match_def" where
  "reset_match m =
     \<lparr>m_index = 0, m_captures = (m_captures m)[0 := (False, snd (m_captures m ! 0))]\<rparr>"

subsection \<open>Patterns\<close>

text \<open>The flag of \<open>Choice\<close> is its template argument.\<close>

datatype pattern =
    CapP token_def "pattern list"
  | Anything
  | TokenMatch "token_def list"
  | RegexMatchP token_def engine
  | OptP "pattern list"
  | Rep "pattern list"
  | NotP "pattern list"
  | Choice bool "pattern list" "pattern list"
  | InsideStar "token_def list"
  | Inside "token_def list"
  | First
  | Last
  | Children "pattern list" "pattern list"
  | Pred "pattern list"
  | NegPred "pattern list"
  | Action "ast \<Rightarrow> node_range \<Rightarrow> bool" "pattern list"

text \<open>\<open>has_captures\<close>: the local answer of each class, and then the continuation. \<open>Action\<close> does not
  override the answer \<open>false\<close>, and neither do \<open>Rep\<close>, \<open>Not\<close>, \<open>Pred\<close> and \<open>NegPred\<close>.\<close>

fun has_captures_local :: "pattern \<Rightarrow> bool" where
  "has_captures_local (CapP name p) = True"
| "has_captures_local (OptP p) = list_ex has_captures_local p"
| "has_captures_local (Choice cl p q) = (list_ex has_captures_local p \<or> list_ex has_captures_local q)"
| "has_captures_local (Children p q) = (list_ex has_captures_local p \<or> list_ex has_captures_local q)"
| "has_captures_local _ = False"

definition has_captures :: "pattern list \<Rightarrow> bool" where
  "has_captures p = list_ex has_captures_local p"

text \<open>Errors while a pattern is made.\<close>

datatype pattern_error = CapturesInside bytes | CapturesDisagree | RepNotAllowed bytes | ContinuationAfterEnd

definition set_continuation :: "pattern list \<Rightarrow> pattern list \<Rightarrow> pattern_error + pattern list" where
  "set_continuation p k = (if p \<noteq> [] \<and> last p = Last then Inl ContinuationAfterEnd else Inr (p @ k))"

text \<open>\<open>custom_rep\<close>; \<open>None\<close> is the null pointer.\<close>

definition custom_rep :: "pattern list \<Rightarrow> pattern_error + pattern list option" where
  "custom_rep p =
     (case p of
        [Rep q] \<Rightarrow> Inr (Some p)
      | [Inside ts] \<Rightarrow> Inr (Some [InsideStar ts])
      | InsideStar ts # k \<Rightarrow> Inl (RepNotAllowed (lit ''InsideStar''))
      | First # k \<Rightarrow> Inl (RepNotAllowed (lit ''First''))
      | Last # k \<Rightarrow> Inl (RepNotAllowed (lit ''Last''))
      | Pred q # k \<Rightarrow> Inl (RepNotAllowed (lit ''Pred''))
      | NegPred q # k \<Rightarrow> Inl (RepNotAllowed (lit ''NegPred''))
      | _ \<Rightarrow> Inr None)"

definition only_tokens :: "pattern list \<Rightarrow> token_def list" where
  "only_tokens p = (case p of [TokenMatch ts] \<Rightarrow> ts | _ \<Rightarrow> [])"

text \<open>The constructors that refuse a pattern with captures.\<close>

definition make_rep :: "pattern list \<Rightarrow> pattern_error + pattern list" where
  "make_rep p = (if has_captures p then Inl (CapturesInside (lit ''iteration (Pattern++)'')) else Inr [Rep p])"

definition make_not :: "pattern list \<Rightarrow> pattern_error + pattern list" where
  "make_not p = (if has_captures p then Inl (CapturesInside (lit ''Not (!Pattern)'')) else Inr [NotP p])"

definition make_pred :: "pattern list \<Rightarrow> pattern_error + pattern list" where
  "make_pred p = (if has_captures p then Inl (CapturesInside (lit ''Pred (++Pattern)'')) else Inr [Pred p])"

definition make_neg_pred :: "pattern list \<Rightarrow> pattern_error + pattern list" where
  "make_neg_pred p = (if has_captures p then Inl (CapturesInside (lit ''NegPred (--Pattern)'')) else Inr [NegPred p])"

definition make_choice :: "bool \<Rightarrow> pattern list \<Rightarrow> pattern list \<Rightarrow> pattern_error + pattern list" where
  "make_choice cl p q = (if cl \<noteq> has_captures p then Inl CapturesDisagree else Inr [Choice cl p q])"

subsection \<open>Matching\<close>

text \<open>\<open>TRegex::FullMatch\<close>. The result of the engine does not depend on the context, which is
  thread-local.\<close>

definition FullMatch :: "bytes \<Rightarrow> engine \<Rightarrow> bool" where
  "FullMatch text regex \<longleftrightarrow> engine_ok regex \<and> snd (regex_match regex 1 text new_context)"

type_synonym match_result = "(ast_error + bool \<times> nat \<times> match_def) option"

text \<open>What follows a call of \<open>match\<close>: an error and a repetition without end go on to the caller.\<close>

definition then_match :: "match_result \<Rightarrow> (bool \<Rightarrow> nat \<Rightarrow> match_def \<Rightarrow> match_result) \<Rightarrow> match_result" where
  "then_match r f =
     (case r of
        None \<Rightarrow> None
      | Some (Inl e) \<Rightarrow> Some (Inl e)
      | Some (Inr (b, it, m)) \<Rightarrow> f b it m)"

definition returned :: "bool \<Rightarrow> nat \<Rightarrow> match_def \<Rightarrow> match_result" where
  "returned b it m = Some (Inr (b, it, m))"

text \<open>The loop of \<open>Rep\<close>, which goes on from the last position at which the pattern matched.\<close>

partial_function (option) rep_loop :: "(nat \<Rightarrow> match_def \<Rightarrow> match_result) \<Rightarrow> nat \<Rightarrow> nat \<Rightarrow> match_def \<Rightarrow> match_result" where
  "rep_loop step stop it m =
     (if it = stop then Some (Inr (True, it, m))
      else Option.bind (step it m) (\<lambda>r.
        (case r of
           Inl e \<Rightarrow> Some (Inl e)
         | Inr (b, it', m') \<Rightarrow> if b then rep_loop step stop it' m' else Some (Inr (True, it, m')))))"

fun pmatch :: "pattern list \<Rightarrow> ast \<Rightarrow> nat \<Rightarrow> nat \<Rightarrow> match_def \<Rightarrow> match_result" where
  "pmatch [] h it parent m = returned True it m"
| "pmatch (CapP name p # k) h it parent m =
     then_match (pmatch p h it parent m) (\<lambda>b it' m.
       if \<not> b then returned False it' m
       else pmatch k h it' parent (set_match name (parent, it, it') m))"
| "pmatch (Anything # k) h it parent m =
     (if it = length (nd_children (h ! parent)) then returned False it m
      else pmatch k h (it + 1) parent m)"
| "pmatch (TokenMatch types # k) h it parent m =
     (if it = length (nd_children (h ! parent)) then returned False it m
      else if list_ex (\<lambda>t. nd_type (h ! (nd_children (h ! parent) ! it)) = t) types then pmatch k h (it + 1) parent m
      else returned False it m)"
| "pmatch (RegexMatchP type regex # k) h it parent m =
     (if it = length (nd_children (h ! parent)) \<or> nd_type (h ! (nd_children (h ! parent) ! it)) \<noteq> type then returned False it m
      else (case view (nd_location (h ! (nd_children (h ! parent) ! it))) of
              Inl e \<Rightarrow> Some (Inl (Throws e))
            | Inr text \<Rightarrow> if \<not> FullMatch text regex then returned False it m else pmatch k h (it + 1) parent m))"
| "pmatch (OptP p # k) h it parent m =
     (let (backtrack_frame, m) = add_frame m
      in then_match (pmatch p h it parent m) (\<lambda>b it' m.
           if \<not> b then pmatch k h it parent (return_to_frame backtrack_frame m)
           else pmatch k h it' parent m))"
| "pmatch (Rep p # k) h it parent m =
     then_match (rep_loop (\<lambda>it m. pmatch p h it parent m) (length (nd_children (h ! parent))) it m) (\<lambda>b it m.
       pmatch k h it parent m)"
| "pmatch (NotP p # k) h it parent m =
     (if it = length (nd_children (h ! parent)) then returned False it m
      else then_match (pmatch p h it parent m) (\<lambda>b begin m.
        if b then returned False (it + 1) m else pmatch k h (it + 1) parent m))"
| "pmatch (Choice captures_left p q # k) h it parent m =
     (let (backtrack_frame, m) = (if captures_left then add_frame m else (0, m))
      in then_match (pmatch p h it parent m) (\<lambda>b it' m.
           if b then pmatch k h it' parent m
           else
             let m = (if captures_left then return_to_frame backtrack_frame m else m)
             in then_match (pmatch q h it parent m) (\<lambda>b it' m.
                  if b then pmatch k h it' parent m else returned False it' m)))"
| "pmatch (InsideStar types # k) h it parent m =
     (if first_up (\<lambda>p. list_ex (\<lambda>t. nd_type (h ! p) = t) types) (length h) (Some parent) h \<noteq> None
      then pmatch k h it parent m else returned False it m)"
| "pmatch (Inside types # k) h it parent m =
     (if list_ex (\<lambda>t. nd_type (h ! parent) = t) types then pmatch k h it parent m else returned False it m)"
| "pmatch (First # k) h it parent m =
     (if it = 0 then pmatch k h it parent m else returned False it m)"
| "pmatch (Last # k) h it parent m = returned (it = length (nd_children (h ! parent))) it m"
| "pmatch (Children p children # k) h it parent m =
     then_match (pmatch p h it parent m) (\<lambda>b it' m.
       if \<not> b then returned False it' m
       else if length (nd_children (h ! parent)) \<le> it then Some (Inl NullNode)
       else then_match (pmatch children h 0 (nd_children (h ! parent) ! it) m) (\<lambda>b it2 m.
         if \<not> b then returned False it' m else pmatch k h it' parent m))"
| "pmatch (Pred p # k) h it parent m =
     then_match (pmatch p h it parent m) (\<lambda>b begin m.
       if b then pmatch k h it parent m else returned False it m)"
| "pmatch (NegPred p # k) h it parent m =
     then_match (pmatch p h it parent m) (\<lambda>b begin m.
       if \<not> b then pmatch k h it parent m else returned False it m)"
| "pmatch (Action action p # k) h it parent m =
     then_match (pmatch p h it parent m) (\<lambda>b it' m.
       if \<not> b then returned False it' m
       else if action h (parent, it, it') then pmatch k h it' parent m else returned False it' m)"

end
