(* ===== verification/AstForest.thy ===== *)
theory AstForest
  imports Ast
begin

text \<open>
  The operations of \<open>Ast\<close> on heaps that are forests: the fields \<open>parent_\<close> and \<open>children\<close> agree, and
  every ancestor of an error carries the flag by which errors are found. The lemmas show that the
  operations that add, replace and remove children keep both.
\<close>

subsection \<open>Forests\<close>

text \<open>The relation of a parent to its child, by the field \<open>parent_\<close>.\<close>

definition up :: "ast \<Rightarrow> (nat \<times> nat) set" where
  "up h = {(p, a). a < length h \<and> nd_parent (h ! a) = Some p}"

text \<open>The children of a node are distinct and have it as their parent, a node with a parent is one of
  its children, and no node is its own ancestor.\<close>

definition forest :: "ast \<Rightarrow> bool" where
  "forest h \<longleftrightarrow>
     (\<forall>a < length h. distinct (nd_children (h ! a))) \<and>
     (\<forall>a < length h. \<forall>c. c \<in> set (nd_children (h ! a)) \<longleftrightarrow> (a, c) \<in> up h) \<and>
     Domain (up h) \<subseteq> {..<length h} \<and> acyclic (up h)"

text \<open>The mark that \<open>add_flags\<close> spreads: a node that is an error, or contains one.\<close>

definition marked :: "token_def \<Rightarrow> (byte \<Rightarrow> bool) \<Rightarrow> node_def \<Rightarrow> bool" where
  "marked t test nd \<longleftrightarrow> nd_type nd = t \<or> test (nd_flags nd)"

text \<open>Every parent of a marked node has the flag.\<close>

definition flags_sound :: "ast \<Rightarrow> bool" where
  "flags_sound h \<longleftrightarrow> (\<forall>(p, a) \<in> up h. marked Error contains_error (h ! a) \<longrightarrow> contains_error (nd_flags (h ! p)))"

lemma forestD:
  assumes "forest h"
  shows "a < length h \<Longrightarrow> distinct (nd_children (h ! a))"
    "a < length h \<Longrightarrow> c \<in> set (nd_children (h ! a)) \<longleftrightarrow> (a, c) \<in> up h"
    "(a, c) \<in> up h \<Longrightarrow> a < length h \<and> c < length h" "acyclic (up h)"
  using assms by (auto simp: forest_def up_def)

lemma up_inject: "(p, a) \<in> up h \<Longrightarrow> (q, a) \<in> up h \<Longrightarrow> p = q"
  by (simp add: up_def)

lemma finite_up: "finite (up h)"
proof (rule finite_subset)
  show "up h \<subseteq> (\<lambda>a. (the (nd_parent (h ! a)), a)) ` {..<length h}" by (auto simp: up_def image_iff)
qed simp

text \<open>What a heap is apart from the flags.\<close>

definition links :: "node_def \<Rightarrow> token_def \<times> nat option \<times> nat list" where
  "links nd = (nd_type nd, nd_parent nd, nd_children nd)"

lemma links_eqD:
  assumes "map links h' = map links h"
  shows "length h' = length h" "up h' = up h"
    "a < length h \<Longrightarrow> nd_type (h' ! a) = nd_type (h ! a) \<and> nd_children (h' ! a) = nd_children (h ! a) \<and>
      nd_parent (h' ! a) = nd_parent (h ! a)"
proof -
  show l: "length h' = length h" by (rule map_eq_imp_length_eq [OF assms])
  have e: "links (h' ! a) = links (h ! a)" if "a < length h" for a
    using arg_cong [OF assms, of "\<lambda>x. x ! a"] that l by simp
  then show "a < length h \<Longrightarrow> nd_type (h' ! a) = nd_type (h ! a) \<and> nd_children (h' ! a) = nd_children (h ! a) \<and>
      nd_parent (h' ! a) = nd_parent (h ! a)" by (simp add: links_def)
  show "up h' = up h" using e l by (auto simp: up_def links_def)
qed

lemma links_forest: "map links h' = map links h \<Longrightarrow> forest h' = forest h"
  using links_eqD [of h' h] by (simp add: forest_def)

lemma length_update [simp]: "length (update a f h) = length h"
  by (simp add: update_def)

lemma nth_update: "a < length h \<Longrightarrow> update a f h ! b = (if a = b then f (h ! a) else h ! b)"
  by (simp add: update_def nth_list_update)

lemma links_update_flags: "map links (update a (\<lambda>nd. nd\<lparr>nd_flags := F nd\<rparr>) h) = map links h"
  by (cases "a < length h"; rule nth_equalityI)
    (simp_all add: update_def nth_list_update list_update_beyond not_less links_def)

lemma set_up_links: "map links (set_up test setf p h) = map links h"
proof (induction test setf p h rule: set_up.induct)
  case (2 test setf cur h)
  then show ?case by (subst set_up.simps) (simp add: links_update_flags)
qed (simp add: set_up.simps)

lemma add_flags_links: "map links (add_flags a h) = map links h"
  by (simp add: add_flags_def Let_def set_up_links)

subsection \<open>The flags on the way up\<close>

text \<open>A flag is only ever set.\<close>

lemma set_up_mono:
  assumes "\<And>f. test f \<Longrightarrow> test (setf f)" "a < length h" "test (nd_flags (h ! a))"
  shows "test (nd_flags (set_up test setf p h ! a))"
  using assms
proof (induction test setf p h rule: set_up.induct)
  case (2 test setf cur h)
  then show ?case by (subst set_up.simps) (auto simp: nth_update)
qed (simp add: set_up.simps)

lemma set_up_other:
  assumes "\<And>f. other (setf f) = other f"
  shows "a < length h \<Longrightarrow> other (nd_flags (set_up test setf p h ! a)) = other (nd_flags (h ! a))"
  using assms
proof (induction test setf p h rule: set_up.induct)
  case (2 test setf cur h)
  then show ?case by (subst set_up.simps) (auto simp: nth_update)
qed (simp add: set_up.simps)

text \<open>All parents of marked nodes have the flag, except possibly \<open>p\<close>.\<close>

definition sound_but :: "nat option \<Rightarrow> ast \<Rightarrow> bool" where
  "sound_but p h \<longleftrightarrow> (\<forall>(q, a) \<in> up h. Some q \<noteq> p \<longrightarrow> marked Error contains_error (h ! a) \<longrightarrow> contains_error (nd_flags (h ! q)))"

definition parents_bounded :: "ast \<Rightarrow> bool" where
  "parents_bounded h \<longleftrightarrow> Domain (up h) \<subseteq> {..<length h}"

lemma parents_boundedD: "parents_bounded h \<Longrightarrow> (p, a) \<in> up h \<Longrightarrow> p < length h \<and> a < length h"
  by (auto simp: parents_bounded_def up_def)

lemma set_up_sound:
  assumes "parents_bounded h" "sound_but p h" "\<forall>q. p = Some q \<longrightarrow> q < length h"
  shows "flags_sound (set_up contains_error set_contains_error p h)"
  using assms
proof (induction contains_error set_contains_error p h rule: set_up.induct)
  case (1 h)
  then show ?case by (auto simp: set_up.simps flags_sound_def sound_but_def)
next
  case (2 cur h)
  have cur: "cur < length h" using 2(4) by simp
  show ?case
  proof (cases "contains_error (nd_flags (h ! cur))")
    case True
    then have "flags_sound h" using 2(3) by (fastforce simp: flags_sound_def sound_but_def)
    with True show ?thesis by (simp add: set_up.simps)
  next
    case False
    let ?h = "update cur (\<lambda>nd. nd\<lparr>nd_flags := set_contains_error (nd_flags nd)\<rparr>) h"
    have l: "map links ?h = map links h" by (rule links_update_flags)
    have "sound_but (nd_parent (h ! cur)) ?h"
      unfolding sound_but_def links_eqD(2) [OF l]
    proof (clarify)
      fix q a assume qa: "(q, a) \<in> up h" "Some q \<noteq> nd_parent (h ! cur)" "marked Error contains_error (?h ! a)"
      then have "a \<noteq> cur" by (auto simp: up_def)
      then have m: "marked Error contains_error (h ! a)" using qa(3) cur by (simp add: nth_update)
      show "contains_error (nd_flags (?h ! q))"
        using 2(3) qa(1) m cur by (cases "q = cur") (auto simp: nth_update sound_but_def)
    qed
    moreover have "\<forall>q. nd_parent (h ! cur) = Some q \<longrightarrow> q < length ?h"
      using parents_boundedD [OF 2(2)] cur by (fastforce simp: up_def)
    moreover have "parents_bounded ?h" using links_eqD(1,2) [OF l] 2(2) by (simp add: parents_bounded_def)
    ultimately show ?thesis using 2(1) cur False by (subst set_up.simps) simp
  qed
qed

lemma set_up_lift_marks:
  "a < length h \<Longrightarrow> marked Error contains_error (set_up contains_lift set_contains_lift p h ! a) = marked Error contains_error (h ! a)"
  using set_up_other [of contains_error set_contains_lift a h contains_lift p] links_eqD(3) [OF set_up_links]
  by (simp add: marked_def)

lemma add_flags_sound:
  assumes "parents_bounded h" "a < length h" "sound_but (nd_parent (h ! a)) h"
    and "\<forall>(q, b) \<in> up h. Some q = nd_parent (h ! a) \<longrightarrow> b \<noteq> a \<longrightarrow> marked Error contains_error (h ! b) \<longrightarrow> contains_error (nd_flags (h ! q))"
  shows "flags_sound (add_flags a h)"
proof (cases "marked Error contains_error (h ! a)")
  case True
  have "\<forall>q. nd_parent (h ! a) = Some q \<longrightarrow> q < length h"
    using parents_boundedD [OF assms(1)] assms(2) by (fastforce simp: up_def)
  from set_up_sound [OF assms(1,3) this] True show ?thesis by (simp add: add_flags_def marked_def Let_def)
next
  case False
  then have s: "flags_sound h" using assms(3,4) by (fastforce simp: flags_sound_def sound_but_def)
  let ?h = "set_up contains_lift set_contains_lift (nd_parent (h ! a)) h"
  have "flags_sound ?h"
    unfolding flags_sound_def links_eqD(2) [OF set_up_links]
  proof (clarify)
    fix q b assume qb: "(q, b) \<in> up h" "marked Error contains_error (?h ! b)"
    then have "q < length h" "b < length h" using parents_boundedD [OF assms(1)] by blast+
    then show "contains_error (nd_flags (?h ! q))"
      using qb s set_up_lift_marks [of b h] set_up_other [of contains_error set_contains_lift q h]
      by (auto simp: flags_sound_def)
  qed
  then show ?thesis using False s by (simp add: add_flags_def marked_def Let_def)
qed

subsection \<open>Adding and removing children\<close>

text \<open>The links after \<open>node\<close> has become one of the children \<open>cs\<close> of \<open>this\<close>.\<close>

definition linked :: "nat \<Rightarrow> nat \<Rightarrow> nat list \<Rightarrow> ast \<Rightarrow> ast" where
  "linked this node cs h = set_children this cs (set_parent node (Some this) h)"

text \<open>A node without a parent that is not above the node it is added to.\<close>

definition detached :: "nat \<Rightarrow> nat \<Rightarrow> ast \<Rightarrow> bool" where
  "detached node this h \<longleftrightarrow> node < length h \<and> this < length h \<and> nd_parent (h ! node) = None \<and> (node, this) \<notin> (up h)\<^sup>*"

lemma nth_set_parent: "a < length h \<Longrightarrow> set_parent a p h ! b = (if a = b then (h ! a)\<lparr>nd_parent := p\<rparr> else h ! b)"
  by (simp add: set_parent_def nth_update)

lemma nth_set_children: "a < length h \<Longrightarrow> set_children a cs h ! b = (if a = b then (h ! a)\<lparr>nd_children := cs\<rparr> else h ! b)"
  by (simp add: set_children_def nth_update)

lemma length_set [simp]: "length (set_parent a p h) = length h" "length (set_children a cs h) = length h"
  by (simp_all add: set_parent_def set_children_def)

lemma up_set_children [simp]: "up (set_children a cs h) = up h"
  by (cases "a < length h") (auto simp: up_def nth_set_children set_children_def update_def nth_list_update list_update_beyond)

lemma up_set_parent:
  assumes "nd_parent (h ! node) = None" "node < length h"
  shows "up (set_parent node (Some this) h) = insert (this, node) (up h)"
  using assms by (auto simp: up_def nth_set_parent split: if_splits)

lemma linked_forest:
  assumes "forest h" "detached node this h" "distinct cs" "set cs = insert node (set (nd_children (h ! this)))"
  shows "forest (linked this node cs h)"
proof -
  let ?h = "linked this node cs h"
  have d: "node < length h" "this < length h" "nd_parent (h ! node) = None" "(node, this) \<notin> (up h)\<^sup>*"
    using assms(2) by (simp_all add: detached_def)
  have up: "up ?h = insert (this, node) (up h)" using d by (simp add: linked_def up_set_parent)
  have nt: "node \<noteq> this" using d(4) by auto
  have cs: "nd_children (?h ! a) = (if a = this then cs else nd_children (h ! a))" for a
    using d nt by (simp add: linked_def nth_set_children nth_set_parent)
  have "c \<in> set (nd_children (?h ! a)) \<longleftrightarrow> (a, c) \<in> up ?h" if "a < length h" for a c
    using forestD(2) [OF assms(1) that, of c] assms(4) by (auto simp: cs up)
  moreover have "acyclic (up ?h)" unfolding up using forestD(4) [OF assms(1)] d(4) by simp
  moreover have "Domain (up ?h) \<subseteq> {..<length h}" using assms(1) d(2) by (auto simp: up forest_def)
  moreover have "distinct (nd_children (?h ! a))" if "a < length h" for a
    using forestD(1) [OF assms(1) that] assms(3) by (simp add: cs)
  ultimately show ?thesis by (simp add: forest_def linked_def)
qed

text \<open>A forest whose flags are sound.\<close>

definition tree_ok :: "ast \<Rightarrow> bool" where
  "tree_ok h \<longleftrightarrow> forest h \<and> flags_sound h"

lemma forest_bounded: "forest h \<Longrightarrow> parents_bounded h"
  by (simp add: forest_def parents_bounded_def)

lemma sound_set_children:
  assumes "flags_sound h" "\<forall>(q, a) \<in> up h. q < length h"
  shows "flags_sound (set_children this cs h)"
proof -
  have "nd_flags (set_children this cs h ! a) = nd_flags (h ! a) \<and> nd_type (set_children this cs h ! a) = nd_type (h ! a)"
    if "a < length h" for a
    using that by (cases "this < length h") (auto simp: nth_set_children set_children_def update_def list_update_beyond nth_list_update)
  then have m: "marked Error contains_error (set_children this cs h ! a) = marked Error contains_error (h ! a)"
    "nd_flags (set_children this cs h ! a) = nd_flags (h ! a)" if "a < length h" for a using that by (simp_all add: marked_def)
  show ?thesis unfolding flags_sound_def up_set_children
  proof (clarify)
    fix q a assume qa: "(q, a) \<in> up h" "marked Error contains_error (set_children this cs h ! a)"
    then have "q < length h" "a < length h" using assms(2) by (auto simp: up_def)
    with qa m assms(1) show "contains_error (nd_flags (set_children this cs h ! q))" by (auto simp: flags_sound_def)
  qed
qed

lemma adopt_links: "map links (adopt this node h) = map links (set_parent node (Some this) h)"
  by (simp add: adopt_def add_flags_links)

lemma adopt_sound:
  assumes "flags_sound h" "parents_bounded h" "detached node this h"
  shows "flags_sound (adopt this node h)"
proof -
  let ?h = "set_parent node (Some this) h"
  have d: "node < length h" "this < length h" "nd_parent (h ! node) = None" "node \<noteq> this"
    using assms(3) by (auto simp: detached_def)
  have up: "up ?h = insert (this, node) (up h)" using d by (simp add: up_set_parent)
  have same: "nd_flags (?h ! a) = nd_flags (h ! a) \<and> nd_type (?h ! a) = nd_type (h ! a)" for a
    using d by (simp add: nth_set_parent)
  have "parents_bounded ?h" using assms(2) d(2) by (simp add: parents_bounded_def up)
  moreover have "nd_parent (?h ! node) = Some this" using d by (simp add: nth_set_parent)
  moreover have "sound_but (Some this) ?h"
    using assms(1) by (auto simp: sound_but_def flags_sound_def up marked_def same)
  moreover have "\<forall>(q, b) \<in> up ?h. Some q = Some this \<longrightarrow> b \<noteq> node \<longrightarrow> marked Error contains_error (?h ! b) \<longrightarrow>
      contains_error (nd_flags (?h ! q))"
    using assms(1) by (auto simp: flags_sound_def up marked_def same)
  ultimately show ?thesis unfolding adopt_def using d(1) by (intro add_flags_sound) simp_all
qed

lemma links_set_children:
  assumes "map links h = map links h'"
  shows "map links (set_children a cs h) = map links (set_children a cs h')"
proof -
  have l: "length h' = length h" using map_eq_imp_length_eq [OF assms] by simp
  have e: "links (h ! i) = links (h' ! i)" if "i < length h" for i
    using arg_cong [OF assms, of "\<lambda>x. x ! i"] that l by simp
  show ?thesis
    by (cases "a < length h"; rule nth_equalityI)
      (use e l in \<open>simp_all add: nth_set_children set_children_def update_def list_update_beyond not_less nth_list_update links_def\<close>)
qed

lemma set_parent_children:
  assumes "node \<noteq> this" "node < length h" "this < length h"
  shows "set_parent node p (set_children this cs h) = set_children this cs (set_parent node p h)"
  by (rule nth_equalityI) (use assms in \<open>auto simp: nth_set_parent nth_set_children\<close>)

text \<open>The two orders in which the code adds a node: the list first, or the parent and flags first.\<close>

lemma add_child_ok:
  assumes "tree_ok h" "detached node this h" "distinct cs" "set cs = insert node (set (nd_children (h ! this)))"
  shows "tree_ok (adopt this node (set_children this cs h))" "tree_ok (set_children this cs (adopt this node h))"
proof -
  have f: "forest h" "flags_sound h" "parents_bounded h" using assms(1) forest_bounded by (auto simp: tree_ok_def)
  have d: "node \<noteq> this" "node < length h" "this < length h" using assms(2) by (auto simp: detached_def)
  have lk: "forest (linked this node cs h)" by (rule linked_forest [OF f(1) assms(2-4)])
  have b: "\<forall>(q, a) \<in> up h. q < length h" using parents_boundedD [OF f(3)] by auto
  have d': "detached node this (set_children this cs h)"
    using assms(2) d unfolding detached_def up_set_children length_set nth_set_children [OF d(3)] by simp
  have l0: "map links (adopt this node (set_children this cs h)) = map links (linked this node cs h)"
    unfolding adopt_links linked_def set_parent_children [OF d] ..
  have "flags_sound (adopt this node (set_children this cs h))"
    by (rule adopt_sound [OF sound_set_children [OF f(2) b] _ d']) (use f(3) in \<open>simp add: parents_bounded_def\<close>)
  then show "tree_ok (adopt this node (set_children this cs h))"
    using lk links_forest [OF l0] by (simp add: tree_ok_def)
  have l: "map links (set_children this cs (adopt this node h)) = map links (linked this node cs h)"
    unfolding linked_def by (rule links_set_children [OF adopt_links])
  have fo: "forest (set_children this cs (adopt this node h))" using lk links_forest [OF l] by simp
  have "\<forall>(q, a) \<in> up (adopt this node h). q < length (adopt this node h)"
    using forestD(3) [OF fo] unfolding up_set_children length_set by blast
  with fo show "tree_ok (set_children this cs (adopt this node h))"
    using sound_set_children [OF adopt_sound [OF f(2,3) assms(2)]] by (simp add: tree_ok_def)
qed

lemma adopt_children:
  "a < length h \<Longrightarrow> nd_children (adopt this node h ! a) = nd_children (h ! a)"
  using links_eqD(3) [OF adopt_links, of a node this h]
  by (cases "node < length h") (auto simp: nth_set_parent set_parent_def update_def list_update_beyond nth_list_update)

lemma detached_new: "forest h \<Longrightarrow> detached node this h \<Longrightarrow> node \<notin> set (nd_children (h ! a)) \<or> \<not> a < length h"
  using forestD(2) [of h a node] by (auto simp: detached_def up_def)

lemma push_back_ok:
  assumes "tree_ok h" "detached node this h"
  shows "tree_ok (push_back this (Some node) h)"
  using assms detached_new [of h node this this] forestD(1) [of h this]
  by (auto simp: push_back_def tree_ok_def [of h] detached_def intro!: add_child_ok(1))

lemma push_front_ok:
  assumes "tree_ok h" "detached node this h"
  shows "tree_ok (push_front this (Some node) h)"
  using assms detached_new [of h node this this] forestD(1) [of h this]
  by (auto simp: push_front_def tree_ok_def [of h] detached_def intro!: add_child_ok(1))

lemma insert_node_ok:
  assumes "tree_ok h" "detached node this h"
  shows "tree_ok (snd (insert_node this i (Some node) h))"
proof -
  let ?cs = "nd_children (h ! this)"
  have d: "this < length h" using assms(2) by (simp add: detached_def)
  have f: "forest h" using assms(1) by (simp add: tree_ok_def)
  have n: "node \<notin> set ?cs" using detached_new [OF f assms(2), of this] d by simp
  have "distinct (take i ?cs @ node # drop i ?cs)" "set (take i ?cs @ node # drop i ?cs) = insert node (set ?cs)"
    using forestD(1) [OF f d] n set_append [of "take i ?cs" "drop i ?cs"]
    by (auto simp: set_take_disj_set_drop_if_distinct dest: in_set_takeD in_set_dropD)
  from add_child_ok(2) [OF assms this] show ?thesis using d by (simp add: insert_node_def adopt_children Let_def)
qed

lemma nth_orphan: "a < length h \<Longrightarrow> orphan this a h ! b =
    (if a = b \<and> nd_parent (h ! a) = Some this then (h ! a)\<lparr>nd_parent := None\<rparr> else h ! b)"
  by (simp add: orphan_def nth_set_parent)

lemma length_orphan [simp]: "length (orphan this a h) = length h"
  by (simp add: orphan_def)

text \<open>The nodes \<open>rs\<close> lose this parent.\<close>

definition orphans :: "nat \<Rightarrow> nat list \<Rightarrow> ast \<Rightarrow> ast" where
  "orphans this rs h = foldl (\<lambda>h node. orphan this node h) h rs"

lemma length_orphans [simp]: "length (orphans this rs h) = length h"
  by (induction rs arbitrary: h) (simp_all add: orphans_def)

lemma nth_orphans:
  "set rs \<subseteq> {..<length h} \<Longrightarrow> b < length h \<Longrightarrow> orphans this rs h ! b =
      (if b \<in> set rs \<and> nd_parent (h ! b) = Some this then (h ! b)\<lparr>nd_parent := None\<rparr> else h ! b)"
proof (induction rs arbitrary: h)
  case (Cons r rs)
  have "orphans this (r # rs) h = orphans this rs (orphan this r h)" by (simp add: orphans_def)
  moreover have "set rs \<subseteq> {..<length (orphan this r h)}" "r < length h" "b < length (orphan this r h)" using Cons.prems by auto
  ultimately show ?case using Cons.IH [of "orphan this r h"] by (cases "b = r") (auto simp: nth_orphan)
qed (simp add: orphans_def)

lemma up_orphans:
  assumes "set rs \<subseteq> {..<length h}"
  shows "up (orphans this rs h) = up h - {this} \<times> set rs"
proof -
  have "(q, b) \<in> up (orphans this rs h) \<longleftrightarrow> (q, b) \<in> up h - {this} \<times> set rs" for q b
    by (cases "b < length h") (auto simp: up_def nth_orphans [OF assms])
  then show ?thesis by auto
qed

lemma forest_irrefl: "forest h \<Longrightarrow> (a, a) \<notin> up h"
  using forestD(4) by (auto simp: acyclic_def dest: r_into_trancl)

lemma unlink_ok:
  assumes "tree_ok h" "this < length h" "set rs \<subseteq> set (nd_children (h ! this))"
    and "distinct cs" "set cs = set (nd_children (h ! this)) - set rs"
  shows "tree_ok (set_children this cs (orphans this rs h))"
proof -
  have f: "forest h" "flags_sound h" using assms(1) by (simp_all add: tree_ok_def)
  have rs: "set rs \<subseteq> {..<length h}" using assms(3) forestD(2,3) [OF f(1)] assms(2) by blast
  let ?h = "set_children this cs (orphans this rs h)"
  have up: "up ?h = up h - {this} \<times> set rs" by (simp add: up_orphans [OF rs])
  have cs: "nd_children (?h ! a) = (if a = this then cs else nd_children (h ! a))" if "a < length h" for a
    using assms(2) that by (simp add: nth_set_children nth_orphans [OF rs])
  have "c \<in> set (nd_children (?h ! a)) \<longleftrightarrow> (a, c) \<in> up ?h" if "a < length h" for a c
    unfolding up cs [OF that] using forestD(2) [OF f(1) that, of c] assms(5) by (cases "a = this") simp_all
  moreover have "acyclic (up ?h)" unfolding up using forestD(4) [OF f(1)] by (rule acyclic_subset) blast
  moreover have "Domain (up ?h) \<subseteq> {..<length h}" unfolding up using f(1) by (auto simp: forest_def)
  moreover have "distinct (nd_children (?h ! a))" if "a < length h" for a
    using forestD(1) [OF f(1) that] assms(4) that by (simp add: cs)
  ultimately have "forest ?h" by (simp add: forest_def)
  moreover have "flags_sound ?h"
    unfolding flags_sound_def up
  proof (clarify)
    fix q a assume qa: "(q, a) \<in> up h" "marked Error contains_error (?h ! a)"
    then have b: "q < length h" "a < length h" using forestD(3) [OF f(1)] by blast+
    have "nd_flags (?h ! x) = nd_flags (h ! x) \<and> nd_type (?h ! x) = nd_type (h ! x)" if "x < length h" for x
      using assms(2) that by (simp add: nth_set_children nth_orphans [OF rs])
    with qa b f(2) show "contains_error (nd_flags (?h ! q))" by (auto simp: flags_sound_def marked_def)
  qed
  ultimately show ?thesis by (simp add: tree_ok_def)
qed

lemma erase_ok:
  assumes "tree_ok h" "this < length h" "i \<le> j"
  shows "tree_ok (snd (erase this i j h))"
proof -
  let ?cs = "nd_children (h ! this)"
  have d: "distinct ?cs" using assms(1,2) forestD(1) by (simp add: tree_ok_def)
  have e: "?cs = take i ?cs @ take (j - i) (drop i ?cs) @ drop j ?cs"
    using assms(3) by (metis append_take_drop_id drop_drop le_add_diff_inverse2)
  then have "distinct (take i ?cs @ take (j - i) (drop i ?cs) @ drop j ?cs)" using d by simp
  moreover have "set ?cs = set (take i ?cs) \<union> set (take (j - i) (drop i ?cs)) \<union> set (drop j ?cs)"
    by (subst e) (simp add: Un_assoc)
  ultimately have "distinct (take i ?cs @ drop j ?cs)"
    "set (take i ?cs @ drop j ?cs) = set ?cs - set (take (j - i) (drop i ?cs))" by auto
  from unlink_ok [OF assms(1,2) _ this] e show ?thesis
    by (simp add: erase_def orphans_def [symmetric] Let_def set_take_subset set_drop_subset subset_trans [OF set_take_subset])
qed

lemma pop_back_ok:
  assumes "tree_ok h" "this < length h"
  shows "tree_ok (snd (pop_back this h))"
proof (cases "nd_children (h ! this) = []")
  case True
  with assms show ?thesis by (simp add: pop_back_def)
next
  case False
  let ?cs = "nd_children (h ! this)" let ?n = "last ?cs"
  have f: "forest h" using assms(1) by (simp add: tree_ok_def)
  have "?n \<in> set ?cs" using False by simp
  then have n: "(this, ?n) \<in> up h" using forestD(2) [OF f assms(2)] by blast
  then have nn: "?n < length h" "?n \<noteq> this" "nd_parent (h ! ?n) = Some this"
    using forestD(3) [OF f n] forest_irrefl [OF f, of this] n by (simp, metis, simp add: up_def)
  have e: "?cs = butlast ?cs @ [?n]" using False by simp
  then have "distinct (butlast ?cs @ [?n])" using forestD(1) [OF f assms(2)] by simp
  moreover have "set ?cs = set (butlast ?cs) \<union> {?n}" by (subst e) simp
  ultimately have "distinct (butlast ?cs)" "set (butlast ?cs) = set ?cs - set [?n]" by auto
  from unlink_ok [OF assms _ this] \<open>?n \<in> set ?cs\<close> have "tree_ok (set_children this (butlast ?cs) (orphans this [?n] h))" by simp
  moreover have "set_children this (butlast ?cs) (orphans this [?n] h) = orphan this ?n (set_children this (butlast ?cs) h)"
    using nn assms(2) set_parent_children [OF nn(2,1) assms(2)] by (simp add: orphans_def orphan_def nth_set_children)
  ultimately show ?thesis using False by (simp add: pop_back_def Let_def)
qed

lemma set_children_again [simp]: "set_children a cs (set_children a cs' h) = set_children a cs h"
  by (cases "a < length h") (auto simp: set_children_def update_def list_update_beyond)

lemma find_child_nth:
  assumes "distinct (nd_children (h ! this))" "i < length (nd_children (h ! this))"
  shows "find_child this (nd_children (h ! this) ! i) h = i"
proof -
  let ?cs = "nd_children (h ! this)"
  have "takeWhile (\<lambda>c. c \<noteq> ?cs ! i) ?cs = take i ?cs"
    by (rule takeWhile_eq_take_P_nth) (use assms in \<open>auto simp: nth_eq_iff_index_eq\<close>)
  then show ?thesis using assms(2) by (simp add: find_child_def)
qed

lemma replace_at_ok:
  assumes "tree_ok h" "detached node this h" "i < length (nd_children (h ! this))"
  shows "\<exists>h'. replace_at this i (Some node) h = Inr h' \<and> tree_ok h' \<and>
    nd_children (h' ! this) = (nd_children (h ! this))[i := node] \<and> nd_parent (h' ! (nd_children (h ! this) ! i)) = None"
proof -
  let ?cs = "nd_children (h ! this)" let ?n = "?cs ! i" let ?new = "?cs[i := node]"
  have f: "forest h" "flags_sound h" using assms(1) by (simp_all add: tree_ok_def)
  have d: "node < length h" "this < length h" "nd_parent (h ! node) = None" "node \<noteq> this"
    using assms(2) by (auto simp: detached_def)
  have dc: "distinct ?cs" by (rule forestD(1) [OF f(1) d(2)])
  have n: "(this, ?n) \<in> up h" using forestD(2) [OF f(1) d(2), of ?n] nth_mem [OF assms(3)] by blast
  then have nn: "?n < length h" "nd_parent (h ! ?n) = Some this" "?n \<noteq> this"
    using forestD(3) [OF f(1) n] forest_irrefl [OF f(1), of this] n by (simp, simp add: up_def, metis)
  let ?h1 = "orphan this ?n h" let ?rest = "take i ?cs @ drop (i + 1) ?cs"
  have o1: "orphans this [?n] h = ?h1" by (simp add: orphans_def)
  have e: "?cs = take i ?cs @ ?n # drop (i + 1) ?cs" using id_take_nth_drop [OF assms(3)] by simp
  have "distinct (take i ?cs @ ?n # drop (i + 1) ?cs)" using dc e by simp
  moreover have sc: "set ?cs = insert ?n (set ?rest)" by (subst e) auto
  ultimately have r: "distinct ?rest" "set ?rest = set ?cs - set [?n]" by auto
  have t0: "tree_ok (set_children this ?rest ?h1)"
    using unlink_ok [OF assms(1) d(2) _ r] nth_mem [OF assms(3)] by (simp add: o1)
  from t0 have t: "forest (set_children this ?rest ?h1)" "flags_sound (set_children this ?rest ?h1)" by (simp_all add: tree_ok_def)
  have up1: "up ?h1 = up h - {this} \<times> {?n}" using up_orphans [of "[?n]" h this] nn by (simp add: o1)
  have det: "detached node this (set_children this ?rest ?h1)"
  proof -
    have "(node, this) \<notin> (up ?h1)\<^sup>*" using assms(2) rtrancl_mono [of "up ?h1" "up h"] by (auto simp: detached_def up1)
    moreover have "nd_parent (set_children this ?rest ?h1 ! node) = None"
      using d nn by (simp add: nth_set_children nth_orphan)
    ultimately show ?thesis using d by (simp add: detached_def)
  qed
  have "node \<notin> set ?cs" using detached_new [OF f(1) assms(2), of this] d by simp
  moreover have ne: "?new = take i ?cs @ node # drop (i + 1) ?cs" using assms(3) by (simp add: upd_conv_take_nth_drop)
  ultimately have new: "distinct ?new" "set ?new = insert node (set (nd_children (set_children this ?rest ?h1 ! this)))"
    using r sc d(2) by (auto simp: ne nth_set_children)
  have "tree_ok (set_children this ?new (adopt this node (set_children this ?rest ?h1)))"
    by (rule add_child_ok(2) [OF t0 det new])
  then have fo: "forest (set_children this ?new (adopt this node (set_children this ?rest ?h1)))" by (simp add: tree_ok_def)
  let ?r = "set_children this ?new (adopt this node ?h1)"
  have "map links ?r = map links (set_children this ?new (adopt this node (set_children this ?rest ?h1)))"
  proof -
    have "map links ?r = map links (set_children this ?new (set_parent node (Some this) ?h1))"
      by (rule links_set_children [OF adopt_links])
    also have "set_children this ?new (set_parent node (Some this) ?h1) =
        set_children this ?new (set_parent node (Some this) (set_children this ?rest ?h1))"
      using d by (simp add: set_parent_children)
    also have "map links \<dots> = map links (set_children this ?new (adopt this node (set_children this ?rest ?h1)))"
      by (rule links_set_children [OF adopt_links, symmetric])
    finally show ?thesis .
  qed
  from links_forest [OF this] fo have "forest ?r" by simp
  moreover have "flags_sound ?r"
  proof (rule sound_set_children)
    have "nd_flags (?h1 ! x) = nd_flags (h ! x) \<and> nd_type (?h1 ! x) = nd_type (h ! x)" for x
      using nn by (simp add: nth_orphan)
    then have fs: "flags_sound ?h1" using f(2) by (auto simp: flags_sound_def up1 marked_def)
    have pb: "parents_bounded ?h1" using forest_bounded [OF f(1)] by (auto simp: parents_bounded_def up1)
    show "flags_sound (adopt this node ?h1)"
      by (rule adopt_sound [OF fs pb]) (use det d nn in \<open>simp add: detached_def nth_set_children\<close>)
    show "\<forall>(q, a) \<in> up (adopt this node ?h1). q < length (adopt this node ?h1)"
      using forestD(3) [OF \<open>forest ?r\<close>] unfolding up_set_children length_set by blast
  qed
  moreover have "replace_at this i (Some node) h = Inr ?r"
    using assms(3) find_child_nth [OF dc assms(3)] by (simp add: replace_at_def replace_def Let_def)
  moreover have len: "length (adopt this node ?h1) = length h" using links_eqD(1) [OF adopt_links, of this node ?h1] by simp
  moreover have "nd_children (?r ! this) = ?new" using d len by (simp add: nth_set_children)
  moreover have "nd_parent (?r ! ?n) = None"
    using links_eqD(3) [OF adopt_links, of ?n node this ?h1] nn d len
    by (auto simp: nth_set_children nth_set_parent nth_orphan)
  ultimately show ?thesis by (simp add: tree_ok_def)
qed

subsection \<open>Properties\<close>


text \<open>Nodes 0 and 2 without a parent, where 1 is the child of 0 and is an error.\<close>

definition sample_ast :: ast where
  "sample_ast = push_back 0 (Some 1) (snd (create Error (snd (create Error (snd (create File []))))))"

lemma sample_ast_eval: "map links sample_ast = [(File, None, [1]), (Error, Some 0, []), (Error, None, [])]"
  "contains_error (nd_flags (sample_ast ! 0))" "length sample_ast = 3"
  by (simp_all add: sample_ast_def create_def create_at_def make_node_def push_back_def adopt_def add_flags_def set_up.simps
    set_parent_def set_children_def update_def links_def Let_def)

lemma sample_ast_up: "up sample_ast = {(0, 1)}"
proof -
  have "nd_parent (sample_ast ! a) = (if a = 1 then Some 0 else None)" if "a < 3" for a
    using arg_cong [OF sample_ast_eval(1), of "\<lambda>x. x ! a"] that sample_ast_eval(3)
    by (auto simp: links_def nth_Cons split: nat.splits)
  then show ?thesis using sample_ast_eval(3) by (auto simp: up_def split: if_splits)
qed

lemma sample_ast_ok: "tree_ok sample_ast"
proof -
  have c: "nd_children (sample_ast ! a) = (if a = 0 then [1] else [])" if "a < 3" for a
    using arg_cong [OF sample_ast_eval(1), of "\<lambda>x. x ! a"] that sample_ast_eval(3)
    by (auto simp: links_def nth_Cons split: nat.splits)
  have "acyclic ({} :: (nat \<times> nat) set)" by (simp add: acyclic_def)
  then have "acyclic {(0 :: nat, 1 :: nat)}" by simp
  then show ?thesis using c sample_ast_eval(2,3)
    by (auto simp: tree_ok_def forest_def flags_sound_def sample_ast_up)
qed


text \<open>A node that is removed by \<open>replace\<close> without a replacement keeps its pointer to the parent that
  no longer has it, unlike one that \<open>erase\<close>, \<open>pop_back\<close> or \<open>replace\<close> by another node takes out.\<close>

theorem replace_keeps_parent:
  assumes "forest h" "this < length h" "k < length (nd_children (h ! this))"
  shows "\<exists>h'. replace_at this k None h = Inr h' \<and> nd_children (h ! this) ! k \<notin> set (nd_children (h' ! this)) \<and>
    nd_parent (h' ! (nd_children (h ! this) ! k)) = Some this"
proof -
  let ?cs = "nd_children (h ! this)" let ?n = "?cs ! k"
  have d: "distinct ?cs" by (rule forestD(1) [OF assms(1,2)])
  have "(this, ?n) \<in> up h" using forestD(2) [OF assms(1,2), of ?n] nth_mem [OF assms(3)] by blast
  then have n: "nd_parent (h ! ?n) = Some this" by (simp add: up_def)
  have "?cs = take k ?cs @ ?n # drop (k + 1) ?cs" using id_take_nth_drop [OF assms(3)] by simp
  with d have "distinct (take k ?cs @ ?n # drop (k + 1) ?cs)" by simp
  then have "?n \<notin> set (take k ?cs @ drop (k + 1) ?cs)" by auto
  moreover have "replace_at this k None h = Inr (set_children this (take k ?cs @ drop (k + 1) ?cs) h)"
    using assms(3) find_child_nth [OF d assms(3)] by (simp add: replace_at_def replace_def Let_def)
  ultimately show ?thesis using n assms(2) by (auto simp: nth_set_children)
qed

text \<open>A node that contains an error and a lift, when it is added, does not mark its parent as containing
  a lift.\<close>

theorem error_hides_lift:
  assumes "tree_ok h" "detached node this h" "contains_error (nd_flags (h ! node))" "contains_lift (nd_flags (h ! node))"
  shows "contains_lift (nd_flags (push_back this (Some node) h ! this)) = contains_lift (nd_flags (h ! this))"
proof -
  have d: "node < length h" "this < length h" "node \<noteq> this" using assms(2) by (auto simp: detached_def)
  let ?h = "set_parent node (Some this) (set_children this (nd_children (h ! this) @ [node]) h)"
  have "contains_error (nd_flags (?h ! node))" using d assms(3) by (simp add: nth_set_parent nth_set_children)
  then have "push_back this (Some node) h = set_up contains_error set_contains_error (nd_parent (?h ! node)) ?h"
    by (simp add: push_back_def adopt_def add_flags_def Let_def)
  moreover have "contains_lift (nd_flags (?h ! this)) = contains_lift (nd_flags (h ! this))"
    using d by (simp add: nth_set_parent nth_set_children)
  ultimately show ?thesis
    using set_up_other [of contains_lift set_contains_error this ?h contains_error] d by simp
qed

text \<open>\<open>insert\<close> with a count and a token inserts one node as often as the count says.\<close>

theorem insert_tokens_shares:
  assumes "this < length h" "0 < count"
  shows "nd_children (snd (insert_tokens this i count t h) ! this) =
    take i (nd_children (h ! this)) @ replicate count (length h) @ drop i (nd_children (h ! this))"
proof -
  have "nd_children (foldl (\<lambda>h node. adopt this node h) h' (replicate n a) ! this) = nd_children (h' ! this) \<and>
      length (foldl (\<lambda>h node. adopt this node h) h' (replicate n a)) = length h'" if "this < length h'" for h' n and a :: nat
    using that links_eqD(1) [OF adopt_links] by (induction n arbitrary: h') (simp_all add: adopt_children)
  then show ?thesis using assms by (simp add: insert_tokens_def create_def create_at_def Let_def nth_set_children nth_append)
qed

end
