(* ===== verification/FastPattern.thy ===== *)
theory FastPattern
  imports Pattern AstForest
begin

text \<open>
  \<open>include/trieste/rewrite.h\<close>: \<open>FastPattern\<close>, the summary of a pattern by which a pass selects the rules it
  tries, and the operators by which patterns are made. A \<open>std::set\<close> of tokens is a list without
  repetitions; nothing depends on its order.

  The summary is sound for the patterns the operators make, with one exception: \<open>~\<close> and \<open>++\<close> of a pattern
  that may start with any token keep its set of parents.
\<close>

subsection \<open>Summaries\<close>

record fast_pattern =
  starts :: "token_def list"
  parents :: "token_def list"
  pass_through :: bool

definition any_first :: "fast_pattern \<Rightarrow> bool" where
  "any_first f \<longleftrightarrow> starts f = [] \<and> \<not> pass_through f"

definition match_any :: fast_pattern where
  "match_any = \<lparr>starts = [], parents = [], pass_through = False\<rparr>"

definition match_pred :: fast_pattern where
  "match_pred = \<lparr>starts = [], parents = [], pass_through = True\<rparr>"

definition match_token :: "token_def list \<Rightarrow> fast_pattern" where
  "match_token ts = \<lparr>starts = remdups ts, parents = [], pass_through = False\<rparr>"

definition match_parent :: "token_def list \<Rightarrow> fast_pattern" where
  "match_parent ts = \<lparr>starts = [], parents = remdups ts, pass_through = True\<rparr>"

definition match_choice :: "fast_pattern \<Rightarrow> fast_pattern \<Rightarrow> fast_pattern" where
  "match_choice lhs rhs =
     (let new_pass_through = (pass_through lhs \<or> pass_through rhs);
          (new_first, new_pass_through) =
            (if \<not> any_first rhs \<and> \<not> any_first lhs then (List.union (starts rhs) (starts lhs), new_pass_through)
             else ([], False));
          new_parent =
            (if parents rhs \<noteq> [] \<and> parents lhs \<noteq> [] then List.union (parents rhs) (parents lhs) else [])
      in \<lparr>starts = new_first, parents = new_parent, pass_through = new_pass_through\<rparr>)"

definition match_seq :: "fast_pattern \<Rightarrow> fast_pattern \<Rightarrow> fast_pattern" where
  "match_seq lhs rhs =
     (let (new_first, new_pass_through) =
            (if pass_through lhs then
               if any_first rhs then ([], False)
               else (List.union (starts rhs) (starts lhs), pass_through rhs)
             else (starts lhs, False));
          new_parent =
            (if parents lhs = [] then parents rhs
             else if parents rhs = [] then parents lhs
             else filter (\<lambda>t. t \<in> set (parents rhs)) (parents lhs))
      in \<lparr>starts = new_first, parents = new_parent, pass_through = new_pass_through\<rparr>)"

definition match_opt :: "fast_pattern \<Rightarrow> fast_pattern" where
  "match_opt f =
     (if any_first f then f else \<lparr>starts = starts f, parents = [], pass_through = True\<rparr>)"

subsection \<open>Operators\<close>

text \<open>The class \<open>Pattern\<close>: a pattern with its summary.\<close>

type_synonym summarised = "pattern list \<times> fast_pattern"

definition op_action :: "(ast \<Rightarrow> node_range \<Rightarrow> bool) \<Rightarrow> summarised \<Rightarrow> summarised" where
  "op_action action = (\<lambda>(p, f). ([Action action p], f))"

definition op_capture :: "token_def \<Rightarrow> summarised \<Rightarrow> summarised" where
  "op_capture name = (\<lambda>(p, f). ([CapP name p], f))"

definition op_opt :: "summarised \<Rightarrow> summarised" where
  "op_opt = (\<lambda>(p, f). ([OptP p], match_opt f))"

definition op_pred :: "summarised \<Rightarrow> pattern_error + summarised" where
  "op_pred = (\<lambda>(p, f). and_then (make_pred p) (\<lambda>q. Inr (q, match_pred)))"

definition op_neg_pred :: "summarised \<Rightarrow> pattern_error + summarised" where
  "op_neg_pred = (\<lambda>(p, f). and_then (make_neg_pred p) (\<lambda>q. Inr (q, match_pred)))"

definition op_rep :: "summarised \<Rightarrow> pattern_error + summarised" where
  "op_rep = (\<lambda>(p, f). and_then (custom_rep p) (\<lambda>r.
     (case r of
        Some q \<Rightarrow> Inr (q, match_any)
      | None \<Rightarrow> and_then (make_rep p) (\<lambda>q. Inr (q, match_opt f)))))"

definition op_not :: "summarised \<Rightarrow> pattern_error + summarised" where
  "op_not = (\<lambda>(p, f). and_then (make_not p) (\<lambda>q. Inr (q, match_any)))"

definition op_seq :: "summarised \<Rightarrow> summarised \<Rightarrow> pattern_error + summarised" where
  "op_seq = (\<lambda>(p, f) (q, g). and_then (set_continuation p q) (\<lambda>r. Inr (r, match_seq f g)))"

definition op_choice :: "summarised \<Rightarrow> summarised \<Rightarrow> pattern_error + summarised" where
  "op_choice = (\<lambda>(p, f) (q, g).
     if only_tokens p \<noteq> [] \<and> only_tokens q \<noteq> [] then Inr ([TokenMatch (only_tokens p @ only_tokens q)], match_choice f g)
     else if has_captures p then and_then (make_choice True p q) (\<lambda>r. Inr (r, match_choice f g))
     else and_then (make_choice False p q) (\<lambda>r. Inr (r, match_choice f g)))"

definition op_children :: "summarised \<Rightarrow> summarised \<Rightarrow> summarised" where
  "op_children = (\<lambda>(p, f) (q, g). ([Children p q], f))"

definition Any :: summarised where "Any = ([Anything], match_any)"
definition Start :: summarised where "Start = ([First], match_pred)"
definition End :: summarised where "End = ([Last], match_pred)"

definition T_tokens :: "token_def list \<Rightarrow> summarised" where
  "T_tokens ts = ([TokenMatch ts], match_token ts)"

definition T_regex :: "token_def \<Rightarrow> engine \<Rightarrow> summarised" where
  "T_regex t r = ([RegexMatchP t r], match_token [t])"

definition In_tokens :: "token_def list \<Rightarrow> summarised" where
  "In_tokens ts = ([Inside ts], match_parent ts)"

subsection \<open>Matching a chain\<close>

lemma then_match_simps [simp]:
  "then_match None f = None"
  "then_match (Some (Inl e)) f = Some (Inl e)"
  "then_match (returned b it m) f = f b it m"
  "then_match (Some (Inr (b, it, m))) f = f b it m"
  by (simp_all add: then_match_def returned_def)

lemma then_match_assoc: "then_match (then_match r f) g = then_match r (\<lambda>b it m. then_match (f b it m) g)"
  by (auto simp: then_match_def split: option.splits sum.splits)

lemma then_match_cong:
  "(\<And>b it m. f b it m = g b it m) \<Longrightarrow> then_match r f = then_match r g"
  by (auto simp: then_match_def split: option.splits sum.splits)

lemma then_match_if [simp]: "then_match (if c then x else y) f = (if c then then_match x f else then_match y f)"
  by simp

text \<open>A match that succeeds.\<close>

lemma then_matchE:
  assumes "then_match r f = Some (Inr x)"
  obtains b it m where "r = Some (Inr (b, it, m))" "f b it m = Some (Inr x)"
  using assms by (auto simp: then_match_def split: option.splits sum.splits)

lemma returned_eq [simp]: "returned b it m = Some (Inr (b', it', m')) \<longleftrightarrow> b = b' \<and> it = it' \<and> m = m'"
  by (simp add: returned_def)

definition and_match :: "match_result \<Rightarrow> (nat \<Rightarrow> match_def \<Rightarrow> match_result) \<Rightarrow> match_result" where
  "and_match r f = then_match r (\<lambda>b it m. if b then f it m else returned False it m)"

lemma pmatch_cons:
  assumes "a \<noteq> Last"
  shows "pmatch (a # k) h it parent m = and_match (pmatch [a] h it parent m) (\<lambda>it m. pmatch k h it parent m)"
  using assms
  by (cases a) (auto simp: and_match_def then_match_assoc Let_def split: prod.split sum.split intro!: then_match_cong)

lemma pmatch_append:
  "Last \<notin> set p \<Longrightarrow> pmatch (p @ k) h it parent m = and_match (pmatch p h it parent m) (\<lambda>it m. pmatch k h it parent m)"
proof (induction p arbitrary: it m)
  case Nil
  then show ?case by (simp add: and_match_def)
next
  case (Cons a p)
  have a: "a \<noteq> Last" using Cons.prems by auto
  have "Last \<notin> set p" using Cons.prems by simp
  note IH = Cons.IH [OF this]
  show ?case
    unfolding append_Cons pmatch_cons [OF a, of "p @ k"] pmatch_cons [OF a, of p]
    by (simp add: and_match_def then_match_assoc) (auto simp: IH and_match_def intro!: then_match_cong)
qed

subsection \<open>Soundness of the summaries\<close>

definition child_type :: "ast \<Rightarrow> nat \<Rightarrow> nat \<Rightarrow> token_def" where
  "child_type h parent it = nd_type (h ! (nd_children (h ! parent) ! it))"

text \<open>What a match from \<open>it\<close> to \<open>it'\<close> shows of a summary: the parent is one of the parents, and if not every token may start,
  either nothing was consumed or the first token is one of the starts.\<close>

definition starts_well :: "fast_pattern \<Rightarrow> ast \<Rightarrow> nat \<Rightarrow> nat \<Rightarrow> nat \<Rightarrow> bool" where
  "starts_well f h parent it it' \<longleftrightarrow>
     any_first f \<or> it' = it \<and> pass_through f \<or>
     it < length (nd_children (h ! parent)) \<and> child_type h parent it \<in> set (starts f)"

definition parent_well :: "fast_pattern \<Rightarrow> ast \<Rightarrow> nat \<Rightarrow> bool" where
  "parent_well f h parent \<longleftrightarrow> parents f = [] \<or> nd_type (h ! parent) \<in> set (parents f)"

definition fast_sound :: "summarised \<Rightarrow> bool" where
  "fast_sound P \<longleftrightarrow> (\<forall>h it parent m it' m'. it \<le> length (nd_children (h ! parent)) \<longrightarrow>
     pmatch (fst P) h it parent m = Some (Inr (True, it', m')) \<longrightarrow>
     it' \<le> length (nd_children (h ! parent)) \<and> starts_well (snd P) h parent it it' \<and> parent_well (snd P) h parent)"

text \<open>\<open>End\<close> has no continuation.\<close>

definition end_last :: "pattern list \<Rightarrow> bool" where
  "end_last p \<longleftrightarrow> p \<noteq> [] \<and> Last \<notin> set (butlast p)"

lemma fast_soundI:
  "(\<And>h it parent m it' m'. it \<le> length (nd_children (h ! parent)) \<Longrightarrow>
     pmatch p h it parent m = Some (Inr (True, it', m')) \<Longrightarrow>
     it' \<le> length (nd_children (h ! parent)) \<and> starts_well f h parent it it' \<and> parent_well f h parent) \<Longrightarrow> fast_sound (p, f)"
  by (auto simp: fast_sound_def)

lemma fast_soundD:
  assumes "fast_sound (p, f)" "pmatch p h it parent m = Some (Inr (True, it', m'))" "it \<le> length (nd_children (h ! parent))"
  shows "it' \<le> length (nd_children (h ! parent))" "starts_well f h parent it it'" "parent_well f h parent"
  using assms unfolding fast_sound_def fst_conv snd_conv by blast+

text \<open>The patterns that consume the node under the iterator.\<close>

lemma sound_token: "ts \<noteq> [] \<Longrightarrow> fast_sound (T_tokens ts)"
  by (auto simp: T_tokens_def match_token_def starts_well_def parent_well_def child_type_def list_ex_iff
      intro!: fast_soundI split: if_splits)

lemma sound_regex: "fast_sound (T_regex t r)"
  by (auto simp: T_regex_def match_token_def starts_well_def parent_well_def child_type_def
      intro!: fast_soundI split: if_splits sum.splits)

lemma sound_any: "fast_sound Any"
  by (auto simp: Any_def match_any_def starts_well_def any_first_def parent_well_def intro!: fast_soundI split: if_splits)

lemma sound_inside: "fast_sound (In_tokens ts)"
  by (auto simp: In_tokens_def match_parent_def starts_well_def parent_well_def list_ex_iff intro!: fast_soundI split: if_splits)

lemma sound_start_end: "fast_sound Start" "fast_sound End"
  by (auto simp: Start_def End_def match_pred_def starts_well_def parent_well_def intro!: fast_soundI split: if_splits)

text \<open>The patterns around one pattern.\<close>

lemma sound_wrap:
  assumes "fast_sound (p, f)"
    and "\<And>h it parent m it' m'. pmatch [a] h it parent m = Some (Inr (True, it', m')) \<Longrightarrow>
      \<exists>m'. pmatch p h it parent m = Some (Inr (True, it', m'))"
  shows "fast_sound ([a], f)"
proof (rule fast_soundI)
  fix h it parent m it' m'
  assume it: "it \<le> length (nd_children (h ! parent))" and "pmatch [a] h it parent m = Some (Inr (True, it', m'))"
  from assms(2) [OF this(2)] obtain m'' where "pmatch p h it parent m = Some (Inr (True, it', m''))" by blast
  from fast_soundD [OF assms(1) this it] show "it' \<le> length (nd_children (h ! parent)) \<and> starts_well f h parent it it' \<and>
      parent_well f h parent" by simp
qed

lemma then_match_trueE:
  assumes "then_match r (\<lambda>b it m. if \<not> b then returned False it m else g it m) = Some (Inr (True, it', m'))"
  obtains it m where "r = Some (Inr (True, it, m))" "g it m = Some (Inr (True, it', m'))"
  using assms by (auto elim!: then_matchE split: if_splits)

lemma sound_action: "fast_sound P \<Longrightarrow> fast_sound (op_action action P)"
  by (cases P) (auto simp: op_action_def elim!: then_match_trueE split: if_splits intro!: sound_wrap)

lemma sound_capture: "fast_sound P \<Longrightarrow> fast_sound (op_capture name P)"
  by (cases P) (auto simp: op_capture_def elim!: then_match_trueE split: if_splits intro!: sound_wrap)

lemma sound_children: "fast_sound P \<Longrightarrow> fast_sound (op_children P Q)"
  by (cases P; cases Q) (fastforce simp: op_children_def elim!: then_match_trueE elim: then_matchE split: if_splits intro!: sound_wrap)

lemma sound_opt:
  assumes "fast_sound P" "any_first (snd P) \<Longrightarrow> parents (snd P) = []"
  shows "fast_sound (op_opt P)"
proof (cases P)
  case [simp]: (Pair p f)
  have "it' \<le> length (nd_children (h ! parent)) \<and> starts_well (match_opt f) h parent it it' \<and> parent_well (match_opt f) h parent"
    if it: "it \<le> length (nd_children (h ! parent))" and m: "pmatch [OptP p] h it parent m = Some (Inr (True, it', m'))"
    for h it parent m it' m'
  proof -
    from m obtain b it1 m1 m2 where "pmatch p h it parent m2 = Some (Inr (b, it1, m1))" "it' = (if b then it1 else it)"
      by (auto elim!: then_matchE split: prod.splits if_splits)
    then show ?thesis using fast_soundD [of p f h it parent m2 it1 m1] assms it
      by (auto simp: match_opt_def starts_well_def parent_well_def any_first_def split: if_splits)
  qed
  then show ?thesis by (auto simp: op_opt_def intro: fast_soundI)
qed

lemma rep_loop_induct [consumes 1, case_names stop error again last]:
  assumes "rep_loop step stop it m = Some r"
    and "\<And>m. P stop m (Inr (True, stop, m))"
    and "\<And>it m e. it \<noteq> stop \<Longrightarrow> step it m = Some (Inl e) \<Longrightarrow> P it m (Inl e)"
    and "\<And>it m it' m' r. it \<noteq> stop \<Longrightarrow> step it m = Some (Inr (True, it', m')) \<Longrightarrow> P it' m' r \<Longrightarrow> P it m r"
    and "\<And>it m it' m'. it \<noteq> stop \<Longrightarrow> step it m = Some (Inr (False, it', m')) \<Longrightarrow> P it m (Inr (True, it, m'))"
  shows "P it m r"
proof -
  have "step = step \<longrightarrow> stop = stop \<longrightarrow> P it m r"
  proof (rule rep_loop.raw_induct [where P = "\<lambda>s st it m r. s = step \<longrightarrow> st = stop \<longrightarrow> P it m r", OF _ assms(1)], intro impI)
    fix loop s st it m r
    assume IH: "\<And>s st it m r. loop s st it m = Some r \<Longrightarrow> s = step \<longrightarrow> st = stop \<longrightarrow> P it m r"
      and body: "(if it = st then Some (Inr (True, it, m))
        else Option.bind (s it m) (\<lambda>x. case x of Inl e \<Rightarrow> Some (Inl e) | Inr (b, it', m') \<Rightarrow>
          if b then loop s st it' m' else Some (Inr (True, it, m')))) = Some r"
      and eq: "s = step" "st = stop"
    show "P it m r"
    proof (cases "it = stop")
      case True
      with body eq assms(2) show ?thesis by auto
    next
      case False
      with body eq obtain x where x: "step it m = Some x"
        "(case x of Inl e \<Rightarrow> Some (Inl e) | Inr (b, it', m') \<Rightarrow> if b then loop step stop it' m' else Some (Inr (True, it, m'))) = Some r"
        by (auto split: Option.bind_splits)
      show ?thesis
      proof (cases x)
        case (Inl e)
        with x assms(3) [OF False] show ?thesis by auto
      next
        case (Inr y)
        obtain b it1 m1 where y: "y = (b, it1, m1)" by (cases y)
        show ?thesis
        proof (cases b)
          case True
          with x Inr y have l: "loop step stop it1 m1 = Some r" "step it m = Some (Inr (True, it1, m1))" by simp_all
          from assms(4) [OF False l(2)] IH [OF l(1)] show ?thesis by simp
        next
          case bf: False
          with x Inr y assms(5) [OF False] show ?thesis by auto
        qed
      qed
    qed
  qed
  then show ?thesis by simp
qed

lemma rep_loop_sound:
  assumes "rep_loop step stop it m = Some r" "it \<le> stop"
    and "\<And>it m it' m'. step it m = Some (Inr (True, it', m')) \<Longrightarrow> it \<le> stop \<Longrightarrow> it' \<le> stop \<and> (it' = it \<or> Q it)"
  shows "r = Inr (b, it', m') \<Longrightarrow> it' \<le> stop \<and> (it' = it \<or> Q it)"
  using assms(1,2)
proof (induction rule: rep_loop_induct)
  case (again it m it1 m1 r)
  with assms(3) [of it m it1 m1] show ?case by auto
qed auto

lemma sound_rep:
  assumes "fast_sound P" "any_first (snd P) \<Longrightarrow> parents (snd P) = []" "op_rep P = Inr Q"
  shows "fast_sound Q"
proof (cases P)
  case P: (Pair p f)
  obtain r where r: "custom_rep p = Inr r" using assms(3) P by (auto simp: op_rep_def and_then_def split: sum.splits)
  show ?thesis
  proof (cases r)
    case None
    then have Q: "Q = ([Rep p], match_opt f)"
      using assms(3) P r by (auto simp: op_rep_def make_rep_def split: if_splits)
    show ?thesis unfolding Q
    proof (rule fast_soundI)
      fix h :: ast and it parent m it' m'
      let ?stop = "length (nd_children (h ! parent))"
      assume it: "it \<le> ?stop" and "pmatch [Rep p] h it parent m = Some (Inr (True, it', m'))"
      then obtain b m1 where l: "rep_loop (\<lambda>it m. pmatch p h it parent m) ?stop it m = Some (Inr (b, it', m1))"
        by (auto elim!: then_matchE)
      have "it' \<le> ?stop \<and> (it' = it \<or> any_first f \<or> it < ?stop \<and> child_type h parent it \<in> set (starts f))"
      proof (rule rep_loop_sound [OF l it _ refl])
        fix it m it' m'
        assume "pmatch p h it parent m = Some (Inr (True, it', m'))" "it \<le> ?stop"
        with fast_soundD [of p f h it parent m it' m'] assms(1) P
        show "it' \<le> ?stop \<and> (it' = it \<or> any_first f \<or> it < ?stop \<and> child_type h parent it \<in> set (starts f))"
          by (auto simp: starts_well_def)
      qed
      then show "it' \<le> ?stop \<and> starts_well (match_opt f) h parent it it' \<and> parent_well (match_opt f) h parent"
        using assms(2) P by (auto simp: match_opt_def starts_well_def parent_well_def any_first_def)
    qed
  next
    case (Some q)
    then have Q: "Q = (q, match_any)" using assms(3) P r by (simp add: op_rep_def)
    have "q = p \<or> (\<exists>ts. q = [InsideStar ts])"
      using r Some by (auto simp: custom_rep_def split: list.splits pattern.splits)
    then show ?thesis
    proof (elim disjE exE)
      assume "q = p"
      with assms(1) P show ?thesis unfolding Q
        by (auto simp: fast_sound_def match_any_def starts_well_def any_first_def parent_well_def)
    next
      fix ts
      assume "q = [InsideStar ts]"
      then show ?thesis unfolding Q
        by (auto simp: match_any_def starts_well_def any_first_def parent_well_def intro!: fast_soundI split: if_splits)
    qed
  qed
qed


lemma sound_pred:
  "op_pred P = Inr Q \<Longrightarrow> fast_sound Q" "op_neg_pred P = Inr Q \<Longrightarrow> fast_sound Q" "op_not P = Inr Q \<Longrightarrow> fast_sound Q"
  by (cases P; auto simp: op_pred_def op_neg_pred_def op_not_def make_pred_def make_neg_pred_def make_not_def match_pred_def match_any_def
      starts_well_def any_first_def parent_well_def intro!: fast_soundI elim!: then_matchE split: if_splits)+

lemma sound_seq:
  assumes "fast_sound P" "fast_sound Q" "end_last (fst P)" "op_seq P Q = Inr R"
  shows "fast_sound R"
proof -
  obtain p f q g where P: "P = (p, f)" "Q = (q, g)" by (cases P; cases Q)
  have R: "R = (p @ q, match_seq f g)" "last p \<noteq> Last"
    using assms(3,4) P by (auto simp: op_seq_def set_continuation_def end_last_def split: if_splits)
  have "p = butlast p @ [last p]" using assms(3) P by (simp add: end_last_def)
  then have nl: "Last \<notin> set p" using assms(3) R(2) P by (metis Un_iff end_last_def fst_conv empty_iff insert_iff list.set set_append)
  show ?thesis unfolding R(1)
  proof (rule fast_soundI)
    fix h :: ast and it parent m it' m'
    assume it: "it \<le> length (nd_children (h ! parent))" and "pmatch (p @ q) h it parent m = Some (Inr (True, it', m'))"
    then obtain it1 m1 where m: "pmatch p h it parent m = Some (Inr (True, it1, m1))" "pmatch q h it1 parent m1 = Some (Inr (True, it', m'))"
      unfolding pmatch_append [OF nl] and_match_def by (auto elim!: then_matchE split: if_splits)
    note a = fast_soundD [OF assms(1) [unfolded P] m(1) it]
    note b = fast_soundD [OF assms(2) [unfolded P] m(2) a(1)]
    have "starts_well (match_seq f g) h parent it it'"
      using a(2) b(2) by (auto simp: starts_well_def match_seq_def any_first_def)
    moreover have "parent_well (match_seq f g) h parent" using a(3) b(3) by (auto simp: parent_well_def match_seq_def)
    ultimately show "it' \<le> length (nd_children (h ! parent)) \<and> starts_well (match_seq f g) h parent it it' \<and>
      parent_well (match_seq f g) h parent" using b(1) by simp
  qed
qed

lemma starts_well_choice:
  "starts_well f h parent it it' \<or> starts_well g h parent it it' \<Longrightarrow> starts_well (match_choice f g) h parent it it'"
  by (auto simp: starts_well_def match_choice_def any_first_def)

lemma parent_well_choice: "parent_well f h parent \<or> parent_well g h parent \<Longrightarrow> parent_well (match_choice f g) h parent"
  by (auto simp: parent_well_def match_choice_def)

lemma sound_choice:
  assumes "fast_sound P" "fast_sound Q" "op_choice P Q = Inr R"
  shows "fast_sound R"
proof -
  obtain p f q g where P: "P = (p, f)" "Q = (q, g)" by (cases P; cases Q)
  obtain r where R: "R = (r, match_choice f g)"
    using assms(3) P by (auto simp: op_choice_def make_choice_def split: if_splits)
  have "\<exists>m m'. pmatch p h it parent m = Some (Inr (True, it', m')) \<or> pmatch q h it parent m = Some (Inr (True, it', m'))"
    if "pmatch r h it parent m = Some (Inr (True, it', m'))" for h :: ast and it parent m it' m'
  proof (cases "only_tokens p \<noteq> [] \<and> only_tokens q \<noteq> []")
    case True
    then obtain ts us where "p = [TokenMatch ts]" "q = [TokenMatch us]"
      by (auto simp: only_tokens_def split: list.splits pattern.splits)
    moreover have "r = [TokenMatch (only_tokens p @ only_tokens q)]" using assms(3) P True R by (simp add: op_choice_def)
    ultimately show ?thesis using that by (auto simp: only_tokens_def split: if_splits)
  next
    case False
    then obtain cl where "r = [Choice cl p q]"
      using assms(3) P R by (auto simp: op_choice_def make_choice_def split: if_splits)
    then show ?thesis using that by (auto elim!: then_matchE split: prod.splits if_splits simp: Let_def; blast)
  qed
  then show ?thesis unfolding R
    using fast_soundD [OF assms(1) [unfolded P]] fast_soundD [OF assms(2) [unfolded P]]
    by (intro fast_soundI) (metis starts_well_choice parent_well_choice)
qed


subsection \<open>Patterns made by the operators\<close>

text \<open>The patterns made by the operators, except those where \<open>~\<close> or \<open>++\<close>, which \<open>rewrite.h\<close> allows for every
  pattern, is applied to one that may start with any token and is bound to parents: their summary is wrong
  (\<open>opt_keeps_parents\<close>).\<close>

definition no_bound_any :: "summarised \<Rightarrow> bool" where
  "no_bound_any P \<longleftrightarrow> (any_first (snd P) \<longrightarrow> parents (snd P) = [])"

inductive made :: "summarised \<Rightarrow> bool" where
  made_any: "made Any"
| made_start: "made Start"
| made_end: "made End"
| made_tokens: "ts \<noteq> [] \<Longrightarrow> made (T_tokens ts)"
| made_regex: "made (T_regex t r)"
| made_inside: "made (In_tokens ts)"
| made_action: "made P \<Longrightarrow> made (op_action a P)"
| made_capture: "made P \<Longrightarrow> made (op_capture name P)"
| made_children: "made P \<Longrightarrow> made Q \<Longrightarrow> made (op_children P Q)"
| made_opt: "made P \<Longrightarrow> no_bound_any P \<Longrightarrow> made (op_opt P)"
| made_rep: "made P \<Longrightarrow> no_bound_any P \<Longrightarrow> op_rep P = Inr Q \<Longrightarrow> made Q"
| made_pred: "made P \<Longrightarrow> op_pred P = Inr Q \<Longrightarrow> made Q"
| made_neg_pred: "made P \<Longrightarrow> op_neg_pred P = Inr Q \<Longrightarrow> made Q"
| made_not: "made P \<Longrightarrow> op_not P = Inr Q \<Longrightarrow> made Q"
| made_seq: "made P \<Longrightarrow> made Q \<Longrightarrow> op_seq P Q = Inr R \<Longrightarrow> made R"
| made_choice: "made P \<Longrightarrow> made Q \<Longrightarrow> op_choice P Q = Inr R \<Longrightarrow> made R"

lemma end_last_one [simp]: "end_last [a]"
  by (simp add: end_last_def)

lemma end_last_append:
  assumes "end_last p" "last p \<noteq> Last" "end_last q"
  shows "end_last (p @ q)"
proof -
  have "set p = insert (last p) (set (butlast p))"
    using assms(1) by (metis append_butlast_last_id end_last_def list.simps(15) rotate1.simps(2) set_rotate1)
  with assms show ?thesis by (auto simp: end_last_def butlast_append)
qed

lemma op_rep_end_last:
  assumes "op_rep P = Inr Q" "end_last (fst P)"
  shows "end_last (fst Q)"
proof (cases P)
  case (Pair p f)
  with assms(1) obtain r where r: "custom_rep p = Inr r" by (auto simp: op_rep_def and_then_def split: sum.splits)
  show ?thesis
  proof (cases r)
    case None
    with assms(1) Pair r show ?thesis by (auto simp: op_rep_def make_rep_def split: if_splits)
  next
    case (Some q)
    then have "q = p \<or> (\<exists>ts. q = [InsideStar ts])"
      using r by (auto simp: custom_rep_def split: list.splits pattern.splits)
    with assms Pair r Some show ?thesis by (auto simp: op_rep_def)
  qed
qed

lemma op_seq_end_last:
  assumes "op_seq P Q = Inr R" "end_last (fst P)" "end_last (fst Q)"
  shows "end_last (fst R)"
proof -
  have "last (fst P) \<noteq> Last" "fst R = fst P @ fst Q"
    using assms(1,2) by (auto simp: op_seq_def set_continuation_def end_last_def split: if_splits prod.splits)
  with end_last_append assms(2,3) show ?thesis by simp
qed

lemma op_single:
  "op_pred P = Inr Q \<Longrightarrow> \<exists>a. fst Q = [a]" "op_neg_pred P = Inr Q \<Longrightarrow> \<exists>a. fst Q = [a]" "op_not P = Inr Q \<Longrightarrow> \<exists>a. fst Q = [a]"
  "op_choice P P' = Inr Q \<Longrightarrow> \<exists>a. fst Q = [a]"
  by (cases P; cases P'; auto simp: op_pred_def op_neg_pred_def op_not_def make_pred_def make_neg_pred_def make_not_def
      op_choice_def make_choice_def split: if_splits)+

lemma made_end_last: "made P \<Longrightarrow> end_last (fst P)"
proof (induction rule: made.induct)
  case (made_rep P Q)
  then show ?case using op_rep_end_last by blast
next
  case (made_seq P Q R)
  then show ?case using op_seq_end_last by blast
next
  case (made_choice P Q R)
  from op_single(4) [OF made_choice(3)] show ?case by auto
next
  case (made_pred P Q)
  from op_single(1) [OF made_pred(2)] show ?case by auto
next
  case (made_neg_pred P Q)
  from op_single(2) [OF made_neg_pred(2)] show ?case by auto
next
  case (made_not P Q)
  from op_single(3) [OF made_not(2)] show ?case by auto
qed (simp_all add: Any_def Start_def End_def T_tokens_def T_regex_def In_tokens_def op_action_def op_capture_def op_children_def op_opt_def
    split: prod.split)

lemma made_sound: "made P \<Longrightarrow> fast_sound P"
proof (induction rule: made.induct)
  case (made_opt P)
  then show ?case using sound_opt by (simp add: no_bound_any_def)
next
  case (made_rep P Q)
  then show ?case using sound_rep by (simp add: no_bound_any_def)
next
  case (made_seq P Q R)
  then show ?case using sound_seq made_end_last by blast
next
  case (made_pred P Q)
  from sound_pred(1) [OF made_pred(2)] show ?case .
next
  case (made_neg_pred P Q)
  from sound_pred(2) [OF made_neg_pred(2)] show ?case .
next
  case (made_not P Q)
  from sound_pred(3) [OF made_not(2)] show ?case .
next
  case (made_choice P Q R)
  from sound_choice [OF made_choice(4,5,3)] show ?case .
qed (assumption | rule sound_any sound_start_end sound_token sound_regex sound_inside sound_action sound_capture sound_children)+

subsection \<open>Properties\<close>

text \<open>C30: where a pattern made by the operators matches, the parent is one of the parents of its
  summary, and the node under the iterator is one of its starts, unless the summary leaves them open. So
  a pass that looks only at the rules whose summaries allow the parent and the node misses no match. Left out are
  patterns where \<open>~\<close> or \<open>++\<close> is applied to one that may start with any token and is bound to parents, for which
  this is false (\<open>opt_keeps_parents\<close>).\<close>

theorem fast_pattern_sound:
  assumes "made (p, f)" "pmatch p h it parent m = Some (Inr (True, it', m'))" "it < length (nd_children (h ! parent))"
  shows "(parents f = [] \<or> nd_type (h ! parent) \<in> set (parents f)) \<and>
    (starts f = [] \<or> pass_through f \<or> nd_type (h ! (nd_children (h ! parent) ! it)) \<in> set (starts f)) \<and>
    it' \<le> length (nd_children (h ! parent))"
  using fast_soundD [OF made_sound [OF assms(1)] assms(2)] assms(3)
  by (auto simp: starts_well_def parent_well_def any_first_def child_type_def)

theorem fast_pattern_sound_witness:
  "pmatch (fst (T_tokens [Error])) sample_ast 0 0 make_match = Some (Inr (True, 1, make_match)) \<and>
    nd_type (sample_ast ! (nd_children (sample_ast ! 0) ! 0)) \<in> set (starts (snd (T_tokens [Error])))"
proof -
  have c: "nd_children (sample_ast ! 0) = [1]" "nd_type (sample_ast ! 1) = Error"
    using arg_cong [OF sample_ast_eval(1), of "\<lambda>x. x ! 0"] arg_cong [OF sample_ast_eval(1), of "\<lambda>x. x ! 1"] sample_ast_eval(3)
    by (simp_all add: links_def)
  then have m: "pmatch (fst (T_tokens [Error])) sample_ast 0 0 make_match = Some (Inr (True, 1, make_match))"
    by (simp add: T_tokens_def returned_def)
  have "made (fst (T_tokens [Error]), snd (T_tokens [Error]))" by (simp add: made_tokens)
  from fast_pattern_sound [OF this m] c show ?thesis by (simp add: m) (simp add: T_tokens_def match_token_def)
qed

text \<open>\<open>~(In(File) * Any) * T(Error)\<close> has the summary that its parent is a file, but it matches an error
  below any node.\<close>

theorem opt_keeps_parents:
  assumes "nd_type (h ! parent) \<noteq> File" "nd_children (h ! parent) = [a]" "nd_type (h ! a) = Error"
  shows "\<exists>p q f. op_seq (In_tokens [File]) Any = Inr p \<and> op_seq (op_opt p) (T_tokens [Error]) = Inr (q, f) \<and>
    parents f = [File] \<and> (\<exists>m'. pmatch q h 0 parent m = Some (Inr (True, 1, m')))"
proof -
  have d: "File \<noteq> Error" by code_simp
  let ?p = "([Inside [File], Anything], match_seq (match_parent [File]) match_any)"
  have p: "op_seq (In_tokens [File]) Any = Inr ?p"
    by (simp add: op_seq_def In_tokens_def Any_def set_continuation_def)
  have q: "op_seq (op_opt ?p) (T_tokens [Error]) = Inr ([OptP [Inside [File], Anything], TokenMatch [Error]],
      match_seq (match_opt (snd ?p)) (match_token [Error]))"
    by (simp add: op_seq_def op_opt_def T_tokens_def set_continuation_def)
  have f: "parents (match_seq (match_opt (snd ?p)) (match_token [Error])) = [File]"
    by (simp add: match_seq_def match_opt_def match_parent_def match_any_def match_token_def any_first_def)
  have "\<exists>m'. pmatch [OptP [Inside [File], Anything], TokenMatch [Error]] h 0 parent m = Some (Inr (True, 1, m'))"
    using assms by (simp split: prod.split)
  with p q f show ?thesis by blast
qed

end
