(* ===== verification/PassDef.thy ===== *)
theory PassDef
  imports FastPattern
begin

text \<open>
  \<open>include/trieste/pass.h\<close>: a pass, its table of rules, and the loop that rewrites a tree with them.

  The effect of a rule and the functions of \<open>pre\<close>, \<open>post\<close> and \<open>cond\<close> are given by the user of the library; they
  are arguments here, functions on the tree that may throw. A result is \<open>None\<close> where a loop of the code
  does not end, as rewriting need not, and \<open>Inl\<close> an exception. The numbers of changes that the hooks return are
  added as \<open>size_t\<close>, modulo \<open>2 ^ 64\<close>; the number of rules applied at one level is counted one by one and does not
  get there.
\<close>

subsection \<open>Results\<close>

type_synonym 'a outcome = "(ast_error + 'a) option"

definition run_bind :: "'a outcome \<Rightarrow> ('a \<Rightarrow> 'b outcome) \<Rightarrow> 'b outcome" where
  "run_bind r f = Option.bind r (\<lambda>x. case x of Inl e \<Rightarrow> Some (Inl e) | Inr y \<Rightarrow> f y)"

definition run_return :: "'a \<Rightarrow> 'a outcome" where
  "run_return x = Some (Inr x)"

lemma run_bind_simps [simp]:
  "run_bind None f = None" "run_bind (Some (Inl e)) f = Some (Inl e)" "run_bind (Some (Inr x)) f = f x"
  "run_bind (run_return x) f = f x"
  by (simp_all add: run_bind_def run_return_def)

lemma run_bindE:
  assumes "run_bind r f = Some (Inr y)"
  obtains x where "r = Some (Inr x)" "f x = Some (Inr y)"
  using assms by (auto simp: run_bind_def split: Option.bind_splits sum.splits)

lemma run_return_eq [simp]: "run_return x = Some (Inr y) \<longleftrightarrow> x = y"
  by (simp add: run_return_def)

lemma run_bind_mono [partial_function_mono]:
  assumes "mono_option B" "\<And>y. mono_option (C y)"
  shows "mono_option (\<lambda>f. run_bind (B f) (\<lambda>y. C y f))"
proof -
  have "mono_option (\<lambda>f. case x of Inl e \<Rightarrow> Some (Inl e) | Inr y \<Rightarrow> C y f)" for x
    using assms(2) by (cases x) (auto simp: monotone_def flat_ord_def fun_ord_def)
  then show ?thesis unfolding run_bind_def by (intro bind_mono assms(1))
qed

subsection \<open>Passes\<close>

type_synonym effect = "match_def \<Rightarrow> ast \<Rightarrow> ast_error + ast \<times> nat option"
type_synonym rule = "summarised \<times> effect"
type_synonym hook = "nat \<Rightarrow> ast \<Rightarrow> ast_error + ast \<times> nat"
type_synonym rule_table = "rule list default_map default_map"

definition dir_bottomup :: u32 where "dir_bottomup = push_bit 0 1"
definition dir_topdown :: u32 where "dir_topdown = push_bit 1 1"
definition dir_once :: u32 where "dir_once = push_bit 2 1"

record pass_def =
  pd_direction :: u32
  pd_rules :: "rule list"
  pd_rule_map :: rule_table
  pd_pre_once :: "hook option"
  pd_post_once :: "hook option"
  pd_cond_run :: "(nat \<Rightarrow> ast \<Rightarrow> bool) option"
  pd_pre :: "token_def \<rightharpoonup> hook"
  pd_post :: "token_def \<rightharpoonup> hook"

definition has_flag :: "pass_def \<Rightarrow> u32 \<Rightarrow> bool" where
  "has_flag p f \<longleftrightarrow> pd_direction p AND f \<noteq> 0"

subsection \<open>The table of rules\<close>

definition push_rule :: "rule \<Rightarrow> rule list \<Rightarrow> rule list" where
  "push_rule r v = v @ [r]"

definition add_rule :: "rule \<Rightarrow> rule list default_map \<Rightarrow> rule list default_map" where
  "add_rule r rules =
     (let f = snd (fst r)
      in if starts f = [] \<or> pass_through f then modify_all (push_rule r) rules
         else foldl (\<lambda>rules start. modify start (push_rule r) rules) rules (starts f))"

definition add_to_table :: "rule_table \<Rightarrow> rule \<Rightarrow> rule_table" where
  "add_to_table rule_map r =
     (let f = snd (fst r)
      in if parents f = [] then modify_all (add_rule r) rule_map
         else foldl (\<lambda>rule_map parent. modify parent (add_rule r) rule_map) rule_map (parents f))"

definition clear_table :: "rule_table \<Rightarrow> rule_table" where
  "clear_table = clear (clear (\<lambda>_. []))"

definition compile_rules :: "pass_def \<Rightarrow> pass_def" where
  "compile_rules p = p\<lparr>pd_rule_map := foldl add_to_table (clear_table (pd_rule_map p)) (pd_rules p)\<rparr>"

definition empty_table :: rule_table where
  "empty_table = make_default_map (make_default_map [])"

text \<open>The constructor with rules, and \<open>rules\<close>, which adds some.\<close>

definition make_pass :: "u32 \<Rightarrow> rule list \<Rightarrow> pass_def" where
  "make_pass direction r = compile_rules
     \<lparr>pd_direction = direction, pd_rules = r, pd_rule_map = empty_table, pd_pre_once = None, pd_post_once = None,
      pd_cond_run = None, pd_pre = Map.empty, pd_post = Map.empty\<rparr>"

definition add_rules :: "rule list \<Rightarrow> pass_def \<Rightarrow> pass_def" where
  "add_rules r p = compile_rules (p\<lparr>pd_rules := pd_rules p @ r\<rparr>)"

definition set_pre :: "token_def list \<Rightarrow> hook \<Rightarrow> pass_def \<Rightarrow> pass_def" where
  "set_pre types f p = p\<lparr>pd_pre := foldl (\<lambda>m t. m(t \<mapsto> f)) (pd_pre p) types\<rparr>"

definition set_post :: "token_def list \<Rightarrow> hook \<Rightarrow> pass_def \<Rightarrow> pass_def" where
  "set_post types f p = p\<lparr>pd_post := foldl (\<lambda>m t. m(t \<mapsto> f)) (pd_post p) types\<rparr>"

subsection \<open>Replacing\<close>

definition NOCHANGE :: int where "NOCHANGE = -1"
definition REAPPLY :: int where "REAPPLY = -2"

fun set_locations :: "location \<Rightarrow> nat list \<Rightarrow> ast \<Rightarrow> ast option" where
  "set_locations loc [] h = Some h"
| "set_locations loc (n # ns) h = Option.bind (set_location n loc h) (set_locations loc ns)"

text \<open>\<open>replace\<close>: what \<open>[start, it)\<close> is replaced by, the position after it, and the tree.\<close>

definition replace_match ::
  "match_def \<Rightarrow> effect \<Rightarrow> nat \<Rightarrow> nat \<Rightarrow> nat \<Rightarrow> ast \<Rightarrow> (int \<times> nat \<times> ast) outcome" where
  "replace_match m rule_replace start it node h =
     run_bind (Some (rule_replace m h)) (\<lambda>(h, replace).
       if (case replace of None \<Rightarrow> False | Some r \<Rightarrow> nd_type (h ! r) = NoChange) then run_return (NOCHANGE, it, h)
       else
         let cs = nd_children (h ! node);
             loc = foldl (\<lambda>loc i. loc_mult loc (nd_location (h ! (cs ! i)))) (nd_location (h ! (cs ! start))) [start + 1..<it];
             (it, h) = erase node start it h
         in (case replace of
               None \<Rightarrow> run_return (0, it, h)
             | Some r \<Rightarrow>
                 if nd_type (h ! r) = Seq \<or> nd_type (h ! r) = Reapply then
                   (case set_locations loc (nd_children (h ! r)) h of
                      None \<Rightarrow> None
                    | Some h \<Rightarrow>
                        let ns = nd_children (h ! r);
                            replaced = (if nd_type (h ! r) = Reapply then REAPPLY else int (length ns));
                            (it, h) = insert_range node it ns h
                        in run_return (replaced, it, h))
                 else
                   (case set_location r loc h of
                      None \<Rightarrow> None
                    | Some h \<Rightarrow>
                        let (it, h) = insert_node node it (Some r) h
                        in run_return (1, it, h))))"

subsection \<open>Matching at one level\<close>

text \<open>The loop over the rules for a parent and a start: what was replaced, the position, and the state.\<close>

primrec try_rules :: "rule list \<Rightarrow> nat \<Rightarrow> nat \<Rightarrow> match_def \<Rightarrow> ast \<Rightarrow> (int \<times> nat \<times> match_def \<times> ast) outcome" where
  "try_rules [] node start m h = run_return (NOCHANGE, start, m, h)"
| "try_rules (rule # rules) node start m h =
     run_bind (pmatch (fst (fst rule)) h start node (reset_match m)) (\<lambda>(b, it, m).
       if b \<and> \<not> range_contains_error (take (it - start) (drop start (nd_children (h ! node)))) h then
         run_bind (replace_match m (snd rule) start it node h) (\<lambda>(replaced, it, h).
           if replaced \<noteq> NOCHANGE then run_return (replaced, it, m, h) else try_rules rules node start m h)
       else try_rules rules node start m h)"

text \<open>A token that is not made by the constructor may lie outside the table; the access is an error.\<close>

partial_function (option) match_loop ::
  "pass_def \<Rightarrow> rule list default_map \<Rightarrow> nat \<Rightarrow> nat \<Rightarrow> nat \<Rightarrow> match_def \<Rightarrow> ast \<Rightarrow> (nat \<times> match_def \<times> ast) outcome" where
  "match_loop p rules node it changes m h =
     (if it = length (nd_children (h ! node)) then run_return (changes, m, h)
      else if \<not> in_table (nd_type (h ! (nd_children (h ! node) ! it))) then Some (Inl NullNode)
      else
        run_bind (try_rules (get rules (nd_type (h ! (nd_children (h ! node) ! it)))) node it m h) (\<lambda>(replaced, it, m, h).
          if replaced = NOCHANGE then match_loop p rules node (it + 1) changes m h
          else if replaced = REAPPLY then match_loop p rules node it (changes + 1) m h
          else if has_flag p dir_once then match_loop p rules node (it + nat replaced) (changes + 1) m h
          else match_loop p rules node 0 (changes + 1) m h))"

definition match_children :: "pass_def \<Rightarrow> nat \<Rightarrow> match_def \<Rightarrow> ast \<Rightarrow> (nat \<times> match_def \<times> ast) outcome" where
  "match_children p node m h =
     (let rules = get (pd_rule_map p) (nd_type (h ! node))
      in if \<not> in_table (nd_type (h ! node)) then Some (Inl NullNode)
         else if dm_empty rules then run_return (0, m, h) else match_loop p rules node 0 0 m h)"

subsection \<open>Applying the rules to a tree\<close>

definition add_changes :: "nat \<Rightarrow> nat \<Rightarrow> nat" where
  "add_changes a b = (a + b) mod 2 ^ 64"

type_synonym pass_state = "nat \<times> match_def \<times> ast"

definition run_hook :: "(token_def \<rightharpoonup> hook) \<Rightarrow> nat \<Rightarrow> pass_state \<Rightarrow> pass_state outcome" where
  "run_hook hooks node = (\<lambda>(changes, m, h).
     (case hooks (nd_type (h ! node)) of
        None \<Rightarrow> run_return (changes, m, h)
      | Some f \<Rightarrow> run_bind (Some (f node h)) (\<lambda>(h, n). run_return (add_changes changes n, m, h))))"

definition run_match :: "pass_def \<Rightarrow> nat \<Rightarrow> pass_state \<Rightarrow> pass_state outcome" where
  "run_match p node = (\<lambda>(changes, m, h).
     run_bind (match_children p node m h) (\<lambda>(n, m, h). run_return (changes + n, m, h)))"

text \<open>The actions of \<open>apply_special\<close>. The template arguments \<open>Pre\<close> and \<open>Post\<close> only spare the lookup in an
  empty map.\<close>

definition add_action :: "pass_def \<Rightarrow> nat \<Rightarrow> pass_state \<Rightarrow> (bool \<times> pass_state) outcome" where
  "add_action p node = (\<lambda>(changes, m, h).
     if has (nd_type (h ! node)) flag_internal then run_return (False, changes, m, h)
     else run_bind (run_hook (pd_pre p) node (changes, m, h)) (\<lambda>s.
       run_bind (if has_flag p dir_topdown then run_match p node s else run_return s) (\<lambda>s.
         run_return (True, s))))"

definition remove_action :: "pass_def \<Rightarrow> nat \<Rightarrow> pass_state \<Rightarrow> pass_state outcome" where
  "remove_action p node s =
     run_bind (if \<not> has_flag p dir_topdown then run_match p node s else run_return s) (run_hook (pd_post p) node)"

text \<open>\<open>NodeDef::traverse\<close> with actions that may throw or not end.\<close>

partial_function (option) apply_loop :: "pass_def \<Rightarrow> (nat \<times> nat) list \<Rightarrow> pass_state \<Rightarrow> pass_state outcome" where
  "apply_loop p path s =
     (case path of
        [] \<Rightarrow> run_return s
      | (node, it) # rest \<Rightarrow>
          let cs = nd_children (snd (snd s) ! node)
          in if it < length cs then
               run_bind (add_action p (cs ! it) s) (\<lambda>(b, s).
                 if b then apply_loop p ((cs ! it, 0) # (node, it + 1) # rest) s
                 else apply_loop p ((node, it + 1) # rest) s)
             else run_bind (remove_action p node s) (\<lambda>s. apply_loop p rest s))"

definition apply_pass :: "pass_def \<Rightarrow> nat \<Rightarrow> match_def \<Rightarrow> ast \<Rightarrow> pass_state outcome" where
  "apply_pass p root m h =
     run_bind (add_action p root (0, m, h)) (\<lambda>(b, s). if b then apply_loop p [(root, 0)] s else run_return s)"

subsection \<open>Lifting\<close>

text \<open>What is done with the lifted nodes at a node: those meant for its type are unpacked before \<open>it\<close>,
  the others go on up.\<close>

fun place_lifted :: "nat \<Rightarrow> nat list \<Rightarrow> nat \<Rightarrow> bool \<Rightarrow> nat list \<Rightarrow> ast \<Rightarrow> ast_error + (nat \<times> bool \<times> nat list \<times> ast)" where
  "place_lifted node [] it advance uplift h = Inr (it, advance, uplift, h)"
| "place_lifted node (lnode # ls) it advance uplift h =
     (case nd_children (h ! lnode) of
        [] \<Rightarrow> Inl NullNode
      | front # rest \<Rightarrow>
          if nd_type (h ! front) = nd_type (h ! node) then
            let (it, h) = insert_range node it rest h
            in place_lifted node ls (it + length rest) False uplift h
          else place_lifted node ls it advance (uplift @ [lnode]) h)"

text \<open>The loop of \<open>lift\<close>, for a node whose flag was set; the call for a child is the same loop for the
  child, after its flag was read and reset.\<close>

partial_function (option) lift_loop :: "nat \<Rightarrow> nat \<Rightarrow> nat list \<Rightarrow> ast \<Rightarrow> (nat list \<times> ast) outcome" where
  "lift_loop node it uplift h =
     (if it = length (nd_children (h ! node)) then run_return (uplift, h)
      else
        let child = nd_children (h ! node) ! it; (b, h) = get_and_reset_contains_lift child h
        in run_bind (if b then lift_loop child 0 [] h else run_return ([], h)) (\<lambda>(lifted, h).
             let is_lift = (nd_type (h ! child) = Lift);
                 lifted = (if is_lift then child # lifted else lifted);
                 (it, h) = (if is_lift then erase node it (it + 1) h else (it, h))
             in run_bind (Some (place_lifted node lifted it (\<not> is_lift) uplift h)) (\<lambda>(it, advance, uplift, h).
                  lift_loop node (if advance then it + 1 else it) uplift h)))"

definition lift :: "nat \<Rightarrow> ast \<Rightarrow> (nat list \<times> ast) outcome" where
  "lift node h =
     (let (b, h) = get_and_reset_contains_lift node h
      in if b then lift_loop node 0 [] h else run_return ([], h))"

subsection \<open>Running a pass\<close>

partial_function (option) pass_loop ::
  "pass_def \<Rightarrow> nat \<Rightarrow> nat \<Rightarrow> nat \<Rightarrow> match_def \<Rightarrow> ast \<Rightarrow> (nat \<times> nat \<times> match_def \<times> ast) outcome" where
  "pass_loop p node changes_sum count m h =
     run_bind (apply_pass p node m h) (\<lambda>(changes, m, h).
       run_bind (lift node h) (\<lambda>(lifted, h).
         if lifted \<noteq> [] then Some (Inl LiftedWithoutDestination)
         else if has_flag p dir_once \<or> \<not> 0 < changes then run_return (count + 1, add_changes changes_sum changes, m, h)
         else pass_loop p node (add_changes changes_sum changes) (count + 1) m h))"

definition run_once_hook :: "hook option \<Rightarrow> nat \<Rightarrow> nat \<Rightarrow> ast \<Rightarrow> (nat \<times> ast) outcome" where
  "run_once_hook f node changes_sum h =
     (case f of
        None \<Rightarrow> run_return (changes_sum, h)
      | Some f \<Rightarrow> run_bind (Some (f node h)) (\<lambda>(h, n). run_return (add_changes changes_sum n, h)))"

text \<open>\<open>run\<close> delivers the count of iterations and the sum of the changes; the root stays the same.\<close>

definition run_pass :: "pass_def \<Rightarrow> nat \<Rightarrow> match_def \<Rightarrow> ast \<Rightarrow> (nat \<times> nat \<times> match_def \<times> ast) outcome" where
  "run_pass p node m h =
     (if (case pd_cond_run p of None \<Rightarrow> False | Some c \<Rightarrow> \<not> c node h) then run_return (0, 0, m, h)
      else
        run_bind (run_once_hook (pd_pre_once p) node 0 h) (\<lambda>(changes_sum, h).
          run_bind (pass_loop p node changes_sum 0 m h) (\<lambda>(count, changes_sum, m, h).
            run_bind (run_once_hook (pd_post_once p) node changes_sum h) (\<lambda>(changes_sum, h).
              run_return (count, changes_sum, m, h)))))"

end
