(* ===== verification/AstOrder.thy ===== *)
theory AstOrder
  imports AstForest
begin

text \<open>
  Walks over the nodes of \<open>Ast\<close>: \<open>traverse\<close> is the recursion over the tree the heap holds, which gives
  the size and the height of a tree and the errors that \<open>get_errors\<close> reports; \<open>precedes\<close> compares two nodes of
  one tree by the children of their last common ancestor.
\<close>

subsection \<open>Trees\<close>

text \<open>A tree of nodes, and that the heap holds it.\<close>

datatype rose = Rose (root: nat) (subtrees: "rose list")

fun holds :: "ast \<Rightarrow> rose \<Rightarrow> bool" where
  "holds h (Rose a ts) \<longleftrightarrow> nd_children (h ! a) = map root ts \<and> list_all (holds h) ts"

fun preorder :: "rose \<Rightarrow> nat list" where
  "preorder (Rose a ts) = a # concat (map preorder ts)"

fun height :: "rose \<Rightarrow> nat" where
  "height (Rose a ts) = Suc (foldl (\<lambda>m t. max m (height t)) 0 ts)"

text \<open>What \<open>traverse\<close> does, as a recursion over the tree.\<close>

fun visit :: "(nat \<Rightarrow> 's \<Rightarrow> bool \<times> 's) \<Rightarrow> (nat \<Rightarrow> 's \<Rightarrow> 's) \<Rightarrow> rose \<Rightarrow> 's \<Rightarrow> 's" where
  "visit pre post (Rose a ts) s =
     (case pre a s of (b, s) \<Rightarrow> if b then post a (foldl (\<lambda>s t. visit pre post t s) s ts) else s)"

text \<open>Actions that leave the children of all nodes as they are.\<close>

definition keeps_children :: "('s \<Rightarrow> ast) \<Rightarrow> (nat \<Rightarrow> 's \<Rightarrow> bool \<times> 's) \<Rightarrow> (nat \<Rightarrow> 's \<Rightarrow> 's) \<Rightarrow> bool" where
  "keeps_children heap pre post \<longleftrightarrow>
     (\<forall>n s a. nd_children (heap (snd (pre n s)) ! a) = nd_children (heap s ! a) \<and>
        nd_children (heap (post n s) ! a) = nd_children (heap s ! a))"

lemma holds_cong: "(\<And>a. nd_children (h ! a) = nd_children (h' ! a)) \<Longrightarrow> holds h t = holds h' t"
  by (induction t) (auto simp: list_all_iff)

lemma visit_children:
  assumes "keeps_children heap pre post"
  shows "nd_children (heap (visit pre post t s) ! a) = nd_children (heap s ! a)"
proof (induction t arbitrary: s)
  case (Rose b ts)
  have f: "nd_children (heap (foldl (\<lambda>s t. visit pre post t s) s ts') ! a) = nd_children (heap s ! a)"
    if "set ts' \<subseteq> set ts" for ts' s
    using that Rose by (induction ts' arbitrary: s) auto
  have "nd_children (heap (snd (pre b s)) ! a) = nd_children (heap s ! a)" for s
    using assms by (simp add: keeps_children_def)
  moreover have "nd_children (heap (post b s) ! a) = nd_children (heap s ! a)" for s
    using assms by (simp add: keeps_children_def)
  ultimately show ?case using f [of ts] by (cases "pre b s") (simp, metis snd_conv)
qed

lemma traverse_loop_visit:
  assumes keeps: "keeps_children heap pre post"
  shows "holds (heap s) t \<Longrightarrow>
    traverse_loop heap pre post ((root t, 0) # rest) s =
    traverse_loop heap pre post rest (post (root t) (foldl (\<lambda>s t. visit pre post t s) s (subtrees t)))"
proof (induction t arbitrary: rest s)
  case (Rose a ts)
  have children: "nd_children (heap s' ! c) = nd_children (heap s ! c)" if "pre b s = (x, s')" for b s x s' c
    using keeps that by (simp add: keeps_children_def) (metis snd_conv)
  have "traverse_loop heap pre post ((a, length vs) # rest) s =
      traverse_loop heap pre post rest (post a (foldl (\<lambda>s t. visit pre post t s) s us))"
    if "nd_children (heap s ! a) = map root (vs @ us)" "list_all (holds (heap s)) us" "set us \<subseteq> set ts" for us vs s
    using that
  proof (induction us arbitrary: vs s)
    case Nil
    then show ?case by (subst traverse_loop.simps) simp
  next
    case (Cons u us)
    obtain b s1 where p: "pre (root u) s = (b, s1)" by (cases "pre (root u) s")
    have h1: "holds (heap s1) u" using Cons.prems(2) holds_cong [of "heap s1" "heap s" u] children [OF p] by simp
    have "traverse_loop heap pre post ((a, length vs) # rest) s =
        (if b then traverse_loop heap pre post ((root u, 0) # (a, Suc (length vs)) # rest) s1
         else traverse_loop heap pre post ((a, Suc (length vs)) # rest) s1)"
      using Cons.prems(1) p by (subst traverse_loop.simps) (simp add: Let_def nth_append)
    also have "\<dots> = traverse_loop heap pre post ((a, Suc (length vs)) # rest) (visit pre post u s)"
      using Rose.IH [of u s1 "(a, Suc (length vs)) # rest"] Cons.prems(3) h1 p by (cases u) auto
    also have "\<dots> = traverse_loop heap pre post rest (post a (foldl (\<lambda>s t. visit pre post t s) (visit pre post u s) us))"
    proof -
      note v = visit_children [OF keeps, of u s]
      have "list_all (holds (heap (visit pre post u s))) us"
        using Cons.prems(2) holds_cong [OF v] by (auto simp: list_all_iff)
      with Cons.IH [of "visit pre post u s" "vs @ [u]"] Cons.prems(1,3) v show ?thesis by simp
    qed
    finally show ?case by simp
  qed
  from this [of s "[]" ts] Rose.prems show ?case by simp
qed

lemma traverse_visit:
  assumes "keeps_children heap pre post" "holds (heap s) t"
  shows "traverse heap pre post (root t) s = Some (visit pre post t s)"
proof -
  obtain b s1 where p: "pre (root t) s = (b, s1)" by (cases "pre (root t) s")
  have "nd_children (heap s1 ! c) = nd_children (heap s ! c)" for c
    using assms(1) p by (simp add: keeps_children_def) (metis snd_conv)
  then have "holds (heap s1) t" using assms(2) holds_cong by blast
  from traverse_loop_visit [where rest = "[]" and s = s1, OF assms(1) this] p show ?thesis
    by (cases t) (simp add: traverse_def traverse_loop.simps [of _ _ _ "[]"])
qed

text \<open>In a forest every node is the root of a tree.\<close>

lemma forest_holds:
  assumes "forest h"
  shows "a < length h \<Longrightarrow> \<exists>t. root t = a \<and> holds h t"
proof -
  have "wf ((up h)\<inverse>)" by (rule finite_acyclic_wf_converse [OF finite_up forestD(4) [OF assms]])
  then show "a < length h \<Longrightarrow> \<exists>t. root t = a \<and> holds h t"
  proof (induction a rule: wf_induct_rule)
    case (less a)
    have "\<exists>t. root t = c \<and> holds h t" if "c \<in> set (nd_children (h ! a))" for c
    proof -
      have "(a, c) \<in> up h" using forestD(2) [OF assms less.prems] that by blast
      with less.IH [of c] forestD(3) [OF assms] show ?thesis by blast
    qed
    then obtain f where f: "\<And>c. c \<in> set (nd_children (h ! a)) \<Longrightarrow> root (f c) = c \<and> holds h (f c)" by metis
    then have "map (root \<circ> f) (nd_children (h ! a)) = nd_children (h ! a)" by (intro map_idI) simp
    then have "holds h (Rose a (map f (nd_children (h ! a))))" using f by (simp add: list_all_iff)
    then show ?case by (metis rose.sel(1))
  qed
qed

text \<open>The nodes of a tree are the node at its root and those below it, each once.\<close>

lemma holds_reach:
  assumes "forest h"
  shows "holds h t \<Longrightarrow> root t < length h \<Longrightarrow> set (preorder t) = {b. (root t, b) \<in> (up h)\<^sup>*}"
proof (induction t)
  case (Rose a ts)
  have c: "(a, c) \<in> up h \<longleftrightarrow> c \<in> root ` set ts" for c
    using forestD(2) [OF assms, of a c] Rose.prems by auto
  have sub: "set (preorder t) = {b. (root t, b) \<in> (up h)\<^sup>*}" if "t \<in> set ts" for t
  proof -
    have "(a, root t) \<in> up h" using c that by blast
    then have "root t < length h" using forestD(3) [OF assms] by blast
    with Rose that show ?thesis by (simp add: list_all_iff)
  qed
  have "b \<in> set (preorder (Rose a ts)) \<longleftrightarrow> b = a \<or> (\<exists>t \<in> set ts. (root t, b) \<in> (up h)\<^sup>*)" for b
    using sub by auto
  also have "\<dots> b \<longleftrightarrow> (a, b) \<in> (up h)\<^sup>*" for b
  proof
    assume "(a, b) \<in> (up h)\<^sup>*"
    then show "b = a \<or> (\<exists>t \<in> set ts. (root t, b) \<in> (up h)\<^sup>*)" by (rule converse_rtranclE) (use c in auto)
  next
    assume "b = a \<or> (\<exists>t \<in> set ts. (root t, b) \<in> (up h)\<^sup>*)"
    then show "(a, b) \<in> (up h)\<^sup>*" using c by (auto intro: converse_rtrancl_into_rtrancl)
  qed
  finally show ?case by auto
qed

lemma up_chain:
  assumes "(x, b) \<in> (up h)\<^sup>*" "(y, b) \<in> (up h)\<^sup>*"
  shows "(x, y) \<in> (up h)\<^sup>* \<or> (y, x) \<in> (up h)\<^sup>*"
proof -
  have "single_valued ((up h)\<inverse>)" by (auto simp: single_valued_def up_def)
  from single_valued_confluent [OF this, of b x y] assms show ?thesis by (auto simp: rtrancl_converse)
qed

text \<open>The subtrees of two children of one node have no node in common.\<close>

lemma siblings_disjoint:
  assumes "forest h" "(a, c) \<in> up h" "(a, d) \<in> up h" "c \<noteq> d" "(c, b) \<in> (up h)\<^sup>*"
  shows "(d, b) \<notin> (up h)\<^sup>*"
proof
  assume "(d, b) \<in> (up h)\<^sup>*"
  have no: False if "(x, y) \<in> (up h)\<^sup>*" "x \<noteq> y" "(a, x) \<in> up h" "(a, y) \<in> up h" for x y
  proof -
    from that(1,2) obtain z where z: "(x, z) \<in> (up h)\<^sup>*" "(z, y) \<in> up h" by (metis rtranclE)
    then have "z = a" using up_inject that(4) by blast
    with z(1) that(3) have "(a, a) \<in> (up h)\<^sup>+" by (metis rtrancl_into_trancl2)
    with forestD(4) [OF assms(1)] show False by (simp add: acyclic_def)
  qed
  from up_chain [OF assms(5) \<open>(d, b) \<in> (up h)\<^sup>*\<close>] no assms(2-4) show False by metis
qed

lemma preorder_distinct:
  assumes "forest h"
  shows "holds h t \<Longrightarrow> root t < length h \<Longrightarrow> distinct (preorder t)"
proof (induction t)
  case (Rose a ts)
  have c: "(a, root t) \<in> up h" if "t \<in> set ts" for t
    using forestD(2) [OF assms, of a "root t"] Rose.prems that by auto
  have r: "set (preorder t) = {b. (root t, b) \<in> (up h)\<^sup>*}" if "t \<in> set ts" for t
    using holds_reach [OF assms, of t] forestD(3) [OF assms c [OF that]] Rose.prems that by (simp add: list_all_iff)
  have dist: "distinct (map root ts)" using forestD(1) [OF assms, of a] Rose.prems by simp
  have "a \<notin> set (preorder t)" if "t \<in> set ts" for t
    unfolding r [OF that] using c [OF that] forestD(4) [OF assms] by (auto simp: acyclic_def dest: rtrancl_into_trancl2)
  moreover have "distinct (concat (map preorder ts'))" if "set ts' \<subseteq> set ts" "distinct (map root ts')" for ts'
    using that
  proof (induction ts')
    case (Cons t ts')
    have "distinct (preorder t)"
      using Rose.IH [of t] Rose.prems forestD(3) [OF assms c [of t]] Cons.prems(1) by (simp add: list_all_iff)
    moreover have "set (preorder t) \<inter> set (preorder u) = {}" if "u \<in> set ts'" for u
    proof -
      have "root t \<noteq> root u" using Cons.prems(2) that by auto
      then show ?thesis using siblings_disjoint [OF assms c [of t] c [of u]] Cons.prems(1) that r [of t] r [of u] by auto
    qed
    ultimately show ?case using Cons by auto
  qed simp
  ultimately show ?case using dist by auto
qed

subsection \<open>Size and height\<close>

lemma visit_nop [simp]:
  "visit pre nop_post (Rose a ts) s =
    (case pre a s of (b, s) \<Rightarrow> if b then foldl (\<lambda>s t. visit pre nop_post t s) s ts else s)"
  by (simp add: nop_post_def split: prod.split)

lemma tree_size_preorder:
  assumes "holds h t"
  shows "tree_size (root t) h = Some (length (preorder t))"
proof -
  have v: "visit (\<lambda>n size. (True, size + 1)) nop_post t k = k + length (preorder t)" for k :: nat
  proof (induction t arbitrary: k)
    case (Rose a ts)
    have "foldl (\<lambda>s t. visit (\<lambda>n size. (True, size + 1)) nop_post t s) k us = k + length (concat (map preorder us))"
      if "set us \<subseteq> set ts" for us k
      using that Rose by (induction us arbitrary: k) auto
    from this [of ts "Suc k"] show ?case by (simp del: visit.simps)
  qed
  have "keeps_children (\<lambda>_ :: nat. h) (\<lambda>n size. (True, size + 1)) nop_post" by (simp add: keeps_children_def)
  from traverse_visit [OF this assms] v [of 0] show ?thesis by (simp add: tree_size_def)
qed

lemma foldl_max: "foldl (\<lambda>m t. max m (f t)) (k :: nat) us = max k (foldl (\<lambda>m t. max m (f t)) 0 us)"
proof (induction us arbitrary: k)
  case (Cons u us)
  show ?case using Cons [of "max k (f u)"] Cons [of "f u"] by (simp add: max.assoc)
qed simp

lemma tree_height_height:
  assumes "holds h t"
  shows "tree_height (root t) h = Some (height t)"
proof -
  let ?pre = "\<lambda>n (cur_depth :: nat, max_depth :: nat). (True, cur_depth + 1, max_depth)"
  let ?post = "\<lambda>n (cur_depth :: nat, max_depth). (cur_depth - 1, if max_depth < cur_depth then cur_depth else max_depth)"
  have v: "visit ?pre ?post t (k, m) = (k, max m (k + height t))" for k m
  proof (induction t arbitrary: k m)
    case (Rose a ts)
    have "foldl (\<lambda>s t. visit ?pre ?post t s) (k, m) us = (k, max m (k + foldl (\<lambda>m t. max m (height t)) 0 us)) \<or> us = []"
      if "set us \<subseteq> set ts" for us k m
      using that
    proof (induction us arbitrary: m)
      case (Cons u us)
      show ?case using Cons.IH [of "max m (k + height u)"] Cons.prems Rose.IH [of u k m] foldl_max [of height "height u" us]
        by (cases "us = []") (auto simp: max_def)
    qed simp
    from this [of ts "Suc k" m] show ?case by (cases "ts = []") (auto simp: max_def)
  qed
  have "keeps_children (\<lambda>_ :: nat \<times> nat. h) ?pre ?post" by (simp add: keeps_children_def split: prod.split)
  from traverse_visit [OF this assms, of "(0, 0)"] v [of 0 0] show ?thesis by (simp add: tree_height_def)
qed

subsection \<open>The errors\<close>

definition innermost_error :: "ast \<Rightarrow> nat \<Rightarrow> bool" where
  "innermost_error h n \<longleftrightarrow> nd_type (h ! n) = Error \<and> \<not> contains_error (nd_flags (h ! n))"

lemma unflagged_clean:
  assumes "tree_ok h"
  shows "holds h t \<Longrightarrow> root t < length h \<Longrightarrow> \<not> contains_error (nd_flags (h ! root t)) \<Longrightarrow>
    \<forall>u \<in> set (subtrees t). \<forall>n \<in> set (preorder u). \<not> marked Error contains_error (h ! n)"
proof (induction t)
  case (Rose a ts)
  have f: "forest h" "flags_sound h" using assms by (simp_all add: tree_ok_def)
  have "\<not> marked Error contains_error (h ! n)" if u: "u \<in> set ts" "n \<in> set (preorder u)" for u n
  proof -
    have c: "(a, root u) \<in> up h" using forestD(2) [OF f(1), of a "root u"] Rose.prems u(1) by auto
    then have m: "\<not> marked Error contains_error (h ! root u)" using f(2) Rose.prems(3) by (auto simp: flags_sound_def)
    then have "\<forall>w \<in> set (subtrees u). \<forall>n \<in> set (preorder w). \<not> marked Error contains_error (h ! n)"
      using Rose.IH [of u] Rose.prems(1) u(1) forestD(3) [OF f(1) c] by (simp add: list_all_iff marked_def)
    with m u(2) show ?thesis by (cases u) auto
  qed
  then show ?case by simp
qed

definition error_pre :: "nat \<Rightarrow> ast \<times> nat list \<Rightarrow> bool \<times> ast \<times> nat list" where
  "error_pre n = (\<lambda>(h, errors).
     (case get_and_reset_contains_error n h of
        (b, h) \<Rightarrow> if b then (True, h, errors)
          else (False, h, if nd_type (h ! n) = Error then errors @ [n] else errors)))"

lemma error_pre_children: "keeps_children fst error_pre nop_post"
proof -
  have "nd_children (update a (\<lambda>nd. nd\<lparr>nd_flags := F nd\<rparr>) h ! b) = nd_children (h ! b)" for a F h b
    by (cases "a < length h") (auto simp: update_def nth_list_update list_update_beyond)
  then show ?thesis
    by (auto simp: keeps_children_def error_pre_def get_and_reset_contains_error_def nop_post_def)
qed

lemma visit_errors:
  assumes "tree_ok h"
  shows "holds h t \<Longrightarrow> root t < length h \<Longrightarrow> length h' = length h \<Longrightarrow> \<forall>n \<in> set (preorder t). h' ! n = h ! n \<Longrightarrow>
    \<exists>h''. visit error_pre nop_post t (h', es) = (h'', es @ filter (innermost_error h) (preorder t)) \<and>
      length h'' = length h \<and> (\<forall>n. n \<notin> set (preorder t) \<longrightarrow> h'' ! n = h' ! n)"
proof (induction t arbitrary: h' es)
  case (Rose a ts)
  have f: "forest h" using assms by (simp add: tree_ok_def)
  let ?h1 = "update a (\<lambda>nd. nd\<lparr>nd_flags := reset_contains_error (nd_flags nd)\<rparr>) h'"
  have a: "h' ! a = h ! a" "a < length h'" using Rose.prems by auto
  have h1: "?h1 ! n = h' ! n" if "n \<noteq> a" for n using a that by (simp add: nth_update)
  show ?case
  proof (cases "contains_error (nd_flags (h ! a))")
    case False
    have "filter (innermost_error h) (concat (map preorder ts)) = []"
      using unflagged_clean [OF assms Rose.prems(1,2)] False by (auto simp: filter_empty_conv innermost_error_def marked_def)
    moreover have "error_pre a (h', es) = (False, ?h1, if nd_type (h ! a) = Error then es @ [a] else es)"
      using False a by (simp add: error_pre_def get_and_reset_contains_error_def nth_update)
    moreover have "innermost_error h a \<longleftrightarrow> nd_type (h ! a) = Error" using False by (simp add: innermost_error_def)
    ultimately show ?thesis using h1 Rose.prems(3) by (auto simp del: visit.simps)
  next
    case True
    have dist: "distinct (preorder (Rose a ts))" by (rule preorder_distinct [OF f Rose.prems(1,2)])
    have step: "\<exists>h''. foldl (\<lambda>s t. visit error_pre nop_post t s) (g, es) us =
          (h'', es @ filter (innermost_error h) (concat (map preorder us))) \<and> length h'' = length h \<and>
          (\<forall>n. n \<notin> set (concat (map preorder us)) \<longrightarrow> h'' ! n = g ! n)"
      if "set us \<subseteq> set ts" "distinct (concat (map preorder us))" "length g = length h"
        "\<forall>n \<in> set (concat (map preorder us)). g ! n = h ! n" for us g es
      using that
    proof (induction us arbitrary: g es)
      case (Cons u us)
      have c: "(a, root u) \<in> up h" using forestD(2) [OF f, of a "root u"] Rose.prems Cons.prems(1) by auto
      have "holds h u" using Rose.prems(1) Cons.prems(1) by (simp add: list_all_iff)
      moreover have "\<forall>n \<in> set (preorder u). g ! n = h ! n" using Cons.prems(4) by simp
      ultimately obtain g1 where g1: "visit error_pre nop_post u (g, es) = (g1, es @ filter (innermost_error h) (preorder u))"
        "length g1 = length h" "\<forall>n. n \<notin> set (preorder u) \<longrightarrow> g1 ! n = g ! n"
        using Rose.IH [of u g es] Cons.prems(1,3) forestD(3) [OF f c] by auto
      have "\<forall>n \<in> set (concat (map preorder us)). g1 ! n = h ! n"
      proof
        fix n
        assume n: "n \<in> set (concat (map preorder us))"
        with Cons.prems(2) have "n \<notin> set (preorder u)" by auto
        with g1(3) n Cons.prems(4) show "g1 ! n = h ! n" by auto
      qed
      with Cons.IH [of g1 "es @ filter (innermost_error h) (preorder u)"] Cons.prems(1,2) g1 show ?case by auto
    qed simp
    have "error_pre a (h', es) = (True, ?h1, es)"
      using True a by (simp add: error_pre_def get_and_reset_contains_error_def)
    moreover obtain h'' where h'': "foldl (\<lambda>s t. visit error_pre nop_post t s) (?h1, es) ts =
          (h'', es @ filter (innermost_error h) (concat (map preorder ts)))" "length h'' = length h"
        "\<forall>n. n \<notin> set (concat (map preorder ts)) \<longrightarrow> h'' ! n = ?h1 ! n"
    proof -
      have "\<forall>n \<in> set (concat (map preorder ts)). ?h1 ! n = h ! n"
      proof
        fix n
        assume n: "n \<in> set (concat (map preorder ts))"
        with dist have "n \<noteq> a" by auto
        with h1 n Rose.prems(4) show "?h1 ! n = h ! n" by auto
      qed
      from step [OF subset_refl _ _ this] dist Rose.prems(3) that show thesis by auto
    qed
    moreover have "filter (innermost_error h) (preorder (Rose a ts)) = filter (innermost_error h) (concat (map preorder ts))"
      using True by (simp add: innermost_error_def)
    moreover have "h'' ! n = h' ! n" if "n \<notin> set (preorder (Rose a ts))" for n
      using that h''(3) h1 [of n] by simp
    ultimately show ?thesis using h''(2) by (simp del: visit.simps)
  qed
qed

text \<open>A node with an error properly below it.\<close>

definition error_below :: "ast \<Rightarrow> nat \<Rightarrow> bool" where
  "error_below h n \<longleftrightarrow> (\<exists>c. (n, c) \<in> (up h)\<^sup>+ \<and> nd_type (h ! c) = Error)"

lemma error_below_flagged:
  assumes "tree_ok h"
  shows "(n, c) \<in> (up h)\<^sup>+ \<Longrightarrow> nd_type (h ! c) = Error \<Longrightarrow> contains_error (nd_flags (h ! n))"
proof (induction rule: converse_trancl_induct)
  case (base y)
  then show ?case using assms by (auto simp: tree_ok_def flags_sound_def marked_def)
next
  case (step y z)
  then show ?case using assms by (auto simp: tree_ok_def flags_sound_def marked_def)
qed

lemma get_errors_preorder:
  assumes "tree_ok h" "a < length h"
  shows "\<exists>t h'. root t = a \<and> holds h t \<and> set (preorder t) = {b. (a, b) \<in> (up h)\<^sup>*} \<and>
    get_errors a (h, []) = Some (h', filter (innermost_error h) (preorder t))"
proof -
  have f: "forest h" using assms(1) by (simp add: tree_ok_def)
  obtain t where t: "root t = a" "holds h t" using forest_holds [OF f assms(2)] by auto
  obtain h' where v: "visit error_pre nop_post t (h, []) = (h', filter (innermost_error h) (preorder t))"
    using visit_errors [OF assms(1) t(2), of h "[]"] t(1) assms(2) by auto
  have "get_errors a (h, []) = traverse fst error_pre nop_post (root t) (h, [])"
    by (simp add: get_errors_def error_pre_def [abs_def] t(1) case_prod_beta')
  also have "\<dots> = Some (h', filter (innermost_error h) (preorder t))"
    using traverse_visit [OF error_pre_children] t(2) v by simp
  finally show ?thesis using t holds_reach [OF f t(2)] assms(2) by auto
qed

subsection \<open>The order of the nodes\<close>

text \<open>The number of nodes from the root of the tree down to \<open>a\<close>.\<close>

definition level :: "ast \<Rightarrow> nat \<Rightarrow> nat" where
  "level h a = card {x. (x, a) \<in> (up h)\<^sup>*}"

lemma above_finite: "finite {x. (x, a) \<in> (up h)\<^sup>*}"
proof (rule finite_subset)
  show "{x. (x, a) \<in> (up h)\<^sup>*} \<subseteq> insert a (Domain (up h))" by (auto elim: converse_rtranclE)
  show "finite (insert a (Domain (up h)))" using finite_up by (simp add: finite_Domain)
qed

lemma level_child:
  assumes "forest h" "(p, a) \<in> up h"
  shows "level h a = Suc (level h p)"
proof -
  have "{x. (x, a) \<in> (up h)\<^sup>*} = insert a {x. (x, p) \<in> (up h)\<^sup>*}"
  proof (intro set_eqI iffI)
    fix x
    assume "x \<in> {x. (x, a) \<in> (up h)\<^sup>*}"
    then have "(x, a) \<in> (up h)\<^sup>*" by simp
    then show "x \<in> insert a {x. (x, p) \<in> (up h)\<^sup>*}"
      by (cases rule: rtranclE) (auto dest: up_inject [OF assms(2)])
  qed (use assms(2) in \<open>auto intro: rtrancl_into_rtrancl\<close>)
  moreover have "a \<notin> {x. (x, p) \<in> (up h)\<^sup>*}"
    using assms forestD(4) [OF assms(1)] by (auto simp: acyclic_def dest: rtrancl_into_trancl1)
  ultimately show ?thesis by (simp add: level_def above_finite)
qed

lemma level_root: "nd_parent (h ! a) = None \<Longrightarrow> level h a = 1"
proof -
  assume "nd_parent (h ! a) = None"
  then have "{x. (x, a) \<in> (up h)\<^sup>*} = {a}" by (auto simp: up_def elim: rtranclE)
  then show ?thesis by (simp add: level_def)
qed

lemma parent_up: "a < length h \<Longrightarrow> nd_parent (h ! a) = Some p \<longleftrightarrow> (p, a) \<in> up h"
  by (simp add: up_def)

lemma above_bounded: "forest h \<Longrightarrow> (x, a) \<in> (up h)\<^sup>* \<Longrightarrow> a < length h \<Longrightarrow> x < length h"
  by (erule converse_rtranclE) (auto dest: forestD(3))

lemma level_bound: "forest h \<Longrightarrow> a < length h \<Longrightarrow> level h a \<le> length h"
proof -
  assume "forest h" "a < length h"
  then have "{x. (x, a) \<in> (up h)\<^sup>*} \<subseteq> {..<length h}" using above_bounded by auto
  from card_mono [OF _ this] show ?thesis by (simp add: level_def)
qed

lemma depth_loop_level:
  assumes "forest h"
  shows "a < length h \<Longrightarrow> depth_loop n (Some a) h = min n (level h a)"
proof (induction n arbitrary: a)
  case (Suc n)
  show ?case
  proof (cases "nd_parent (h ! a)")
    case None
    then show ?thesis using level_root [OF None] by (cases n) simp_all
  next
    case (Some p)
    then have u: "(p, a) \<in> up h" using parent_up [OF Suc.prems] by simp
    show ?thesis using Suc.IH [of p] forestD(3) [OF assms u] level_child [OF assms u] Some by simp
  qed
qed simp

lemma depth_level: "forest h \<Longrightarrow> a < length h \<Longrightarrow> depth a h = level h a"
  using depth_loop_level [of h a "length h"] level_bound [of h a] by (simp add: depth_def)

lemma go_up_level:
  assumes "forest h"
  shows "a < length h \<Longrightarrow> n < level h a \<Longrightarrow>
    \<exists>q. go_up n a h = Some q \<and> (q, a) \<in> (up h)\<^sup>* \<and> level h q + n = level h a"
proof (induction n arbitrary: a)
  case (Suc n)
  obtain p where p: "nd_parent (h ! a) = Some p"
    using level_root [of h a] Suc.prems(2) by (cases "nd_parent (h ! a)") auto
  then have u: "(p, a) \<in> up h" using parent_up [OF Suc.prems(1)] by simp
  obtain q where "go_up n p h = Some q" "(q, p) \<in> (up h)\<^sup>*" "level h q + n = level h p"
    using Suc.IH [of p] Suc.prems(2) forestD(3) [OF assms u] level_child [OF assms u] by auto
  then show ?case using p level_child [OF assms u] rtrancl_into_rtrancl [OF _ u] by auto
qed simp

lemma level_pos: "0 < level h a"
  by (auto simp: level_def card_gt_0_iff above_finite)

text \<open>From one level the two nodes go up until they have one parent; they become one node only if they
  are from the start.\<close>

lemma meet_loop_up:
  assumes "forest h"
  shows "p < length h \<Longrightarrow> q < length h \<Longrightarrow> level h p = level h q \<Longrightarrow> level h p \<le> n \<Longrightarrow>
    \<exists>p' q'. meet_loop n p q h = Some (p', q') \<and> (p', p) \<in> (up h)\<^sup>* \<and> (q', q) \<in> (up h)\<^sup>* \<and>
      nd_parent (h ! p') = nd_parent (h ! q') \<and> (p' = q' \<longrightarrow> p = q)"
proof (induction n arbitrary: p q)
  case 0
  then show ?case using level_pos [of h p] by simp
next
  case (Suc n)
  show ?case
  proof (cases "nd_parent (h ! p) = nd_parent (h ! q)")
    case False
    have orphan: "level h c = 1 \<longleftrightarrow> nd_parent (h ! c) = None" if "c < length h" for c
    proof (cases "nd_parent (h ! c)")
      case (Some p)
      then have "(p, c) \<in> up h" using that by (simp add: up_def)
      from level_child [OF assms this] level_pos [of h p] Some show ?thesis by simp
    qed (simp add: level_root)
    have "nd_parent (h ! p) \<noteq> None" "nd_parent (h ! q) \<noteq> None"
      using orphan [OF Suc.prems(1)] orphan [OF Suc.prems(2)] Suc.prems(3) False by auto
    then obtain a b where ab: "nd_parent (h ! p) = Some a" "nd_parent (h ! q) = Some b" by auto
    then have u: "(a, p) \<in> up h" "(b, q) \<in> up h" using parent_up Suc.prems(1,2) by auto
    have "level h a = level h b" "level h a \<le> n" using level_child [OF assms u(1)] level_child [OF assms u(2)] Suc.prems(3,4) by auto
    with Suc.IH [of a b] forestD(3) [OF assms u(1)] forestD(3) [OF assms u(2)] obtain p' q' where
      "meet_loop n a b h = Some (p', q')" "(p', a) \<in> (up h)\<^sup>*" "(q', b) \<in> (up h)\<^sup>*"
      "nd_parent (h ! p') = nd_parent (h ! q')" "p' = q' \<longrightarrow> a = b" by auto
    then show ?thesis using ab False rtrancl_into_rtrancl [OF _ u(1)] rtrancl_into_rtrancl [OF _ u(2)] by auto
  qed auto
qed

lemma same_parent_up:
  assumes "forest h" "a < length h" "b < length h"
  shows "\<exists>p q. same_parent a b h = Some (p, q) \<and> (p, a) \<in> (up h)\<^sup>* \<and> (q, b) \<in> (up h)\<^sup>* \<and>
    nd_parent (h ! p) = nd_parent (h ! q) \<and> (p = q \<longrightarrow> p = a \<or> p = b)"
proof -
  have d: "depth a h = level h a" "depth b h = level h b" using depth_level assms by simp_all
  have n: "level h a - level h b < level h a" "level h b - level h a < level h b"
    using level_pos [of h a] level_pos [of h b] by arith+
  obtain p where p: "go_up (level h a - level h b) a h = Some p" "(p, a) \<in> (up h)\<^sup>*"
      "level h p + (level h a - level h b) = level h a" using go_up_level [OF assms(1,2) n(1)] by auto
  obtain q where q: "go_up (level h b - level h a) b h = Some q" "(q, b) \<in> (up h)\<^sup>*"
      "level h q + (level h b - level h a) = level h b" using go_up_level [OF assms(1,3) n(2)] by auto
  have b: "p < length h" "q < length h" using above_bounded [OF assms(1)] p(2) q(2) assms(2,3) by auto
  have l: "level h p = level h q" "level h p \<le> length h" using p(3) q(3) level_bound [OF assms(1) b(1)] by arith+
  obtain p' q' where m: "meet_loop (length h) p q h = Some (p', q')" "(p', p) \<in> (up h)\<^sup>*" "(q', q) \<in> (up h)\<^sup>*"
      "nd_parent (h ! p') = nd_parent (h ! q')" "p' = q' \<longrightarrow> p = q" using meet_loop_up [OF assms(1) b l] by auto
  have "p = a \<or> q = b" using p(1) q(1) by (cases "level h a \<le> level h b") auto
  moreover have "p' = p" if "p' = q'"
  proof (rule ccontr)
    assume "p' \<noteq> p"
    have "p = q" using m(5) that by simp
    then have "meet_loop (length h) p q h = Some (p, q)" using b by (cases "length h") auto
    with m(1) \<open>p' \<noteq> p\<close> show False by simp
  qed
  moreover have "same_parent a b h = Some (p', q')" using d p(1) q(1) m(1) by (simp add: same_parent_def Let_def)
  ultimately show ?thesis using m p(2) q(2) rtrancl_trans by auto
qed


lemma child_not_below:
  assumes "forest h" "(a, x) \<in> up h" "(a, y) \<in> up h" "(x, y) \<in> (up h)\<^sup>*"
  shows "x = y"
  using siblings_disjoint [OF assms(1-3) _ assms(4)] by auto

lemma above_parent:
  assumes "(p, a) \<in> up h" "(x, a) \<in> (up h)\<^sup>*" "x \<noteq> a"
  shows "(x, p) \<in> (up h)\<^sup>*"
  using assms(2,3) by (cases rule: rtranclE) (auto dest: up_inject [OF assms(1)])

text \<open>\<open>a\<close> is left of \<open>b\<close>: they are below different children of one node, the one of \<open>a\<close> first.\<close>

definition left_of :: "ast \<Rightarrow> nat \<Rightarrow> nat \<Rightarrow> bool" where
  "left_of h a b \<longleftrightarrow> (\<exists>p < length h. \<exists>i j. i < j \<and> j < length (nd_children (h ! p)) \<and>
     (nd_children (h ! p) ! i, a) \<in> (up h)\<^sup>* \<and> (nd_children (h ! p) ! j, b) \<in> (up h)\<^sup>*)"

lemma children_up:
  assumes "forest h" "d < length h" "i < j" "j < length (nd_children (h ! d))"
  shows "(d, nd_children (h ! d) ! i) \<in> up h" "(d, nd_children (h ! d) ! j) \<in> up h"
    "nd_children (h ! d) ! i \<noteq> nd_children (h ! d) ! j"
  using forestD(2) [OF assms(1,2), of "nd_children (h ! d) ! i"] forestD(2) [OF assms(1,2), of "nd_children (h ! d) ! j"]
    forestD(1) [OF assms(1,2)] assms(3,4) by (simp_all add: nth_eq_iff_index_eq)

text \<open>Two pairs of different siblings above the same two nodes are the same pair.\<close>

lemma siblings_unique:
  assumes f: "forest h" and "(c, p) \<in> up h" "(c, q) \<in> up h" "p \<noteq> q" "(p, a) \<in> (up h)\<^sup>*" "(q, b) \<in> (up h)\<^sup>*"
    and "(d, x) \<in> up h" "(d, y) \<in> up h" "x \<noteq> y" "(x, a) \<in> (up h)\<^sup>*" "(y, b) \<in> (up h)\<^sup>*"
  shows "x = p"
proof (rule ccontr)
  assume n: "x \<noteq> p"
  consider "(x, p) \<in> (up h)\<^sup>*" | "(p, x) \<in> (up h)\<^sup>*" using up_chain [OF assms(5,10)] by auto
  then show False
  proof cases
    case 1
    then have "(x, c) \<in> (up h)\<^sup>*" using above_parent [OF assms(2)] n by blast
    then have "(x, b) \<in> (up h)\<^sup>*" using assms(3,6) by (meson rtrancl.rtrancl_into_rtrancl rtrancl_trans)
    with siblings_disjoint [OF f assms(7,8,9)] assms(11) show False by blast
  next
    case 2
    then have "(p, d) \<in> (up h)\<^sup>*" using above_parent [OF assms(7)] n by blast
    then have "(p, b) \<in> (up h)\<^sup>*" using assms(8,11) by (meson rtrancl.rtrancl_into_rtrancl rtrancl_trans)
    with siblings_disjoint [OF f assms(2,3,4)] assms(6) show False by blast
  qed
qed

text \<open>What \<open>same_parent\<close> finds for two nodes of one tree.\<close>

lemma same_parent_cases:
  assumes "forest h" "a < length h" "b < length h" "(c, a) \<in> (up h)\<^sup>*" "(c, b) \<in> (up h)\<^sup>*"
  obtains (above) p where "same_parent a b h = Some (p, p)" "(p, a) \<in> (up h)\<^sup>*" "(p, b) \<in> (up h)\<^sup>*" "p = a \<or> p = b"
    | (apart) p q d where "same_parent a b h = Some (p, q)" "p \<noteq> q" "(d, p) \<in> up h" "(d, q) \<in> up h"
        "(p, a) \<in> (up h)\<^sup>*" "(q, b) \<in> (up h)\<^sup>*" "nd_parent (h ! p) = Some d"
proof -
  obtain p q where pq: "same_parent a b h = Some (p, q)" "(p, a) \<in> (up h)\<^sup>*" "(q, b) \<in> (up h)\<^sup>*"
    "nd_parent (h ! p) = nd_parent (h ! q)" "p = q \<longrightarrow> p = a \<or> p = b" using same_parent_up [OF assms(1-3)] by auto
  have l: "p < length h" "q < length h" using above_bounded [OF assms(1)] pq(2,3) assms(2,3) by auto
  show ?thesis
  proof (cases "p = q")
    case True
    with pq show ?thesis by (intro above [of p]) auto
  next
    case False
    show ?thesis
    proof (cases "nd_parent (h ! p)")
      case None
      have root: "x = y" if "(x, y) \<in> (up h)\<^sup>*" "nd_parent (h ! y) = None" for x y
        using that by (auto simp: up_def elim: rtranclE)
      have "(p, c) \<in> (up h)\<^sup>*" using up_chain [OF pq(2) assms(4)] root [of c p] None by auto
      moreover have "(q, c) \<in> (up h)\<^sup>*" using up_chain [OF pq(3) assms(5)] root [of c q] None pq(4) by auto
      ultimately have "p = q" using up_chain [of p c h q] root [of p q] root [of q p] None pq(4) by auto
      with False show ?thesis by simp
    next
      case (Some d)
      then have "(d, p) \<in> up h" "(d, q) \<in> up h" using l pq(4) by (simp_all add: up_def)
      with pq False Some show ?thesis by (intro apart [of p q d]) auto
    qed
  qed
qed

lemma precedes_left_of:
  assumes "forest h" "a < length h" "b < length h" "(c, a) \<in> (up h)\<^sup>*" "(c, b) \<in> (up h)\<^sup>*"
  shows "precedes a b h = Some (left_of h a b)"
  using assms
proof (cases rule: same_parent_cases)
  case (above p)
  have "\<not> left_of h a b"
  proof
    assume "left_of h a b"
    then obtain d i j where d: "d < length h" "i < j" "j < length (nd_children (h ! d))"
      "(nd_children (h ! d) ! i, a) \<in> (up h)\<^sup>*" "(nd_children (h ! d) ! j, b) \<in> (up h)\<^sup>*" by (auto simp: left_of_def)
    let ?x = "nd_children (h ! d) ! i" let ?y = "nd_children (h ! d) ! j"
    have u: "(d, ?x) \<in> up h" "(d, ?y) \<in> up h" "?x \<noteq> ?y" using children_up [OF assms(1) d(1-3)] .
    show False
    proof (cases "p = a")
      case True
      then have "(?x, b) \<in> (up h)\<^sup>*" using rtrancl_trans [OF d(4)] above(3) by simp
      with siblings_disjoint [OF assms(1) u] d(5) show False by blast
    next
      case False
      then have "(?y, a) \<in> (up h)\<^sup>*" using rtrancl_trans [OF d(5)] above(2,4) by simp
      with siblings_disjoint [OF assms(1) u] d(4) show False by blast
    qed
  qed
  with above(1) show ?thesis by (simp add: precedes_def)
next
  case (apart p q d)
  have d: "d < length h" using forestD(3) [OF assms(1) apart(3)] by simp
  let ?cs = "nd_children (h ! d)"
  have dist: "distinct ?cs" by (rule forestD(1) [OF assms(1) d])
  obtain i j where ij: "i < length ?cs" "?cs ! i = p" "j < length ?cs" "?cs ! j = q"
    using forestD(2) [OF assms(1) d] apart(3,4) by (metis in_set_conv_nth)
  have "precedes a b h = Some (i < j)"
    using apart(1,2,7) ij find_child_nth [OF dist ij(1)] find_child_nth [OF dist ij(3)] by (simp add: precedes_def)
  moreover have "left_of h a b \<longleftrightarrow> i < j"
  proof
    assume "left_of h a b"
    then obtain e k l where e: "e < length h" "k < l" "l < length (nd_children (h ! e))"
      "(nd_children (h ! e) ! k, a) \<in> (up h)\<^sup>*" "(nd_children (h ! e) ! l, b) \<in> (up h)\<^sup>*" by (auto simp: left_of_def)
    let ?x = "nd_children (h ! e) ! k" let ?y = "nd_children (h ! e) ! l"
    have u: "(e, ?x) \<in> up h" "(e, ?y) \<in> up h" "?x \<noteq> ?y" using children_up [OF assms(1) e(1-3)] .
    have x: "?x = p" using siblings_unique [OF assms(1) apart(3,4,2,5,6) u e(4,5)] .
    have y: "?y = q"
      using siblings_unique [OF assms(1) apart(4,3) apart(2) [symmetric] apart(6,5) u(2,1) u(3) [symmetric] e(5,4)] .
    have "e = d" using up_inject [of e p h d] u(1) x apart(3) by simp
    then have "k = i" "l = j"
      using x y ij e(2,3) nth_eq_iff_index_eq [OF dist, of k i] nth_eq_iff_index_eq [OF dist, of l j] by simp_all
    with e(2) show "i < j" by simp
  next
    assume "i < j"
    with d ij apart(5,6) show "left_of h a b" by (auto simp: left_of_def)
  qed
  ultimately show ?thesis by simp
qed

lemma common_parent_lowest:
  assumes "forest h" "a < length h" "b < length h" "(c, a) \<in> (up h)\<^sup>*" "(c, b) \<in> (up h)\<^sup>*"
  shows "\<exists>d. common_parent a b h = Some d \<and>
    {x. (x, a) \<in> (up h)\<^sup>* \<and> (x, b) \<in> (up h)\<^sup>*} = {x. (x, d) \<in> (up h)\<^sup>*}"
  using assms
proof (cases rule: same_parent_cases)
  case (above p)
  then have "{x. (x, a) \<in> (up h)\<^sup>* \<and> (x, b) \<in> (up h)\<^sup>*} = {x. (x, p) \<in> (up h)\<^sup>*}"
    using rtrancl_trans [of _ p "up h" a] rtrancl_trans [of _ p "up h" b] by auto
  with above(1) show ?thesis by (simp add: common_parent_def)
next
  case (apart p q d)
  have "(x, d) \<in> (up h)\<^sup>*" if x: "(x, a) \<in> (up h)\<^sup>*" "(x, b) \<in> (up h)\<^sup>*" for x
  proof (cases "(x, p) \<in> (up h)\<^sup>* \<and> x \<noteq> p")
    case True
    then show ?thesis using above_parent [OF apart(3)] by blast
  next
    case False
    then have "(p, x) \<in> (up h)\<^sup>*" using up_chain [OF x(1) apart(5)] by auto
    then have "(p, b) \<in> (up h)\<^sup>*" using x(2) by (rule rtrancl_trans)
    with siblings_disjoint [OF assms(1) apart(3,4,2)] apart(6) show ?thesis by simp
  qed
  moreover have "(x, a) \<in> (up h)\<^sup>*" "(x, b) \<in> (up h)\<^sup>*" if "(x, d) \<in> (up h)\<^sup>*" for x
    using that apart(3-6) by (meson rtrancl.rtrancl_into_rtrancl rtrancl_trans)+
  ultimately have "{x. (x, a) \<in> (up h)\<^sup>* \<and> (x, b) \<in> (up h)\<^sup>*} = {x. (x, d) \<in> (up h)\<^sup>*}" by auto
  with apart(1,2,7) show ?thesis by (simp add: common_parent_def)
qed

subsection \<open>Properties\<close>

text \<open>C28: on a forest \<open>size\<close> and \<open>tree_height\<close> return, the first with the number of the nodes
  below the node, each counted once, the second with the height of its tree; the tree is the one that
  \<open>traverse\<close> walks in preorder.\<close>

theorem tree_measures:
  assumes "forest h" "a < length h"
  shows "tree_size a h = Some (card {b. (a, b) \<in> (up h)\<^sup>*}) \<and>
    (\<exists>t. root t = a \<and> holds h t \<and> distinct (preorder t) \<and> set (preorder t) = {b. (a, b) \<in> (up h)\<^sup>*} \<and>
      tree_height a h = Some (height t))"
proof -
  obtain t where t: "root t = a" "holds h t" using forest_holds [OF assms] by auto
  have p: "distinct (preorder t)" "set (preorder t) = {b. (a, b) \<in> (up h)\<^sup>*}"
    using preorder_distinct [OF assms(1) t(2)] holds_reach [OF assms(1) t(2)] t(1) assms(2) by simp_all
  with tree_size_preorder [OF t(2)] tree_height_height [OF t(2)] t distinct_card [OF p(1)] show ?thesis by auto
qed

theorem tree_measures_witness: "\<exists>n. tree_size 0 sample_ast = Some n \<and> n = card {b. (0, b) \<in> (up sample_ast)\<^sup>*}"
  using tree_measures [of sample_ast 0] sample_ast_ok sample_ast_eval(3) by (simp add: tree_ok_def)



text \<open>The flag is not taken back when the errors below are removed, and then hides an error.\<close>

theorem stale_flag_hides_error:
  assumes "tree_ok h" "a < length h" "nd_type (h ! a) = Error" "nd_children (h ! a) = [n]" "nd_type (h ! n) = Error"
  shows "\<not> error_below (snd (pop_back a h)) a \<and> (\<exists>h'. get_errors a (snd (pop_back a h), []) = Some (h', []))"
proof -
  let ?h = "snd (pop_back a h)"
  have f: "forest h" using assms(1) by (simp add: tree_ok_def)
  have ok: "tree_ok ?h" by (rule pop_back_ok [OF assms(1,2)])
  have c: "(a, n) \<in> up h" using forestD(2) [OF f assms(2), of n] assms(4) by simp
  then have na: "n \<noteq> a" "n < length h" using forestD(3,4) [OF f] by (auto simp: acyclic_def)
  have "contains_error (nd_flags (h ! a))" using assms(1,5) c by (auto simp: tree_ok_def flags_sound_def marked_def)
  then have a: "nd_children (?h ! a) = []" "contains_error (nd_flags (?h ! a))" "length ?h = length h"
    using assms(2,4) na by (simp_all add: pop_back_def orphan_def set_children_def set_parent_def nth_update Let_def)
  have "\<not> (a, x) \<in> up ?h" for x using forestD(2) [of ?h a x] ok a assms(2) by (auto simp: tree_ok_def)
  then have "\<not> error_below ?h a" by (auto simp: error_below_def dest: tranclD)
  moreover obtain t h' where t: "root t = a" "holds ?h t"
    "get_errors a (?h, []) = Some (h', filter (innermost_error ?h) (preorder t))"
    using get_errors_preorder [OF ok, of a] assms(2) a(3) by auto
  have "preorder t = [a]" using t(1,2) a(1) by (cases t) simp
  ultimately show ?thesis using t(3) a(2) by (simp add: innermost_error_def)
qed

text \<open>C24: for two nodes of one tree, \<open>common_parent\<close> returns their lowest common ancestor, and
  \<open>precedes\<close> answers whether the first is left of the second: below an earlier child of a common
  ancestor. No access goes through a null pointer.\<close>

theorem precedes_common:
  assumes "forest h" "a < length h" "b < length h" "(c, a) \<in> (up h)\<^sup>*" "(c, b) \<in> (up h)\<^sup>*"
  shows "precedes a b h = Some (left_of h a b) \<and>
    (\<exists>d. common_parent a b h = Some d \<and>
      {x. (x, a) \<in> (up h)\<^sup>* \<and> (x, b) \<in> (up h)\<^sup>*} = {x. (x, d) \<in> (up h)\<^sup>*})"
  using precedes_left_of [OF assms] common_parent_lowest [OF assms] by blast

theorem precedes_common_witness: "\<exists>d. precedes 0 1 sample_ast = Some (left_of sample_ast 0 1) \<and>
    common_parent 0 1 sample_ast = Some d \<and>
    {x. (x, 0) \<in> (up sample_ast)\<^sup>* \<and> (x, 1) \<in> (up sample_ast)\<^sup>*} = {x. (x, d) \<in> (up sample_ast)\<^sup>*}"
  using precedes_common [of sample_ast 0 1 0] sample_ast_ok sample_ast_eval(3) by (auto simp: tree_ok_def sample_ast_up)

end
