(* ===== verification/AstSymbols.thy ===== *)
theory AstSymbols
  imports AstOrder
begin

text \<open>
  The symbol tables of \<open>Ast\<close>: \<open>scope\<close> finds the nearest node above that has one, \<open>lookup\<close> goes
  through the enclosing ones from the inside, and what \<open>bind\<close> enters \<open>look\<close> finds.
\<close>

subsection \<open>Scopes\<close>

lemma first_up_nearest:
  assumes "forest h"
  shows "a < length h \<Longrightarrow> level h a \<le> n \<Longrightarrow>
    (case first_up test n (nd_parent (h ! a)) h of
       None \<Rightarrow> \<forall>x. (x, a) \<in> (up h)\<^sup>+ \<longrightarrow> \<not> test x
     | Some s \<Rightarrow> (s, a) \<in> (up h)\<^sup>+ \<and> test s \<and> (\<forall>x. (x, a) \<in> (up h)\<^sup>+ \<longrightarrow> test x \<longrightarrow> (x, s) \<in> (up h)\<^sup>*))"
proof (induction n arbitrary: a)
  case 0
  then show ?case using level_pos [of h a] by simp
next
  case (Suc n)
  show ?case
  proof (cases "nd_parent (h ! a)")
    case None
    then have "\<not> (x, a) \<in> (up h)\<^sup>+" for x by (auto simp: up_def elim: tranclE)
    then show ?thesis using None by simp
  next
    case (Some p)
    then have u: "(p, a) \<in> up h" using Suc.prems(1) by (simp add: up_def)
    have split: "(x, a) \<in> (up h)\<^sup>+ \<longleftrightarrow> x = p \<or> (x, p) \<in> (up h)\<^sup>+" for x
    proof
      assume "(x, a) \<in> (up h)\<^sup>+"
      then show "x = p \<or> (x, p) \<in> (up h)\<^sup>+" by (cases rule: tranclE) (auto dest: up_inject [OF u])
    qed (use u in \<open>auto intro: trancl_into_trancl\<close>)
    show ?thesis
    proof (cases "test p")
      case True
      then show ?thesis using Some split by (auto simp: trancl_into_rtrancl)
    next
      case False
      have "level h p \<le> n" "p < length h" using level_child [OF assms u] Suc.prems(2) forestD(3) [OF assms u] by auto
      with Suc.IH [of p] show ?thesis using Some False split by (auto split: option.splits)
    qed
  qed
qed

lemma scope_nearest:
  assumes "forest h" "a < length h"
  shows "case scope a h of
       None \<Rightarrow> \<forall>x. (x, a) \<in> (up h)\<^sup>+ \<longrightarrow> nd_symtab (h ! x) = None
     | Some s \<Rightarrow> (s, a) \<in> (up h)\<^sup>+ \<and> nd_symtab (h ! s) \<noteq> None \<and>
         (\<forall>x. (x, a) \<in> (up h)\<^sup>+ \<longrightarrow> nd_symtab (h ! x) \<noteq> None \<longrightarrow> (x, s) \<in> (up h)\<^sup>*)"
  using first_up_nearest [OF assms level_bound [OF assms], of "\<lambda>p. nd_symtab (h ! p) \<noteq> None"]
  by (simp only: scope_def not_not)

lemma level_above:
  assumes "forest h" "(x, a) \<in> (up h)\<^sup>+"
  shows "level h x < level h a"
  using assms(2) by (induction rule: trancl_induct) (auto dest: level_child [OF assms(1)])

text \<open>The nodes with a symbol table above \<open>a\<close>, from the inside.\<close>

definition enclosing :: "ast \<Rightarrow> nat \<Rightarrow> nat list \<Rightarrow> bool" where
  "enclosing h a ss \<longleftrightarrow> set ss = {s. (s, a) \<in> (up h)\<^sup>+ \<and> nd_symtab (h ! s) \<noteq> None} \<and>
     sorted_wrt (\<lambda>x y. (y, x) \<in> (up h)\<^sup>+) ss"

text \<open>\<open>lookup\<close> as a recursion over the enclosing scopes.\<close>

fun gather :: "ast \<Rightarrow> nat \<Rightarrow> bytes \<Rightarrow> nat option \<Rightarrow> nat list \<Rightarrow> nat list \<Rightarrow> ast_error + nat list" where
  "gather h a loc until result [] = Inr result"
| "gather h a loc until result (s # ss) =
     (if \<exists>m \<in> set (look s loc h). found_in_scope a s m h = None then Inl NullNode
      else
        let result = result @ filter (\<lambda>m. found_in_scope a s m h = Some True) (look s loc h) @ symtab_includes s h
        in if Some s = until \<or> (\<exists>m \<in> set result. has (nd_type (h ! m)) flag_shadowing) then Inr result
           else gather h a loc until result ss)"

lemma table_key_look: "table_key s (Inr k) h = Inr loc \<Longrightarrow> look s loc h = look s k h"
  by (auto simp: table_key_def look_def get_symbols_def split: option.splits if_splits)

lemma table_key_Inr: "\<exists>loc. table_key s (Inr k) h = Inr loc"
  by (simp add: table_key_def split: option.split)

lemma get_symbols_look: "get_symbols s loc result f h = result @ filter f (look s loc h)"
  by (simp add: get_symbols_def look_def split: option.split)

lemma lookup_loop_gather:
  assumes "forest h"
  shows "b < length h \<Longrightarrow> level h b \<le> n \<Longrightarrow>
    \<exists>ss. enclosing h b ss \<and> (\<forall>r. lookup_loop n a (Inr loc) until (scope b h) r h = gather h a loc until r ss)"
proof (induction n arbitrary: b)
  case 0
  then show ?case using level_pos [of h b] by simp
next
  case (Suc n)
  show ?case
  proof (cases "scope b h")
    case None
    then have "enclosing h b []" using scope_nearest [OF assms Suc.prems(1)] by (auto simp: enclosing_def)
    then show ?thesis using None by (intro exI [of _ "[]"]) simp
  next
    case (Some s)
    then have s: "(s, b) \<in> (up h)\<^sup>+" "nd_symtab (h ! s) \<noteq> None"
      "(x, b) \<in> (up h)\<^sup>+ \<Longrightarrow> nd_symtab (h ! x) \<noteq> None \<Longrightarrow> (x, s) \<in> (up h)\<^sup>*" for x
      using scope_nearest [OF assms Suc.prems(1)] by auto
    have l: "s < length h" "level h s \<le> n"
      using level_above [OF assms s(1)] above_bounded [OF assms trancl_into_rtrancl [OF s(1)] Suc.prems(1)] Suc.prems(2) by auto
    obtain ss where ss: "enclosing h s ss" "\<forall>r. lookup_loop n a (Inr loc) until (scope s h) r h = gather h a loc until r ss"
      using Suc.IH [OF l] by auto
    have "{x. (x, b) \<in> (up h)\<^sup>+ \<and> nd_symtab (h ! x) \<noteq> None} =
        insert s {x. (x, s) \<in> (up h)\<^sup>+ \<and> nd_symtab (h ! x) \<noteq> None}" (is "?l = ?r")
    proof
      show "?l \<subseteq> ?r" using s(3) by (auto simp: rtrancl_eq_or_trancl)
      show "?r \<subseteq> ?l" using s(1,2) by (auto intro: trancl_trans)
    qed
    with ss(1) have "enclosing h b (s # ss)" by (auto simp: enclosing_def)
    moreover obtain k where k: "table_key s (Inr loc) h = Inr k" "look s k h = look s loc h"
      using table_key_Inr table_key_look by blast
    then have "lookup_loop (Suc n) a (Inr loc) until (scope b h) r h = gather h a loc until r (s # ss)" for r
      using ss(2) Some
      by (cases "\<exists>m \<in> set (look s loc h). found_in_scope a s m h = None")
        (simp_all add: get_symbols_look Let_def list_ex_iff del: not_None_eq)
    ultimately show ?thesis by blast
  qed
qed

subsection \<open>What a lookup should find\<close>

text \<open>The nodes that a table holds under a name, in order, and its includes.\<close>

definition bound_in :: "ast \<Rightarrow> nat \<Rightarrow> bytes \<Rightarrow> nat list" where
  "bound_in h s k =
     (case nd_symtab (h ! s) of
        None \<Rightarrow> []
      | Some st \<Rightarrow> concat (map snd (filter (\<lambda>e. fst e = k) (st_symbols st))))"

definition included_in :: "ast \<Rightarrow> nat \<Rightarrow> nat list" where
  "included_in h s = (case nd_symtab (h ! s) of None \<Rightarrow> [] | Some st \<Rightarrow> st_includes st)"

text \<open>A definition that can be found from \<open>a\<close>: one that is there for lookups, and left of \<open>a\<close> where the type of
  the table asks for definitions before uses.\<close>

definition visible :: "ast \<Rightarrow> nat \<Rightarrow> nat \<Rightarrow> nat \<Rightarrow> bool" where
  "visible h a s m \<longleftrightarrow> has (nd_type (h ! m)) flag_lookup \<and>
     (has (nd_type (h ! s)) flag_defbeforeuse \<longrightarrow> left_of h m a)"

definition collected :: "ast \<Rightarrow> nat \<Rightarrow> bytes \<Rightarrow> nat list \<Rightarrow> nat list" where
  "collected h a k ss = concat (map (\<lambda>s. filter (visible h a s) (bound_in h s k) @ included_in h s) ss)"

text \<open>Having gone through the tables \<open>ss\<close>, the lookup goes no further.\<close>

definition stops :: "ast \<Rightarrow> nat \<Rightarrow> bytes \<Rightarrow> nat option \<Rightarrow> nat list \<Rightarrow> bool" where
  "stops h a k until ss \<longleftrightarrow> ss \<noteq> [] \<and>
     (until = Some (last ss) \<or> (\<exists>m \<in> set (collected h a k ss). has (nd_type (h ! m)) flag_shadowing))"

definition keys_distinct :: "ast \<Rightarrow> bool" where
  "keys_distinct h \<longleftrightarrow> (\<forall>s < length h. \<forall>st. nd_symtab (h ! s) = Some st \<longrightarrow> distinct (map fst (st_symbols st)))"

text \<open>The nodes bound to a name in the tables around \<open>a\<close> are in the tree of \<open>a\<close>.\<close>

definition bound_in_tree :: "ast \<Rightarrow> nat \<Rightarrow> bytes \<Rightarrow> bool" where
  "bound_in_tree h a k \<longleftrightarrow> (\<forall>s m. (s, a) \<in> (up h)\<^sup>+ \<and> m \<in> set (bound_in h s k) \<longrightarrow>
     m < length h \<and> (\<exists>c. (c, m) \<in> (up h)\<^sup>* \<and> (c, a) \<in> (up h)\<^sup>*))"

lemma map_of_entries:
  "distinct (map fst m) \<Longrightarrow> concat (map snd (filter (\<lambda>e. fst e = k) m)) = (case map_of m k of None \<Rightarrow> [] | Some vs \<Rightarrow> vs)"
proof (induction m)
  case (Cons e m)
  have "map_of m k = None" if "fst e = k" using Cons.prems that by (force simp: map_of_eq_None_iff)
  with Cons show ?case by (cases e) auto
qed simp

lemma look_bound: "keys_distinct h \<Longrightarrow> s < length h \<Longrightarrow> look s k h = bound_in h s k"
  by (auto simp: keys_distinct_def look_def get_symbols_def bound_in_def map_of_entries split: option.split)

lemma found_visible:
  assumes "forest h" "a < length h" "m < length h" "(c, m) \<in> (up h)\<^sup>*" "(c, a) \<in> (up h)\<^sup>*"
  shows "found_in_scope a s m h = Some (visible h a s m)"
  using precedes_left_of [OF assms(1,3,2,4,5)] by (simp add: found_in_scope_def visible_def)

lemma gather_collects:
  assumes "\<And>s m. s \<in> set ss \<Longrightarrow> m \<in> set (look s k h) \<Longrightarrow> found_in_scope a s m h = Some (visible h a s m)"
    and "\<And>s. s \<in> set ss \<Longrightarrow> look s k h = bound_in h s k"
  shows "\<exists>p q. ss = p @ q \<and> gather h a k until r ss = Inr (r @ collected h a k p) \<and>
    (q \<noteq> [] \<longrightarrow> p \<noteq> [] \<and> (until = Some (last p) \<or> (\<exists>m \<in> set (r @ collected h a k p). has (nd_type (h ! m)) flag_shadowing))) \<and>
    (\<forall>n. 0 < n \<and> n < length p \<longrightarrow> until \<noteq> Some (last (take n p)) \<and>
       (\<forall>m \<in> set (r @ collected h a k (take n p)). \<not> has (nd_type (h ! m)) flag_shadowing))"
  using assms
proof (induction ss arbitrary: r)
  case Nil
  then show ?case by (simp add: collected_def)
next
  case (Cons s ss)
  let ?r = "r @ collected h a k [s]"
  have f: "filter (\<lambda>m. found_in_scope a s m h = Some True) (look s k h) = filter (visible h a s) (bound_in h s k)"
    using Cons.prems by (auto intro!: filter_cong)
  have g: "gather h a k until r (s # ss) = (if Some s = until \<or> (\<exists>m \<in> set ?r. has (nd_type (h ! m)) flag_shadowing) then Inr ?r
      else gather h a k until ?r ss)"
    using Cons.prems(1) f by (auto simp: Let_def collected_def symtab_includes_def included_in_def)
  show ?case
  proof (cases "Some s = until \<or> (\<exists>m \<in> set ?r. has (nd_type (h ! m)) flag_shadowing)")
    case True
    then show ?thesis using g by - (rule exI [of _ "[s]"], rule exI [of _ ss], auto simp del: gather.simps)
  next
    case False
    from Cons.IH [of ?r] Cons.prems obtain p q where i: "ss = p @ q" "gather h a k until ?r ss = Inr (?r @ collected h a k p)"
      "q \<noteq> [] \<longrightarrow> p \<noteq> [] \<and> (until = Some (last p) \<or> (\<exists>m \<in> set (?r @ collected h a k p). has (nd_type (h ! m)) flag_shadowing))"
      "\<forall>n. 0 < n \<and> n < length p \<longrightarrow> until \<noteq> Some (last (take n p)) \<and>
         (\<forall>m \<in> set (?r @ collected h a k (take n p)). \<not> has (nd_type (h ! m)) flag_shadowing)" by auto
    have c: "?r @ collected h a k xs = r @ collected h a k (s # xs)" for xs by (simp add: collected_def)
    have "until \<noteq> Some (last (take n (s # p))) \<and>
        (\<forall>m \<in> set (r @ collected h a k (take n (s # p))). \<not> has (nd_type (h ! m)) flag_shadowing)"
      if n: "0 < n" "n < length (s # p)" for n
    proof (cases "n = 1")
      case True
      with False show ?thesis by auto
    next
      case nn: False
      define j where "j = n - 1"
      have j: "n = Suc j" "0 < j" "j < length p" using n nn by (auto simp: j_def)
      then have "take j p \<noteq> []" by auto
      with i(4) j show ?thesis unfolding c by (simp add: j(1))
    qed
    then have "\<forall>n. 0 < n \<and> n < length (s # p) \<longrightarrow> until \<noteq> Some (last (take n (s # p))) \<and>
        (\<forall>m \<in> set (r @ collected h a k (take n (s # p))). \<not> has (nd_type (h ! m)) flag_shadowing)" by blast
    moreover have "q \<noteq> [] \<longrightarrow> s # p \<noteq> [] \<and> (until = Some (last (s # p)) \<or>
        (\<exists>m \<in> set (r @ collected h a k (s # p)). has (nd_type (h ! m)) flag_shadowing))"
      using i(3) unfolding c by auto
    moreover have "gather h a k until r (s # ss) = Inr (r @ collected h a k (s # p))" using g False i(2) unfolding c by simp
    ultimately show ?thesis using i(1) 
      by - (rule exI [of _ "s # p"], rule exI [of _ q], simp del: gather.simps)
  qed
qed

subsection \<open>Binding\<close>

lemma sym_push_keys: "set (map fst (sym_push k v m)) = insert k (set (map fst m))"
  by (induction k v m rule: sym_push.induct) auto

lemma sym_push_sorted: "sorted_wrt (<) (map fst m) \<Longrightarrow> sorted_wrt (<) (map fst (sym_push k v m))"
proof (induction k v m rule: sym_push.induct)
  case (2 k v k' vs m)
  have "\<forall>x \<in> set (map fst (sym_push k v m)). k' < x" if "\<not> k < k'" "k \<noteq> k'"
    using 2(2) that unfolding sym_push_keys by auto
  then show ?case using 2 by (auto intro: less_trans)
qed simp

lemma sym_push_map:
  "sorted_wrt (<) (map fst m) \<Longrightarrow>
    map_of (sym_push k v m) = (map_of m)(k \<mapsto> (case map_of m k of None \<Rightarrow> [] | Some vs \<Rightarrow> vs) @ [v])"
proof (induction k v m rule: sym_push.induct)
  case (2 k v k' vs m)
  have "map_of m k = None" if "k < k'"
    using 2(2) that by (fastforce simp: map_of_eq_None_iff dest: less_trans)
  then show ?case using 2 by (auto simp: fun_eq_iff)
qed auto

lemma look_set_symtab:
  "s < length h \<Longrightarrow> look s k (set_symtab s st h) = (case map_of (st_symbols st) k of None \<Rightarrow> [] | Some vs \<Rightarrow> vs)"
  by (simp add: look_def get_symbols_def set_symtab_def nth_update split: option.split)

lemma look_symtab:
  "nd_symtab (h ! s) = Some st \<Longrightarrow> look s k h = (case map_of (st_symbols st) k of None \<Rightarrow> [] | Some vs \<Rightarrow> vs)"
  by (simp add: look_def get_symbols_def split: option.split)

subsection \<open>Properties of the symbol tables\<close>


text \<open>A file below \<open>Top\<close>, which has the table.\<close>

definition sample_scope :: ast where
  "sample_scope = push_back 0 (Some 1) (snd (create File (snd (create Top []))))"

definition sample_name :: location where "sample_name = location_of_string 7 (lit ''x'')"

text \<open>A table with a definition of \<open>x\<close> and a use of it after it.\<close>

definition sample_def :: token_def where
  "sample_def = \<lparr>tok_name = lit ''def'', tok_fl = flag_lookup, default_map_id = 104\<rparr>"

definition sample_table :: ast where
  "sample_table =
     [(make_node Top no_location)\<lparr>nd_symtab := Some (make_symtab\<lparr>st_symbols := [(lit ''x'', [1])]\<rparr>), nd_children := [1, 2]\<rparr>,
      (make_node sample_def sample_name)\<lparr>nd_parent := Some 0\<rparr>,
      (make_node File sample_name)\<lparr>nd_parent := Some 0\<rparr>]"

lemma sample_name_view: "view sample_name = Inr (lit ''x'')"
  by (simp add: view_def sample_name_def location_of_string_def synthetic_def substr_def size_sub_def make_source_def
    find_lines_def size_mod_def)

lemma sample_table_up: "up sample_table = {(0, 1), (0, 2)}"
proof -
  have "nd_parent (sample_table ! a) = (if a = 0 then None else Some 0)" if "a < 3" for a
    using that by (cases a) (auto simp: sample_table_def make_node_def nth_Cons split: nat.splits)
  moreover have "length sample_table = 3" by (simp add: sample_table_def)
  ultimately show ?thesis by (auto simp: up_def split: if_splits)
qed

lemma sample_table_ok: "forest sample_table" "keys_distinct sample_table"
proof -
  have l: "length sample_table = 3" by (simp add: sample_table_def)
  have c: "nd_children (sample_table ! a) = (if a = 0 then [1, 2] else [])" if "a < 3" for a
    using that by (cases a) (auto simp: sample_table_def make_node_def nth_Cons split: nat.splits)
  have "acyclic {(0 :: nat, 1 :: nat), (0, 2)}"
    by (rule acyclic_subset [OF wf_acyclic [OF wf_less]]) auto
  then show "forest sample_table" using c l by (auto simp: forest_def sample_table_up)
  have "\<forall>nd \<in> set sample_table. \<forall>st. nd_symtab nd = Some st \<longrightarrow> distinct (map fst (st_symbols st))"
    by (simp add: sample_table_def make_node_def make_symtab_def)
  then show "keys_distinct sample_table" unfolding keys_distinct_def using nth_mem by blast
qed


text \<open>C26: \<open>bind\<close> appends the node to the entry of the name in the innermost enclosing table, where \<open>look\<close>
  finds it after the nodes bound before; the entries of all other names, the includes and the other fields of the
  table, the rest of its node and all other nodes are as before. The result says that the node is the only one
  under the name, or that none of them shadows.\<close>

theorem bind_look:
  assumes "scope a h = Some s" "s < length h" "nd_symtab (h ! s) = Some st" "sorted_wrt (<) (map fst (st_symbols st))"
    and "view loc = Inr k"
  shows "\<exists>m ok h'. bind a loc h = Inr (ok, h') \<and>
    h' = h[s := (h ! s)\<lparr>nd_symtab := Some (st\<lparr>st_symbols := m\<rparr>)\<rparr>] \<and>
    sorted_wrt (<) (map fst m) \<and> map_of m = (map_of (st_symbols st))(k \<mapsto> look s k h @ [a]) \<and>
    (\<forall>k'. look s k' h' = look s k' h @ (if k' = k then [a] else [])) \<and>
    (ok \<longleftrightarrow> look s k h = [] \<or> (\<forall>n \<in> set (look s k h @ [a]). \<not> has (nd_type (h ! n)) flag_shadowing))"
proof -
  let ?st = "st\<lparr>st_symbols := sym_push k a (st_symbols st)\<rparr>"
  let ?h = "set_symtab s ?st h"
  let ?entry = "the (map_of (sym_push k a (st_symbols st)) k)"
  have entry: "?entry = look s k h @ [a]"
    using assms(3) by (simp add: sym_push_map [OF assms(4)] look_symtab)
  have types: "nd_type (?h ! m) = nd_type (h ! m)" for m
    using assms(2) by (simp add: set_symtab_def nth_update)
  have "bind a loc h = Inr (length ?entry = 1 \<or> \<not> list_ex (\<lambda>m. has (nd_type (?h ! m)) flag_shadowing) ?entry, ?h)"
    using assms(1,3,5) by (simp add: bind_def Let_def)
  also have "\<dots> = Inr (look s k h = [] \<or> (\<forall>m \<in> set (look s k h @ [a]). \<not> has (nd_type (h ! m)) flag_shadowing), ?h)"
    unfolding entry types by (auto simp: list_ex_iff)
  finally have b: "bind a loc h = \<dots>" .
  have "look s k' ?h = look s k' h @ (if k' = k then [a] else [])" for k'
    using assms(2,3) by (simp add: look_set_symtab look_symtab sym_push_map [OF assms(4)])
  moreover have "?h = h[s := (h ! s)\<lparr>nd_symtab := Some ?st\<rparr>]" by (simp add: set_symtab_def update_def)
  moreover have "map_of (sym_push k a (st_symbols st)) = (map_of (st_symbols st))(k \<mapsto> look s k h @ [a])"
    by (simp add: sym_push_map [OF assms(4)] look_symtab [OF assms(3)])
  ultimately show ?thesis using b sym_push_sorted [OF assms(4), of k a] by blast
qed

theorem bind_look_witness: "\<exists>h'. bind 1 sample_name sample_scope = Inr (True, h') \<and> look 0 (lit ''x'') h' = [1]"
proof -
  have t: "has Top flag_symtab" "File \<noteq> Error" "File \<noteq> Lift" "\<not> contains_error 0" "\<not> contains_lift 0" by (code_simp, code_simp, code_simp, code_simp, code_simp)
  have h: "nd_parent (sample_scope ! 1) = Some 0" "length sample_scope = 2" "nd_symtab (sample_scope ! 0) = Some make_symtab"
    using t
    by (simp_all add: sample_scope_def create_def create_at_def make_node_def push_back_def adopt_def add_flags_def set_up.simps
      set_parent_def set_children_def update_def Let_def)
  moreover have "view sample_name = Inr (lit ''x'')" by (simp add: view_def sample_name_def location_of_string_def synthetic_def substr_def size_sub_def make_source_def find_lines_def size_mod_def)
  moreover have "scope 1 sample_scope = Some 0"
    using h(1) by (simp add: scope_def h(2,3) numeral_2_eq_2)
  moreover have e: "look 0 (lit ''x'') sample_scope = []"
    by (simp add: look_def get_symbols_def h make_symtab_def)
  moreover have "sorted_wrt (<) (map fst (st_symbols make_symtab))"
    by (simp add: make_symtab_def)
  ultimately have pre: "scope 1 sample_scope = Some 0" "0 < length sample_scope" "nd_symtab (sample_scope ! 0) = Some make_symtab"
    "sorted_wrt (<) (map fst (st_symbols make_symtab))" "view sample_name = Inr (lit ''x'')" by simp_all
  obtain ok h' where b: "bind 1 sample_name sample_scope = Inr (ok, h')"
    "\<forall>k'. look 0 k' h' = look 0 k' sample_scope @ (if k' = lit ''x'' then [1] else [])"
    "ok = (look 0 (lit ''x'') sample_scope = [] \<or>
      (\<forall>m \<in> set (look 0 (lit ''x'') sample_scope @ [1]). \<not> has (nd_type (sample_scope ! m)) flag_shadowing))"
    using bind_look [OF pre] by (elim exE conjE) (rule that)
  from b(2) e have "look 0 (lit ''x'') h' = [1]" by simp
  with b(1,3) e show ?thesis by auto
qed

end
