(* ===== verification/PassRules.thy ===== *)
theory PassRules
  imports PassDef AstSymbols
begin

text \<open>
  What \<open>PassDef\<close> of \<open>include/trieste/pass.h\<close> relies on and what a run of it delivers.

  The table of rules is a cache: \<open>table_holds\<close> says which rules it lists for a parent and a start, and
  since the summary of a pattern is sound, no rule that could fire is missing and the order is kept. When a
  round of \<open>apply\<close> has counted no change, nothing was changed and no rule fires at any position that the
  round has visited; \<open>run\<close> only stops after such a round.
\<close>

subsection \<open>What the table holds\<close>

text \<open>How often a rule is in the list for a parent and a start: once if its summary leaves both open, and
  otherwise once for every token of the summary in the same place of the table.\<close>

definition same_place :: "token_def \<Rightarrow> token_def list \<Rightarrow> nat" where
  "same_place t ts = length (filter (\<lambda>s. token_index s = token_index t) ts)"

definition start_copies :: "token_def \<Rightarrow> rule \<Rightarrow> nat" where
  "start_copies t r = (let f = snd (fst r) in if starts f = [] \<or> pass_through f then 1 else same_place t (starts f))"

definition parent_copies :: "token_def \<Rightarrow> rule \<Rightarrow> nat" where
  "parent_copies p r = (let f = snd (fst r) in if parents f = [] then 1 else same_place p (parents f))"

lemma foldl_modify: "foldl (\<lambda>dm s. modify s f dm) dm ss = foldl (\<lambda>dm u. apply_update u dm) dm (map (\<lambda>s. Modify s f) ss)"
  by (induction ss arbitrary: dm) simp_all

lemma updates_ok: "dm_ok dm \<Longrightarrow> dm_ok (foldl (\<lambda>dm u. apply_update u dm) dm us)"
  by (induction us arbitrary: dm) simp_all

lemma concerns_modify: "concat (map (in_place t) (map (\<lambda>s. Modify s f) ss)) = replicate (same_place t ss) f"
  by (induction ss) (simp_all add: same_place_def)

lemma modify_all_sel: "dm_map (modify_all f dm) = map (map_option f) (dm_map dm)" "dm_def (modify_all f dm) = f (dm_def dm)"
  "dm_empty (modify_all f dm) = False"
  by (simp_all add: modify_all_def)

lemma clear_sel: "dm_map (clear c dm) = map (\<lambda>_. None) (dm_map dm)" "dm_def (clear c dm) = c (dm_def dm)" "dm_empty (clear c dm)"
  by (simp_all add: clear_def)

lemma make_default_map_sel: "dm_def (make_default_map d) = d"
  by (simp add: make_default_map_def)

lemma modify_all_get: "dm_ok dm \<Longrightarrow> in_table t \<Longrightarrow> dm_ok (modify_all f dm) \<and> get (modify_all f dm) t = f (get dm t)"
  using apply_update_get [of dm t "ModifyAll f"] apply_update_ok [of "ModifyAll f" dm] by simp

lemma foldl_modify_get:
  assumes "dm_ok dm" "in_table t"
  shows "dm_ok (foldl (\<lambda>dm s. modify s f dm) dm ss) \<and> get (foldl (\<lambda>dm s. modify s f dm) dm ss) t = (f ^^ same_place t ss) (get dm t)"
proof -
  have "foldl (\<lambda>v f. f v) v (replicate n f) = (f ^^ n) v" for n v
    by (induction n arbitrary: v) (simp_all add: funpow_swap1)
  then show ?thesis unfolding foldl_modify
    using updates_ok [OF assms(1)] updates_get [OF assms, of "map (\<lambda>s. Modify s f) ss"] by (simp del: map_map add: concerns_modify)
qed

lemma foldl_modify_default: "dm_def (foldl (\<lambda>m s. modify s f m) m ss) = dm_def m"
  by (induction ss arbitrary: m) (simp_all add: modify_def Let_def)

lemma push_rule_pow: "(push_rule r ^^ n) v = v @ replicate n r"
  by (induction n) (simp_all add: push_rule_def replicate_append_same)

lemma add_rule_ok: "dm_ok rules \<Longrightarrow> dm_ok (add_rule r rules)"
  by (simp add: add_rule_def Let_def foldl_modify updates_ok) (simp add: dm_ok_def modify_all_sel)

lemma add_rule_get:
  assumes "dm_ok rules" "in_table t"
  shows "get (add_rule r rules) t = get rules t @ replicate (start_copies t r) r"
  using foldl_modify_get [OF assms, of "push_rule r" "starts (snd (fst r))"] modify_all_get [OF assms, of "push_rule r"]
  by (simp add: add_rule_def start_copies_def Let_def push_rule_pow push_rule_def)

lemma add_rule_nonempty: "\<not> dm_empty (add_rule r rules)"
proof -
  have "\<not> dm_empty (foldl (\<lambda>dm s. modify s f dm) dm ss)" if "\<not> dm_empty dm" for f :: "rule list \<Rightarrow> rule list" and dm ss
    using that by (induction ss arbitrary: dm) (simp_all add: modify_def Let_def)
  then show ?thesis
    by (cases "starts (snd (fst r))") (simp_all add: add_rule_def modify_all_def modify_def Let_def)
qed

lemma add_rule_pow:
  assumes "dm_ok rules"
  shows "dm_ok ((add_rule r ^^ n) rules)"
    "in_table t \<Longrightarrow> get ((add_rule r ^^ n) rules) t = get rules t @ replicate (n * start_copies t r) r"
    "dm_empty ((add_rule r ^^ n) rules) \<longleftrightarrow> n = 0 \<and> dm_empty rules"
proof -
  show ok: "dm_ok ((add_rule r ^^ n) rules)" for n using assms by (induction n) (simp_all add: add_rule_ok)
  show "in_table t \<Longrightarrow> get ((add_rule r ^^ n) rules) t = get rules t @ replicate (n * start_copies t r) r"
    by (induction n) (simp_all add: add_rule_get [OF ok] replicate_add [symmetric] add.commute)
  show "dm_empty ((add_rule r ^^ n) rules) \<longleftrightarrow> n = 0 \<and> dm_empty rules" by (cases n) (simp_all add: add_rule_nonempty)
qed

text \<open>The list for one parent and start, and a table of tables that holds these lists.\<close>

definition rules_for :: "rule list \<Rightarrow> token_def \<Rightarrow> token_def \<Rightarrow> rule list" where
  "rules_for rs p t = concat (map (\<lambda>r. replicate (parent_copies p r * start_copies t r) r) rs)"

definition table_holds :: "rule list \<Rightarrow> rule_table \<Rightarrow> bool" where
  "table_holds rs tbl \<longleftrightarrow> dm_ok tbl \<and> dm_ok (dm_def tbl) \<and>
     (\<forall>p. in_table p \<longrightarrow> dm_ok (get tbl p) \<and> (dm_empty (get tbl p) \<longrightarrow> (\<forall>r \<in> set rs. parent_copies p r = 0)) \<and>
       (\<forall>t. in_table t \<longrightarrow> get (get tbl p) t = rules_for rs p t))"

lemma add_to_table_holds:
  assumes "table_holds rs tbl"
  shows "table_holds (rs @ [r]) (add_to_table tbl r)"
proof -
  have ok: "dm_ok tbl" "dm_ok (dm_def tbl)" using assms by (simp_all add: table_holds_def)
  have t: "dm_ok (add_to_table tbl r)"
    by (simp add: add_to_table_def Let_def foldl_modify updates_ok ok) (use ok in \<open>simp add: dm_ok_def modify_all_sel\<close>)
  have g: "get (add_to_table tbl r) p = (add_rule r ^^ parent_copies p r) (get tbl p)" if "in_table p" for p
    using foldl_modify_get [OF ok(1) that, of "add_rule r" "parents (snd (fst r))"] modify_all_get [OF ok(1) that, of "add_rule r"]
    by (simp add: add_to_table_def parent_copies_def Let_def)
  have "dm_ok (dm_def (add_to_table tbl r))"
    using ok(2) add_rule_ok [OF ok(2)] by (simp add: add_to_table_def Let_def foldl_modify_default modify_all_sel)
  moreover have "dm_ok (get (add_to_table tbl r) p) \<and>
      (dm_empty (get (add_to_table tbl r) p) \<longrightarrow> (\<forall>r' \<in> set (rs @ [r]). parent_copies p r' = 0)) \<and>
      (\<forall>t. in_table t \<longrightarrow> get (get (add_to_table tbl r) p) t = rules_for (rs @ [r]) p t)" if p: "in_table p" for p
  proof -
    have o: "dm_ok (get tbl p)" "dm_empty (get tbl p) \<longrightarrow> (\<forall>r \<in> set rs. parent_copies p r = 0)"
      "\<forall>t. in_table t \<longrightarrow> get (get tbl p) t = rules_for rs p t" using assms p by (simp_all add: table_holds_def)
    show ?thesis unfolding g [OF p] using add_rule_pow [OF o(1)] o(2,3) by (auto simp: rules_for_def)
  qed
  ultimately show ?thesis using t by (simp add: table_holds_def)
qed

lemma clear_table_holds:
  assumes "dm_ok tbl" "dm_ok (dm_def tbl)"
  shows "table_holds [] (clear_table tbl)"
  using assms
  by (auto simp: table_holds_def clear_table_def clear_sel dm_ok_def get_def in_table_def rules_for_def)

lemma compile_rules_holds:
  assumes "dm_ok (pd_rule_map p)" "dm_ok (dm_def (pd_rule_map p))"
  shows "table_holds (pd_rules p) (pd_rule_map (compile_rules p))" "pd_rules (compile_rules p) = pd_rules p"
proof -
  have "table_holds (rs @ rs') (foldl add_to_table tbl rs')" if "table_holds rs tbl" for rs rs' tbl
    using that
  proof (induction rs' arbitrary: rs tbl)
    case (Cons r rs')
    from Cons.IH [OF add_to_table_holds [OF Cons.prems]] show ?case by simp
  qed simp
  from this [OF clear_table_holds [OF assms]] show "table_holds (pd_rules p) (pd_rule_map (compile_rules p))"
    by (simp add: compile_rules_def)
  show "pd_rules (compile_rules p) = pd_rules p" by (simp add: compile_rules_def)
qed

lemma make_pass_holds: "table_holds rs (pd_rule_map (make_pass dir rs))" "pd_rules (make_pass dir rs) = rs"
proof -
  have e: "dm_ok empty_table" "dm_ok (dm_def empty_table)"
    unfolding empty_table_def make_default_map_sel by (rule make_default_map_ok)+
  define p where "p = \<lparr>pd_direction = dir, pd_rules = rs, pd_rule_map = empty_table, pd_pre_once = None,
      pd_post_once = None, pd_cond_run = None, pd_pre = Map.empty, pd_post = Map.empty\<rparr>"
  have p: "pd_rule_map p = empty_table" "pd_rules p = rs" by (simp_all add: p_def)
  have m: "make_pass dir rs = compile_rules p" unfolding make_pass_def p_def ..
  show "table_holds rs (pd_rule_map (make_pass dir rs))" "pd_rules (make_pass dir rs) = rs"
    using compile_rules_holds [of p] e unfolding m p by simp_all
qed

lemma add_rules_holds:
  assumes "table_holds rs (pd_rule_map p)" "pd_rules p = rs"
  shows "table_holds (rs @ r) (pd_rule_map (add_rules r p))" "pd_rules (add_rules r p) = rs @ r"
  using compile_rules_holds [of "p\<lparr>pd_rules := pd_rules p @ r\<rparr>"] assms by (simp_all add: add_rules_def table_holds_def)

subsection \<open>Whether a pattern matches does not depend on the captures\<close>

definition match_shape :: "match_result \<Rightarrow> (ast_error + bool \<times> nat) option" where
  "match_shape r = map_option (map_sum id (\<lambda>(b, it, m). (b, it))) r"

lemma match_shape_returned [simp]: "match_shape (returned b it m) = Some (Inr (b, it))"
  by (simp add: match_shape_def returned_def)

lemma match_shape_cases:
  "match_shape None = None" "match_shape (Some (Inl e)) = Some (Inl e)" "match_shape (Some (Inr (b, it, m))) = Some (Inr (b, it))"
  "match_shape r = None \<longleftrightarrow> r = None" "match_shape r = Some (Inl e) \<longleftrightarrow> r = Some (Inl e)"
  "match_shape r = Some (Inr (b, it)) \<longleftrightarrow> (\<exists>m. r = Some (Inr (b, it, m)))"
proof -
  show a: "match_shape None = None" "match_shape (Some (Inl e)) = Some (Inl e)" "match_shape (Some (Inr (b, it, m))) = Some (Inr (b, it))"
    for e b it m by (simp_all add: match_shape_def)
  consider "r = None" | e' where "r = Some (Inl e')" | b' it' m' where "r = Some (Inr (b', it', m'))"
    by (metis option.exhaust sum.exhaust prod_cases3)
  then show "match_shape r = None \<longleftrightarrow> r = None" "match_shape r = Some (Inl e) \<longleftrightarrow> r = Some (Inl e)"
    "match_shape r = Some (Inr (b, it)) \<longleftrightarrow> (\<exists>m. r = Some (Inr (b, it, m)))" by (cases; auto simp: a)+
qed

lemma match_shape_then:
  assumes "match_shape r = match_shape r'" "\<And>b it m m'. match_shape (f b it m) = match_shape (g b it m')"
  shows "match_shape (then_match r f) = match_shape (then_match r' g)"
proof (cases r)
  case None
  with assms(1) have "r' = None" by (simp add: match_shape_cases(1)) (metis match_shape_cases(4))
  with None show ?thesis by simp
next
  case (Some x)
  show ?thesis
  proof (cases x)
    case (Inl e)
    with assms(1) Some have "r' = Some (Inl e)" by (simp add: match_shape_cases(2)) (metis match_shape_cases(5))
    with Some Inl show ?thesis by simp
  next
    case (Inr y)
    obtain b it m where y: "y = (b, it, m)" by (cases y)
    with assms(1) Some Inr have "match_shape r' = Some (Inr (b, it))" by (simp add: match_shape_cases(3))
    then obtain m' where "r' = Some (Inr (b, it, m'))" by (auto simp: match_shape_cases(6))
    with Some Inr y assms(2) show ?thesis by simp
  qed
qed

lemma rep_loop_unfold:
  "rep_loop step stop it m = (if it = stop then Some (Inr (True, it, m))
     else (case step it m of None \<Rightarrow> None | Some (Inl e) \<Rightarrow> Some (Inl e)
       | Some (Inr (b, it', m')) \<Rightarrow> if b then rep_loop step stop it' m' else Some (Inr (True, it, m'))))"
  by (subst rep_loop.simps) (auto split: option.splits sum.splits)

lemma rep_loop_again: "it \<noteq> stop \<Longrightarrow> step it m = Some (Inr (True, it', m')) \<Longrightarrow> rep_loop step stop it m = rep_loop step stop it' m'"
  by (subst rep_loop_unfold) simp

lemma rep_loop_last: "it \<noteq> stop \<Longrightarrow> step it m = Some (Inr (False, it', m')) \<Longrightarrow> rep_loop step stop it m = Some (Inr (True, it, m'))"
  by (subst rep_loop_unfold) simp

lemma rep_loop_match_shape:
  assumes "\<And>it m m'. match_shape (step it m) = match_shape (step it m')"
  shows "match_shape (rep_loop step stop it m) = match_shape (rep_loop step stop it m')"
proof -
  have "\<forall>m'. \<exists>r'. rep_loop step stop it m' = Some r' \<and> match_shape (Some r') = match_shape (Some r)"
    if "rep_loop step stop it m = Some r" for it m r
    using that
  proof (induction rule: rep_loop_induct)
    case (stop m)
    then show ?case by (simp add: rep_loop_unfold match_shape_cases)
  next
    case (error it m e)
    have "step it m' = Some (Inl e)" for m' using assms [of it m m'] error(2) by (simp add: match_shape_cases(2)) (metis match_shape_cases(5))
    then show ?case using error(1) by (simp add: rep_loop_unfold [of step stop it])
  next
    case (again it m it1 m1 r)
    have "\<exists>m2. step it m' = Some (Inr (True, it1, m2))" for m'
      using assms [of it m' m] again(2) by (simp add: match_shape_cases)
    then show ?case using again(1,3) by (metis (no_types, lifting) rep_loop_again)
  next
    case (last it m it1 m1)
    have "\<exists>m2. step it m' = Some (Inr (False, it1, m2))" for m'
      using assms [of it m' m] last(2) by (simp add: match_shape_cases)
    then show ?case using last(1) by (metis (no_types, lifting) rep_loop_last match_shape_cases(3))
  qed
  then show ?thesis by (metis option.exhaust)
qed

lemma pmatch_match_shape: "match_shape (pmatch p h it parent m) = match_shape (pmatch p h it parent m')"
proof (induction p arbitrary: h it parent m m' rule: measure_induct_rule [of "size_list size"])
  case (less p)
  note IH = less.IH
  show ?case
  proof (cases p)
    case (Cons a k)
    have k: "match_shape (pmatch k h it parent m) = match_shape (pmatch k h it parent m')" for h it parent m m'
      by (rule IH) (simp add: Cons)
    have sub: "match_shape (pmatch q h it parent m) = match_shape (pmatch q h it parent m')"
      if "size_list size q < size a" for q h it parent m m' by (rule IH) (use that in \<open>simp add: Cons\<close>)
    show ?thesis
    proof (cases a)
      case (Choice cl q r)
      have "match_shape (pmatch q h it parent m) = match_shape (pmatch q h it parent m')"
        "match_shape (pmatch r h it parent m) = match_shape (pmatch r h it parent m')" for m m' by (rule sub; simp add: Choice)+
      then show ?thesis
        by (simp only: Cons Choice pmatch.simps Let_def split: prod.split)
          (intro allI impI match_shape_then, assumption, simp only: if_split_asm match_shape_returned split: if_split, intro conjI impI match_shape_then k, auto intro: k)
    next
      case (Rep q)
      show ?thesis by (simp only: Cons Rep pmatch.simps, intro match_shape_then rep_loop_match_shape sub k) (simp add: Rep)
    qed (use sub k in \<open>auto simp: Cons Let_def intro!: match_shape_then split: prod.split sum.split\<close>)
  qed simp
qed

text \<open>Whether a rule fires at a position: its pattern matches, and no error is in the range.\<close>

definition fires :: "ast \<Rightarrow> nat \<Rightarrow> nat \<Rightarrow> rule \<Rightarrow> bool" where
  "fires h node it r =
     (case pmatch (fst (fst r)) h it node make_match of
        Some (Inr (True, it', m)) \<Rightarrow> \<not> range_contains_error (take (it' - it) (drop it (nd_children (h ! node)))) h
      | _ \<Rightarrow> False)"

lemma fires_pmatch:
  assumes "pmatch (fst (fst r)) h it node m = Some (Inr (b, it', m'))"
  shows "fires h node it r \<longleftrightarrow> b \<and> \<not> range_contains_error (take (it' - it) (drop it (nd_children (h ! node)))) h"
proof -
  have "match_shape (pmatch (fst (fst r)) h it node make_match) = Some (Inr (b, it'))"
    using pmatch_match_shape [of "fst (fst r)" h it node make_match m] assms by (simp add: match_shape_cases(3))
  then obtain m2 where "pmatch (fst (fst r)) h it node make_match = Some (Inr (b, it', m2))" by (auto simp: match_shape_cases(6))
  then show ?thesis by (cases b) (simp_all add: fires_def)
qed

subsection \<open>The first rule that fires\<close>

lemma find_replicate: "find P (replicate n x @ xs) = (if 0 < n \<and> P x then Some x else find P xs)"
  by (induction n) auto

lemma fires_listed:
  assumes "made (fst r)" "fires h node it r" "it < length (nd_children (h ! node))"
  shows "0 < parent_copies (nd_type (h ! node)) r * start_copies (nd_type (h ! (nd_children (h ! node) ! it))) r"
proof -
  obtain p f e where r: "r = ((p, f), e)" by (metis surj_pair)
  obtain it' m' where m: "pmatch p h it node make_match = Some (Inr (True, it', m'))"
    using assms(2) by (auto simp: fires_def r split: option.splits sum.splits bool.splits)
  have "fast_sound (p, f)" using made_sound assms(1) by (simp add: r)
  from fast_soundD [OF this m] assms(3)
  have s: "starts_well f h node it it'" "parent_well f h node" by simp_all
  have c: "0 < same_place t ts" if "t \<in> set ts" for t ts using that by (auto simp: same_place_def filter_empty_conv)
  have "0 < parent_copies (nd_type (h ! node)) r" using s(2) c by (auto simp: parent_copies_def r parent_well_def)
  moreover have "0 < start_copies (nd_type (h ! (nd_children (h ! node) ! it))) r"
    using s(1) c by (auto simp: start_copies_def r starts_well_def any_first_def child_type_def)
  ultimately show ?thesis by simp
qed

lemma find_rules_for:
  assumes "\<forall>r \<in> set rs. made (fst r)" "it < length (nd_children (h ! node))"
  shows "find (fires h node it) (rules_for rs (nd_type (h ! node)) (nd_type (h ! (nd_children (h ! node) ! it)))) =
    find (fires h node it) rs"
  using assms(1)
proof (induction rs)
  case (Cons r rs)
  have "0 < parent_copies (nd_type (h ! node)) r * start_copies (nd_type (h ! (nd_children (h ! node) ! it))) r" if "fires h node it r"
    using fires_listed [OF _ that assms(2)] Cons.prems by simp
  then show ?case using Cons by (auto simp: rules_for_def find_replicate)
qed (simp add: rules_for_def)

subsection \<open>What no change means\<close>

text \<open>A rule whose effect never returns \<open>NoChange\<close>.\<close>

definition changes_always :: "rule \<Rightarrow> bool" where
  "changes_always r \<longleftrightarrow> (\<forall>m h h' x. snd r m h = Inr (h', Some x) \<longrightarrow> nd_type (h' ! x) \<noteq> NoChange)"

lemma replace_match_changes:
  assumes "changes_always r" "replace_match m (snd r) start it node h = Some (Inr (replaced, it', h'))"
  shows "replaced \<noteq> NOCHANGE"
proof -
  obtain h1 x where e: "snd r m h = Inr (h1, x)"
    using assms(2) by (cases "snd r m h") (auto simp: replace_match_def)
  have "\<not> (case x of None \<Rightarrow> False | Some r \<Rightarrow> nd_type (h1 ! r) = NoChange)"
    using assms(1) e by (auto simp: changes_always_def split: option.splits)
  with assms(2) e show ?thesis
    by (auto simp: replace_match_def NOCHANGE_def REAPPLY_def Let_def split: prod.splits option.splits if_splits)
qed

lemma try_rules_no_change:
  assumes "\<forall>r \<in> set rules. changes_always r" "try_rules rules node start m h = Some (Inr (NOCHANGE, it', m', h'))"
  shows "it' = start \<and> h' = h \<and> (\<forall>r \<in> set rules. \<not> fires h node start r)"
  using assms
proof (induction rules arbitrary: m)
  case (Cons r rules)
  obtain b it1 m1 where m: "pmatch (fst (fst r)) h start node (reset_match m) = Some (Inr (b, it1, m1))"
    using Cons.prems(2) by (auto elim!: run_bindE)
  note f = fires_pmatch [OF m]
  show ?case
  proof (cases "fires h node start r")
    case True
    with f Cons.prems(2) m obtain replaced it2 h2 where "replace_match m1 (snd r) start it1 node h = Some (Inr (replaced, it2, h2))"
        "(if replaced \<noteq> NOCHANGE then run_return (replaced, it2, m1, h2) else try_rules rules node start m1 h2) = Some (Inr (NOCHANGE, it', m', h'))"
      by (auto elim!: run_bindE)
    with replace_match_changes [of r] Cons.prems(1) show ?thesis by auto
  next
    case False
    with f Cons.prems(2) m have "try_rules rules node start m1 h = Some (Inr (NOCHANGE, it', m', h'))" by auto
    with Cons.IH Cons.prems(1) False show ?thesis by simp
  qed
qed simp

text \<open>Under no position from \<open>it\<close> on a rule of the list for the position fires.\<close>

definition quiet_from :: "rule list default_map \<Rightarrow> ast \<Rightarrow> nat \<Rightarrow> nat \<Rightarrow> bool" where
  "quiet_from rules h node it \<longleftrightarrow>
     (\<forall>j. it \<le> j \<longrightarrow> j < length (nd_children (h ! node)) \<longrightarrow>
       in_table (nd_type (h ! (nd_children (h ! node) ! j))) \<and>
       (\<forall>r \<in> set (get rules (nd_type (h ! (nd_children (h ! node) ! j)))). \<not> fires h node j r))"

lemma quiet_from_step:
  assumes "quiet_from rules h node (it + 1)" "in_table (nd_type (h ! (nd_children (h ! node) ! it)))"
    "\<forall>r \<in> set (get rules (nd_type (h ! (nd_children (h ! node) ! it)))). \<not> fires h node it r"
  shows "quiet_from rules h node it"
  unfolding quiet_from_def
proof (intro allI impI)
  fix j
  assume "it \<le> j" "j < length (nd_children (h ! node))"
  with assms show "in_table (nd_type (h ! (nd_children (h ! node) ! j))) \<and>
      (\<forall>r \<in> set (get rules (nd_type (h ! (nd_children (h ! node) ! j)))). \<not> fires h node j r)"
    by (cases "j = it") (auto simp: quiet_from_def)
qed

definition loop_quiet :: "rule list default_map \<Rightarrow> nat \<Rightarrow> nat \<Rightarrow> nat \<Rightarrow> ast \<Rightarrow> ast_error + nat \<times> match_def \<times> ast \<Rightarrow> bool" where
  "loop_quiet rules node it c h r \<longleftrightarrow>
     (\<forall>c' m' h'. r = Inr (c', m', h') \<longrightarrow> c \<le> c' \<and> (c' = c \<longrightarrow> h' = h \<and> quiet_from rules h node it))"

definition list_changes :: "rule list default_map \<Rightarrow> bool" where
  "list_changes rules \<longleftrightarrow> (\<forall>t. in_table t \<longrightarrow> (\<forall>r \<in> set (get rules t). changes_always r))"

lemma match_loop_quiet:
  assumes "match_loop p rules node it c m h = Some r" "list_changes rules"
  shows "loop_quiet rules node it c h r"
proof -
  have "list_changes rules \<longrightarrow> loop_quiet rules node it c h r"
  proof (rule match_loop.raw_induct [where P = "\<lambda>p rules node it c m h r.
      list_changes rules \<longrightarrow> loop_quiet rules node it c h r", OF _ assms(1)], intro impI)
    fix loop p rules node it c m h r
    assume IH: "\<And>p rules node it c m h r. loop p rules node it c m h = Some r \<Longrightarrow>
        list_changes rules \<longrightarrow> loop_quiet rules node it c h r"
      and body: "(if it = length (nd_children (h ! node)) then run_return (c, m, h)
        else if \<not> in_table (nd_type (h ! (nd_children (h ! node) ! it))) then Some (Inl NullNode)
        else run_bind (try_rules (get rules (nd_type (h ! (nd_children (h ! node) ! it)))) node it m h) (\<lambda>(replaced, it, m, h).
          if replaced = NOCHANGE then loop p rules node (it + 1) c m h
          else if replaced = REAPPLY then loop p rules node it (c + 1) m h
          else if has_flag p dir_once then loop p rules node (it + nat replaced) (c + 1) m h
          else loop p rules node 0 (c + 1) m h)) = Some r"
      and ch: "list_changes rules"
    show "loop_quiet rules node it c h r"
    proof (cases "it = length (nd_children (h ! node))")
      case True
      with body show ?thesis by (auto simp: loop_quiet_def quiet_from_def run_return_def)
    next
      case False
      show ?thesis
      proof (cases r)
        case (Inl e)
        then show ?thesis by (simp add: loop_quiet_def)
      next
        case (Inr y)
        with False body have i: "in_table (nd_type (h ! (nd_children (h ! node) ! it)))" by (auto split: if_splits)
        from i False Inr body obtain replaced it1 m1 h1 where t:
          "try_rules (get rules (nd_type (h ! (nd_children (h ! node) ! it)))) node it m h = Some (Inr (replaced, it1, m1, h1))"
          "(if replaced = NOCHANGE then loop p rules node (it1 + 1) c m1 h1
            else if replaced = REAPPLY then loop p rules node it1 (c + 1) m1 h1
            else if has_flag p dir_once then loop p rules node (it1 + nat replaced) (c + 1) m1 h1
            else loop p rules node 0 (c + 1) m1 h1) = Some r" by (auto elim!: run_bindE)
        show ?thesis
        proof (cases "replaced = NOCHANGE")
          case True
          with try_rules_no_change [of "get rules (nd_type (h ! (nd_children (h ! node) ! it)))" node it m h it1 m1 h1] t(1) ch i
          have n: "it1 = it" "h1 = h" "\<forall>r \<in> set (get rules (nd_type (h ! (nd_children (h ! node) ! it)))). \<not> fires h node it r"
            by (auto simp: list_changes_def)
          from True t(2) n(1,2) have "loop p rules node (it + 1) c m1 h = Some r" by simp
          from IH [OF this] ch have "loop_quiet rules node (it + 1) c h r" by blast
          with quiet_from_step [OF _ i n(3)] show ?thesis by (auto simp: loop_quiet_def)
        next
          case False
          with t(2) obtain it2 where "loop p rules node it2 (c + 1) m1 h1 = Some r" by (auto split: if_splits)
          from IH [OF this] ch have "loop_quiet rules node it2 (c + 1) h1 r" by blast
          then show ?thesis by (auto simp: loop_quiet_def)
        qed
      qed
    qed
  qed
  with assms(2) show ?thesis by blast
qed

text \<open>The rules under a node.\<close>

definition quiet :: "pass_def \<Rightarrow> ast \<Rightarrow> nat \<Rightarrow> bool" where
  "quiet p h node \<longleftrightarrow>
     (let rules = get (pd_rule_map p) (nd_type (h ! node))
      in in_table (nd_type (h ! node)) \<and> (dm_empty rules \<or> quiet_from rules h node 0))"

definition table_changes :: "pass_def \<Rightarrow> bool" where
  "table_changes p \<longleftrightarrow> (\<forall>q. in_table q \<longrightarrow> list_changes (get (pd_rule_map p) q))"

lemma run_match_quiet:
  assumes "table_changes p" "run_match p node (c, m, h) = Some (Inr (c', m', h'))"
  shows "c \<le> c' \<and> (c' = c \<longrightarrow> h' = h \<and> quiet p h node)"
proof -
  obtain n where n: "match_children p node m h = Some (Inr (n, m', h'))" "c' = c + n"
    using assms(2) by (auto simp: run_match_def elim!: run_bindE)
  have i: "in_table (nd_type (h ! node))" using n(1) by (auto simp: match_children_def Let_def split: if_splits)
  show ?thesis
  proof (cases "dm_empty (get (pd_rule_map p) (nd_type (h ! node)))")
    case True
    with n i show ?thesis by (simp add: match_children_def quiet_def Let_def)
  next
    case False
    with n(1) i have "match_loop p (get (pd_rule_map p) (nd_type (h ! node))) node 0 0 m h = Some (Inr (n, m', h'))"
      by (simp add: match_children_def Let_def)
    from match_loop_quiet [OF this] assms(1) n(2) i show ?thesis
      by (auto simp: table_changes_def loop_quiet_def quiet_def Let_def)
  qed
qed

subsection \<open>The nodes a pass visits\<close>

inductive visited :: "ast \<Rightarrow> nat \<Rightarrow> nat \<Rightarrow> bool" for h where
  visited_self: "\<not> has (nd_type (h ! a)) flag_internal \<Longrightarrow> visited h a a"
| visited_child: "\<not> has (nd_type (h ! a)) flag_internal \<Longrightarrow> c \<in> set (nd_children (h ! a)) \<Longrightarrow> visited h c b \<Longrightarrow> visited h a b"

inductive_cases visitedE: "visited h a b"

definition below_quiet :: "pass_def \<Rightarrow> ast \<Rightarrow> nat \<times> nat \<Rightarrow> bool" where
  "below_quiet p h = (\<lambda>(node, it). (\<not> has_flag p dir_topdown \<longrightarrow> quiet p h node) \<and>
     (\<forall>j. it \<le> j \<longrightarrow> j < length (nd_children (h ! node)) \<longrightarrow> (\<forall>b. visited h (nd_children (h ! node) ! j) b \<longrightarrow> quiet p h b)))"

definition path_quiet :: "pass_def \<Rightarrow> (nat \<times> nat) list \<Rightarrow> pass_state \<Rightarrow> ast_error + pass_state \<Rightarrow> bool" where
  "path_quiet p path = (\<lambda>(c, m, h) r. \<forall>c' m' h'. r = Inr (c', m', h') \<longrightarrow>
     c \<le> c' \<and> (c' = c \<longrightarrow> h' = h \<and> list_all (below_quiet p h) path))"

definition no_hooks :: "pass_def \<Rightarrow> bool" where
  "no_hooks p \<longleftrightarrow> pd_pre p = Map.empty \<and> pd_post p = Map.empty"

lemma add_action_quiet:
  assumes "table_changes p" "no_hooks p" "add_action p node (c, m, h) = Some (Inr (b, c', m', h'))"
  shows "c \<le> c' \<and> (b \<longleftrightarrow> \<not> has (nd_type (h ! node)) flag_internal) \<and>
    (c' = c \<longrightarrow> h' = h \<and> (b \<longrightarrow> has_flag p dir_topdown \<longrightarrow> quiet p h node))"
proof (cases "has (nd_type (h ! node)) flag_internal")
  case True
  with assms(3) show ?thesis by (simp add: add_action_def)
next
  case False
  have "run_hook (pd_pre p) node (c, m, h) = run_return (c, m, h)" using assms(2) by (simp add: run_hook_def no_hooks_def)
  with False assms(3) obtain s where s: "(if has_flag p dir_topdown then run_match p node (c, m, h) else run_return (c, m, h)) = Some (Inr s)"
      "b" "s = (c', m', h')" by (auto simp: add_action_def elim!: run_bindE)
  with run_match_quiet [OF assms(1), of node c m h c' m' h'] False show ?thesis by (auto split: if_splits)
qed

lemma remove_action_quiet:
  assumes "table_changes p" "no_hooks p" "remove_action p node (c, m, h) = Some (Inr (c', m', h'))"
  shows "c \<le> c' \<and> (c' = c \<longrightarrow> h' = h \<and> (\<not> has_flag p dir_topdown \<longrightarrow> quiet p h node))"
proof -
  obtain s where s: "(if \<not> has_flag p dir_topdown then run_match p node (c, m, h) else run_return (c, m, h)) = Some (Inr s)"
      "run_hook (pd_post p) node s = Some (Inr (c', m', h'))" using assms(3) by (auto simp: remove_action_def elim!: run_bindE)
  obtain c1 m1 h1 where [simp]: "s = (c1, m1, h1)" by (cases s)
  have "(c1, m1, h1) = (c', m', h')" using s(2) assms(2) by (simp add: run_hook_def no_hooks_def)
  with s(1) run_match_quiet [OF assms(1), of node c m h c' m' h'] show ?thesis by (auto split: if_splits)
qed

lemma below_quiet_enter:
  assumes "it < length (nd_children (h ! node))" "below_quiet p h (node, it + 1)"
    "\<not> has (nd_type (h ! (nd_children (h ! node) ! it))) flag_internal \<Longrightarrow>
      quiet p h (nd_children (h ! node) ! it) \<and> below_quiet p h (nd_children (h ! node) ! it, 0)"
  shows "below_quiet p h (node, it)"
proof -
  let ?c = "nd_children (h ! node) ! it"
  have "quiet p h b" if "visited h ?c b" for b
    using that
  proof (cases rule: visited.cases)
    case visited_self
    with assms(3) show ?thesis by simp
  next
    case (visited_child d)
    then obtain j where "j < length (nd_children (h ! ?c))" "nd_children (h ! ?c) ! j = d" by (metis in_set_conv_nth)
    with assms(3) visited_child(1,3) show ?thesis by (auto simp: below_quiet_def)
  qed
  then have "\<forall>b. visited h (nd_children (h ! node) ! j) b \<longrightarrow> quiet p h b" if "it \<le> j" "j < length (nd_children (h ! node))" for j
  proof (cases "j = it")
    case False
    with that have "it + 1 \<le> j" by simp
    with that(2) assms(2) show ?thesis unfolding below_quiet_def prod.case by blast
  qed (use \<open>\<And>b. visited h ?c b \<Longrightarrow> quiet p h b\<close> in blast)
  with assms(2) show ?thesis by (auto simp: below_quiet_def)
qed

lemma below_quiet_end: "\<not> it < length (nd_children (h ! node)) \<Longrightarrow> \<not> has_flag p dir_topdown \<longrightarrow> quiet p h node \<Longrightarrow> below_quiet p h (node, it)"
  by (simp add: below_quiet_def)

lemma quiet_here: "has_flag p dir_topdown \<longrightarrow> quiet p h c \<Longrightarrow> below_quiet p h (c, 0) \<Longrightarrow> quiet p h c \<and> below_quiet p h (c, 0)"
  by (auto simp: below_quiet_def)

lemma apply_loop_quiet:
  assumes "apply_loop p path s = Some r" "table_changes p" "no_hooks p"
  shows "path_quiet p path s r"
proof -
  have "table_changes p \<and> no_hooks p \<longrightarrow> path_quiet p path s r"
  proof (rule apply_loop.raw_induct [where P = "\<lambda>p path s r. table_changes p \<and> no_hooks p \<longrightarrow> path_quiet p path s r", OF _ assms(1)],
      intro impI, elim conjE)
    fix loop p path s r
    assume IH: "\<And>p path s r. loop p path s = Some r \<Longrightarrow> table_changes p \<and> no_hooks p \<longrightarrow> path_quiet p path s r"
      and body: "(case path of [] \<Rightarrow> run_return s
        | (node, it) # rest \<Rightarrow> let cs = nd_children (snd (snd s) ! node)
          in if it < length cs then run_bind (add_action p (cs ! it) s) (\<lambda>(b, s).
                 if b then loop p ((cs ! it, 0) # (node, it + 1) # rest) s else loop p ((node, it + 1) # rest) s)
             else run_bind (remove_action p node s) (\<lambda>s. loop p rest s)) = Some r"
      and ok: "table_changes p" "no_hooks p"
    obtain c m h where s [simp]: "s = (c, m, h)" by (cases s)
    show "path_quiet p path s r"
    proof (cases r)
      case (Inl e)
      then show ?thesis by (simp add: path_quiet_def)
    next
      case r: (Inr y)
      show ?thesis
      proof (cases path)
        case Nil
        with body show ?thesis by (auto simp: path_quiet_def run_return_def)
      next
        case (Cons a rest)
        obtain node it where a: "a = (node, it)" by (cases a)
        let ?cs = "nd_children (h ! node)"
        show ?thesis
        proof (cases "it < length ?cs")
          case True
          with body r Cons a obtain b c1 m1 h1 where t: "add_action p (?cs ! it) (c, m, h) = Some (Inr (b, c1, m1, h1))"
            "(if b then loop p ((?cs ! it, 0) # (node, it + 1) # rest) (c1, m1, h1) else loop p ((node, it + 1) # rest) (c1, m1, h1)) = Some r"
            by (auto simp: Let_def elim!: run_bindE)
          note q = add_action_quiet [OF ok t(1)]
          have "path_quiet p ((if b then [(?cs ! it, 0)] else []) @ (node, it + 1) # rest) (c1, m1, h1) r"
            using t(2) IH ok by (cases b) auto
          with q r show ?thesis
            unfolding Cons a path_quiet_def
            by (auto simp: intro!: below_quiet_enter [OF True] quiet_here split: if_splits)
        next
          case False
          with body r Cons a obtain c1 m1 h1 where t: "remove_action p node (c, m, h) = Some (Inr (c1, m1, h1))"
            "loop p rest (c1, m1, h1) = Some r" by (auto simp: Let_def elim!: run_bindE)
          from IH [OF t(2)] ok remove_action_quiet [OF ok t(1)] False show ?thesis
            unfolding Cons a path_quiet_def by (auto intro: below_quiet_end)
        qed
      qed
    qed
  qed
  with assms(2,3) show ?thesis by blast
qed

lemma apply_pass_quiet:
  assumes "table_changes p" "no_hooks p" "apply_pass p start_node m h = Some (Inr (0, m', h'))"
  shows "h' = h \<and> (\<forall>b. visited h start_node b \<longrightarrow> quiet p h b)"
proof -
  obtain b c1 m1 h1 where t: "add_action p start_node (0, m, h) = Some (Inr (b, c1, m1, h1))"
    "(if b then apply_loop p [(start_node, 0)] (c1, m1, h1) else run_return (c1, m1, h1)) = Some (Inr (0, m', h'))"
    using assms(3) by (auto simp: apply_pass_def elim!: run_bindE)
  note q = add_action_quiet [OF assms(1,2) t(1)]
  show ?thesis
  proof (cases b)
    case False
    with q have "\<not> visited h start_node b'" for b' by (auto elim: visitedE)
    with q t(2) False show ?thesis by auto
  next
    case True
    with t(2) have "apply_loop p [(start_node, 0)] (c1, m1, h1) = Some (Inr (0, m', h'))" by simp
    from apply_loop_quiet [OF this assms(1,2)] have l: "c1 = 0" "h' = h1" "below_quiet p h1 (start_node, 0)"
      by (auto simp: path_quiet_def)
    with q True have h1: "h1 = h" "quiet p h start_node \<and> below_quiet p h (start_node, 0)"
      using quiet_here [of p h start_node] by auto
    have "quiet p h d" if "visited h start_node d" for d
      using that
    proof (cases rule: visited.cases)
      case (visited_child e)
      then obtain j where "j < length (nd_children (h ! start_node))" "nd_children (h ! start_node) ! j = e" by (metis in_set_conv_nth)
      with h1(2) visited_child(3) show ?thesis by (auto simp: below_quiet_def)
    qed (use h1(2) in simp)
    with l(2) h1(1) show ?thesis by simp
  qed
qed

lemma pass_loop_quiet:
  assumes "pass_loop p node changed count m h = Some (Inr (count', changed', m', h'))" "table_changes p" "no_hooks p" "\<not> has_flag p dir_once"
  shows "\<exists>h0. lift node h0 = Some (Inr ([], h')) \<and> (\<forall>b. visited h0 node b \<longrightarrow> quiet p h0 b)"
proof -
  define P where "P p node r \<longleftrightarrow> (table_changes p \<and> no_hooks p \<and> \<not> has_flag p dir_once \<longrightarrow>
    (\<forall>count' changed' m' h'. r = Inr (count', changed', m', h') \<longrightarrow>
      (\<exists>h0. lift node h0 = Some (Inr ([], h')) \<and> (\<forall>b. visited h0 node b \<longrightarrow> quiet p h0 b))))"
    for p node and r :: "ast_error + nat \<times> nat \<times> match_def \<times> ast"
  have "P p node (Inr (count', changed', m', h'))"
  proof (rule pass_loop.raw_induct [where P = "\<lambda>p node changed count m h r. P p node r", OF _ assms(1)])
    fix loop p node changed count m h r
    assume IH: "\<And>p node changed count m h r. loop p node changed count m h = Some r \<Longrightarrow> P p node r"
      and body: "run_bind (apply_pass p node m h) (\<lambda>(changes, m, h).
         run_bind (lift node h) (\<lambda>(lifted, h).
           if lifted \<noteq> [] then Some (Inl LiftedWithoutDestination)
           else if has_flag p dir_once \<or> \<not> 0 < changes then run_return (count + 1, add_changes changed changes, m, h)
           else loop p node (add_changes changed changes) (count + 1) m h)) = Some r"
    show "P p node r"
      unfolding P_def
    proof (intro impI allI, elim conjE)
      fix count' changed' m' h'
      assume ok: "table_changes p" "no_hooks p" "\<not> has_flag p dir_once" and r: "r = Inr (count', changed', m', h')"
      from body r obtain changes m1 h1 where a: "apply_pass p node m h = Some (Inr (changes, m1, h1))"
        and b: "run_bind (lift node h1) (\<lambda>(lifted, h). if lifted \<noteq> [] then Some (Inl LiftedWithoutDestination)
           else if has_flag p dir_once \<or> \<not> 0 < changes then run_return (count + 1, add_changes changed changes, m1, h)
           else loop p node (add_changes changed changes) (count + 1) m1 h) = Some r" by (auto elim!: run_bindE)
      from b r obtain lifted h2 where l: "lift node h1 = Some (Inr (lifted, h2))"
        "(if lifted \<noteq> [] then Some (Inl LiftedWithoutDestination)
           else if has_flag p dir_once \<or> \<not> 0 < changes then run_return (count + 1, add_changes changed changes, m1, h2)
           else loop p node (add_changes changed changes) (count + 1) m1 h2) = Some r" by (auto elim!: run_bindE)
      then have "lifted = []" using r by (auto split: if_splits)
      show "\<exists>h0. lift node h0 = Some (Inr ([], h')) \<and> (\<forall>b. visited h0 node b \<longrightarrow> quiet p h0 b)"
      proof (cases "changes = 0")
        case True
        with l(2) r ok \<open>lifted = []\<close> have "h2 = h'" by (auto simp: run_return_def)
        with apply_pass_quiet [OF ok(1,2), of node m h m1 h1] a True l(1) \<open>lifted = []\<close> show ?thesis by auto
      next
        case False
        with l(2) ok \<open>lifted = []\<close> have "loop p node (add_changes changed changes) (count + 1) m1 h2 = Some r" by simp
        from IH [OF this] ok r show ?thesis by (auto simp: P_def)
      qed
    qed
  qed
  with assms(2-4) show ?thesis by (auto simp: P_def)
qed

lemma and_not_bit_same: "\<not> bit w n \<Longrightarrow> w AND NOT (push_bit n 1) = w" for w :: byte
  by (rule bit_word_eqI) (auto simp: bit_and_iff bit_not_iff bit_exp_iff)

lemma reset_lift_same: "\<not> contains_lift f \<Longrightarrow> reset_contains_lift f = f"
  unfolding reset_contains_lift_def contains_bits by (rule and_not_bit_same)

lemma lift_nothing: "\<not> contains_lift (nd_flags (h ! node)) \<Longrightarrow> lift node h = Some (Inr ([], h))"
proof -
  assume n: "\<not> contains_lift (nd_flags (h ! node))"
  have "h[node := h ! node] = h" by simp
  with n show ?thesis
    by (simp add: lift_def get_and_reset_contains_lift_def update_def reset_lift_same run_return_def)
qed

text \<open>A pass made by the constructor, to which rules may have been added, as they all have the same table.\<close>

lemma pass_sel:
  "pd_direction (add_rules rs' (make_pass dir rs)) = dir" "no_hooks (add_rules rs' (make_pass dir rs))"
  "pd_cond_run (add_rules rs' (make_pass dir rs)) = None"
  "pd_pre_once (add_rules rs' (make_pass dir rs)) = None" "pd_post_once (add_rules rs' (make_pass dir rs)) = None"
  by (simp_all add: add_rules_def make_pass_def compile_rules_def no_hooks_def)

lemma pass_table: "table_holds (rs @ rs') (pd_rule_map (add_rules rs' (make_pass dir rs)))"
  using add_rules_holds(1) [OF make_pass_holds] .

lemma set_rules_for: "set (rules_for rs p t) \<subseteq> set rs"
  by (auto simp: rules_for_def)

lemma pass_table_changes:
  assumes "\<forall>r \<in> set (rs @ rs'). changes_always r"
  shows "table_changes (add_rules rs' (make_pass dir rs))"
  using assms pass_table [of rs rs' dir] set_rules_for
  by (fastforce simp: table_changes_def list_changes_def table_holds_def)

lemma quiet_no_rule_fires:
  assumes "quiet (add_rules rs' (make_pass dir rs)) h b" "j < length (nd_children (h ! b))" "r \<in> set (rs @ rs')" "made (fst r)"
  shows "\<not> fires h b j r"
proof
  assume f: "fires h b j r"
  let ?t = "pd_rule_map (add_rules rs' (make_pass dir rs))" and ?p = "nd_type (h ! b)" and ?s = "nd_type (h ! (nd_children (h ! b) ! j))"
  have c: "0 < parent_copies ?p r * start_copies ?s r" by (rule fires_listed [OF assms(4) f assms(2)])
  then have in_list: "r \<in> set (rules_for (rs @ rs') ?p ?s)" using assms(3) by (auto simp: rules_for_def)
  have p: "in_table ?p" using assms(1) by (simp add: quiet_def Let_def)
  then have h: "dm_empty (get ?t ?p) \<longrightarrow> (\<forall>r \<in> set (rs @ rs'). parent_copies ?p r = 0)"
    "\<forall>t. in_table t \<longrightarrow> get (get ?t ?p) t = rules_for (rs @ rs') ?p t"
    using pass_table [of rs rs' dir] by (simp_all add: table_holds_def)
  with c assms(3) have "\<not> dm_empty (get ?t ?p)" by auto
  with assms(1) have "quiet_from (get ?t ?p) h b 0" by (simp add: quiet_def Let_def)
  with assms(2) have s: "in_table ?s" "\<forall>r \<in> set (get (get ?t ?p) ?s). \<not> fires h b j r" by (auto simp: quiet_from_def)
  with h(2) in_list f show False by auto
qed

text \<open>C33: for rules whose patterns are made by the operators, where \<open>~\<close> and \<open>++\<close> are not applied to a pattern that
  may start with any token and is bound to parents, the table in which a pass files its rules by the tokens of their
  summaries changes nothing: at every position with a node, where the types of the node and of the parent have a place
  in the table, the first rule of the table's list that fires is the first rule of the pass, in the order
  in which they were given to the constructor and to \<open>rules\<close>, that fires.\<close>

theorem table_finds_rule:
  assumes "\<forall>r \<in> set (rs @ rs'). made (fst r)" "it < length (nd_children (h ! node))"
    "in_table (nd_type (h ! node))" "in_table (nd_type (h ! (nd_children (h ! node) ! it)))"
  shows "find (fires h node it) (get (get (pd_rule_map (add_rules rs' (make_pass dir rs))) (nd_type (h ! node)))
      (nd_type (h ! (nd_children (h ! node) ! it)))) = find (fires h node it) (rs @ rs')"
  using find_rules_for [OF assms(1,2)] pass_table [of rs rs' dir] assms(3,4) by (simp add: table_holds_def)

text \<open>C34: a pass without hooks and condition that is not to be run once, whose rules never refuse a match and have
  patterns made by the operators (\<open>~\<close> and \<open>++\<close> not applied to a pattern that may start with any token and is bound
  to parents), ends, if it ends, after a round that found a normal form: no rule of the pass, filed anywhere in
  its table or not, fires at any position below any node that the pass visits. That tree is the one before the last
  lift, which may still bring lifted nodes to where they belong and leaves none without a destination; where the
  root is not flagged as containing a lift, it is the tree that the run delivers.\<close>

theorem run_normal_form:
  assumes "run_pass (add_rules rs' (make_pass dir rs)) node m h = Some (Inr (count, changed, m', h'))"
    "\<forall>r \<in> set (rs @ rs'). made (fst r) \<and> changes_always r" "dir AND dir_once = 0"
  shows "\<exists>h0. lift node h0 = Some (Inr ([], h')) \<and> (contains_lift (nd_flags (h0 ! node)) \<or> h0 = h') \<and>
    (\<forall>b j r. visited h0 node b \<and> j < length (nd_children (h0 ! b)) \<and> r \<in> set (rs @ rs') \<longrightarrow> \<not> fires h0 b j r)"
proof -
  let ?P = "add_rules rs' (make_pass dir rs)"
  have "pass_loop ?P node 0 0 m h = Some (Inr (count, changed, m', h'))"
    using assms(1) by (auto simp: run_pass_def pass_sel run_once_hook_def elim!: run_bindE)
  moreover have "table_changes ?P" using pass_table_changes assms(2) by blast
  moreover have "\<not> has_flag ?P dir_once" using assms(3) by (simp add: has_flag_def pass_sel)
  ultimately obtain h0 where h0: "lift node h0 = Some (Inr ([], h'))" "\<forall>b. visited h0 node b \<longrightarrow> quiet ?P h0 b"
    using pass_loop_quiet pass_sel(2) by blast
  moreover have "contains_lift (nd_flags (h0 ! node)) \<or> h0 = h'" using lift_nothing [of h0 node] h0(1) by auto
  ultimately show ?thesis using quiet_no_rule_fires assms(2) by blast
qed

text \<open>Sample: a rule that deletes the files.\<close>

definition drop_files :: "rule list" where
  "drop_files = [(T_tokens [File], \<lambda>m h. Inr (h, None))]"

lemma sample_scope_eval:
  "length sample_scope = 2" "nd_type (sample_scope ! 0) = Top" "nd_children (sample_scope ! 0) = [1]" "nd_type (sample_scope ! 1) = File"
  "nd_children (sample_scope ! 1) = []" "nd_flags (sample_scope ! 0) = 0" "nd_flags (sample_scope ! 1) = 0"
proof -
  have t: "has Top flag_symtab" "\<not> has File flag_symtab" "File \<noteq> Error" "File \<noteq> Lift" "\<not> contains_error 0" "\<not> contains_lift 0" "Top \<noteq> Error" "Top \<noteq> Lift"
    by (code_simp, code_simp, code_simp, code_simp, code_simp, code_simp, code_simp, code_simp)
  then show
  "length sample_scope = 2" "nd_type (sample_scope ! 0) = Top" "nd_children (sample_scope ! 0) = [1]" "nd_type (sample_scope ! 1) = File"
  "nd_children (sample_scope ! 1) = []" "nd_flags (sample_scope ! 0) = 0" "nd_flags (sample_scope ! 1) = 0"
    by (simp_all add: sample_scope_def create_def create_at_def make_node_def push_back_def adopt_def add_flags_def set_up.simps
      set_parent_def set_children_def update_def Let_def)
qed

lemma sample_tokens: "in_table Top" "in_table File" "\<not> has Top flag_internal" "\<not> has File flag_internal"
  by (code_simp, code_simp, code_simp, code_simp)

lemma drop_files_made: "\<forall>r \<in> set drop_files. made (fst r) \<and> changes_always r"
  by (simp add: drop_files_def changes_always_def made_tokens)

definition drop_pass :: pass_def where
  "drop_pass = add_rules drop_files (make_pass dir_bottomup [])"

definition emptied_scope :: ast where
  "emptied_scope = snd (erase 0 0 1 sample_scope)"

lemma emptied_eval: "nd_type (emptied_scope ! 0) = Top" "nd_children (emptied_scope ! 0) = []" "nd_flags (emptied_scope ! 0) = 0"
  using sample_scope_eval
  by (simp_all add: emptied_scope_def erase_def orphan_def set_parent_def set_children_def update_def Let_def)

lemma drop_table:
  assumes "in_table t"
  shows "\<not> dm_empty (get (pd_rule_map drop_pass) t)" "get (get (pd_rule_map drop_pass) t) File = drop_files"
proof -
  have "parent_copies t (hd drop_files) = 1" "start_copies File (hd drop_files) = 1"
    by (simp_all add: drop_files_def parent_copies_def start_copies_def T_tokens_def match_token_def same_place_def)
  then show "\<not> dm_empty (get (pd_rule_map drop_pass) t)" "get (get (pd_rule_map drop_pass) t) File = drop_files"
    using pass_table [of "[]" drop_files dir_bottomup] assms sample_tokens(2)
    by (auto simp: table_holds_def rules_for_def drop_pass_def drop_files_def)
qed

lemma drop_flags: "\<not> has_flag drop_pass dir_topdown" "\<not> has_flag drop_pass dir_once" "dir_bottomup AND dir_once = 0"
  unfolding drop_pass_def has_flag_def pass_sel by (code_simp, code_simp, code_simp)

lemma drop_none: "nd_children (h ! n) = [] \<Longrightarrow> in_table (nd_type (h ! n)) \<Longrightarrow> run_match drop_pass n (c, m, h) = run_return (c, m, h)"
  using drop_table(1) by (simp add: run_match_def match_children_def Let_def match_loop.simps)

lemma drop_one: "run_match drop_pass 0 (c, m, sample_scope) = run_return (c + 1, reset_match m, emptied_scope)"
proof -
  have e: "\<not> range_contains_error [1] sample_scope"
    using sample_scope_eval by (simp add: range_contains_error_def) code_simp
  have t: "try_rules drop_files 0 0 m sample_scope = run_return (0, 0, reset_match m, emptied_scope)"
    using e sample_scope_eval
    by (simp add: drop_files_def T_tokens_def returned_def run_return_def replace_match_def NOCHANGE_def emptied_scope_def erase_def Let_def)
  have "match_loop drop_pass (get (pd_rule_map drop_pass) Top) 0 0 0 m sample_scope =
      match_loop drop_pass (get (pd_rule_map drop_pass) Top) 0 0 1 (reset_match m) emptied_scope"
    by (subst match_loop.simps) (simp add: sample_scope_eval sample_scope_eval [unfolded One_nat_def] sample_tokens drop_table t NOCHANGE_def REAPPLY_def drop_flags)
  also have "\<dots> = run_return (1, reset_match m, emptied_scope)"
    by (subst match_loop.simps) (simp add: emptied_eval)
  finally show ?thesis using drop_table(1)
    by (simp add: run_match_def match_children_def sample_scope_eval sample_tokens)
qed

lemma drop_run: "\<exists>m'. run_pass drop_pass 0 make_match sample_scope = Some (Inr (2, 1, m', emptied_scope))"
proof -
  note [simp] = sample_scope_eval sample_scope_eval [unfolded One_nat_def] emptied_eval sample_tokens drop_flags drop_none
  have hooks: "run_hook (pd_pre drop_pass) n s = run_return s" "run_hook (pd_post drop_pass) n s = run_return s" for n s
    using pass_sel(2) [of drop_files dir_bottomup "[]"] by (cases s; simp add: run_hook_def no_hooks_def drop_pass_def)+
  note [simp] = hooks
  let ?m = "reset_match make_match"
  have 0: "add_action drop_pass 0 (c, m, h) = run_return (True, c, m, h)" if "nd_type (h ! 0) = Top" for c m h
    using that by (simp add: add_action_def)
  have 1: "add_action drop_pass 1 (c, m, sample_scope) = run_return (True, c, m, sample_scope)" for c m
    by (simp add: add_action_def)
  have a: "apply_pass drop_pass 0 make_match sample_scope = run_return (1, ?m, emptied_scope)"
    by (simp add: apply_pass_def 0) (simp add: apply_loop.simps 1 [unfolded One_nat_def] remove_action_def drop_one)
  have b: "apply_pass drop_pass 0 ?m emptied_scope = run_return (0, ?m, emptied_scope)"
    by (simp add: apply_pass_def 0) (simp add: apply_loop.simps remove_action_def)
  have "\<not> contains_lift 0" by code_simp
  then have l: "lift 0 emptied_scope = run_return ([], emptied_scope)" by (simp add: lift_nothing run_return_def)
  have "pass_loop drop_pass 0 0 0 make_match sample_scope = run_return (2, 1, ?m, emptied_scope)"
    by (subst pass_loop.simps, simp add: a l, subst pass_loop.simps, simp add: b l numeral_2_eq_2 add_changes_def)
  then show ?thesis by (simp add: run_pass_def drop_pass_def pass_sel run_once_hook_def run_return_def)
qed

theorem table_finds_rule_witness:
  "find (fires sample_scope 0 0) (get (get (pd_rule_map drop_pass) Top) File) = Some (hd drop_files)"
proof -
  have "\<not> range_contains_error [1] sample_scope"
    using sample_scope_eval by (simp add: range_contains_error_def) code_simp
  then have "fires sample_scope 0 0 (hd drop_files)"
    using sample_scope_eval by (simp add: fires_def drop_files_def T_tokens_def returned_def)
  then have "find (fires sample_scope 0 0) ([] @ drop_files) = Some (hd drop_files)" by (simp add: drop_files_def)
  with table_finds_rule [of "[]" drop_files 0 sample_scope 0 dir_bottomup] drop_files_made show ?thesis
    by (simp add: sample_scope_eval sample_scope_eval [unfolded One_nat_def] sample_tokens drop_pass_def)
qed

theorem run_normal_form_witness:
  "\<exists>m' h0. run_pass drop_pass 0 make_match sample_scope = Some (Inr (2, 1, m', emptied_scope)) \<and>
    lift 0 h0 = Some (Inr ([], emptied_scope))"
proof -
  obtain m' where r: "run_pass drop_pass 0 make_match sample_scope = Some (Inr (2, 1, m', emptied_scope))" using drop_run ..
  have "\<forall>r \<in> set ([] @ drop_files). made (fst r) \<and> changes_always r" using drop_files_made by simp
  from run_normal_form [OF r [unfolded drop_pass_def] this drop_flags(3)] r show ?thesis by blast
qed

end
