(* ===== verification/MatchCaptures.thy ===== *)
theory MatchCaptures
  imports PassRules
begin

text \<open>
  The captures of a match (\<open>Match\<close> of \<open>include/trieste/rewrite.h\<close>) against their specification. The code keeps a
  vector of frames, opens one before an alternative that may fail and goes back to the one before when it has
  failed; the specification hands on a map. Frames are only opened where the left side of an alternative
  says it has captures, so the argument is that the other patterns leave the frames alone.
\<close>

subsection \<open>Frames\<close>

definition match_ok :: "match_def \<Rightarrow> bool" where
  "match_ok m \<longleftrightarrow> m_index m < length (m_captures m)"

text \<open>What is written after \<open>m\<close> is above the frames of \<open>m\<close>, or in its last.\<close>

definition above :: "match_def \<Rightarrow> match_def \<Rightarrow> bool" where
  "above m m' \<longleftrightarrow> match_ok m' \<and> m_index m \<le> m_index m' \<and> (\<forall>i < m_index m. m_captures m' ! i = m_captures m ! i)"

text \<open>Nothing is captured: the last frame of \<open>m\<close> is kept too, and those above it hold nothing.\<close>

definition same_captures :: "match_def \<Rightarrow> match_def \<Rightarrow> bool" where
  "same_captures m m' \<longleftrightarrow> match_ok m' \<and> m_index m \<le> m_index m' \<and>
     (\<forall>i \<le> m_index m. m_captures m' ! i = m_captures m ! i) \<and>
     (\<forall>i. m_index m < i \<longrightarrow> i \<le> m_index m' \<longrightarrow> \<not> fst (m_captures m' ! i))"

lemma above_refl [simp]: "match_ok m \<Longrightarrow> above m m"
  by (simp add: above_def)

lemma above_trans: "above a b \<Longrightarrow> above b c \<Longrightarrow> above a c"
  by (auto simp: above_def)

lemma same_refl [simp]: "match_ok m \<Longrightarrow> same_captures m m"
  by (simp add: same_captures_def)

lemma same_above: "same_captures m m' \<Longrightarrow> above m m'"
  by (simp add: same_captures_def above_def)

lemma same_trans:
  assumes "same_captures a b" "same_captures b c"
  shows "same_captures a c"
proof -
  have "\<not> fst (m_captures c ! i)" if "m_index a < i" "i \<le> m_index c" for i
    using that assms by (cases "i \<le> m_index b") (auto simp: same_captures_def)
  with assms show ?thesis by (auto simp: same_captures_def)
qed

lemma ok_from: "above m m' \<Longrightarrow> match_ok m'" "same_captures m m' \<Longrightarrow> match_ok m'"
  by (simp_all add: above_def same_captures_def)

lemma find_capture_frames:
  "find_capture 0 t cs = (if fst (cs ! 0) then snd (cs ! 0) t else None)"
  "find_capture (Suc i) t cs = (if fst (cs ! Suc i) \<and> snd (cs ! Suc i) t \<noteq> None then snd (cs ! Suc i) t else find_capture i t cs)"
proof -
  show "find_capture 0 t cs = (if fst (cs ! 0) then snd (cs ! 0) t else None)"
    by (subst find_capture.simps) (cases "cs ! 0", cases "snd (cs ! 0) t", auto)
  show "find_capture (Suc i) t cs = (if fst (cs ! Suc i) \<and> snd (cs ! Suc i) t \<noteq> None then snd (cs ! Suc i) t else find_capture i t cs)"
    by (subst find_capture.simps) (cases "cs ! Suc i", simp del: not_None_eq)
qed

lemma find_capture_cong: "(\<And>j. j \<le> i \<Longrightarrow> cs ! j = cs' ! j) \<Longrightarrow> find_capture i t cs = find_capture i t cs'"
  by (induction i) (simp_all add: find_capture_frames del: not_None_eq)

lemma find_capture_skip: "\<not> fst (cs ! Suc i) \<Longrightarrow> find_capture (Suc i) t cs = find_capture i t cs"
  by (simp add: find_capture_frames)

lemma same_captured:
  assumes "same_captures m m'"
  shows "captured t m' = captured t m"
proof -
  have "find_capture (m_index m + n) t (m_captures m') = find_capture (m_index m) t (m_captures m')" if "m_index m + n \<le> m_index m'" for n
    using that
  proof (induction n)
    case (Suc n)
    then have "\<not> fst (m_captures m' ! Suc (m_index m + n))" using assms by (simp add: same_captures_def)
    from find_capture_skip [OF this] Suc show ?case by simp
  qed simp
  from this [of "m_index m' - m_index m"] assms
  have "captured t m' = find_capture (m_index m) t (m_captures m')" by (simp add: captured_def same_captures_def)
  also have "\<dots> = captured t m" unfolding captured_def
    by (rule find_capture_cong) (use assms in \<open>simp add: same_captures_def\<close>)
  finally show ?thesis .
qed

lemma add_frame_same:
  assumes "match_ok m" "add_frame m = (f, m1)"
  shows "f = m_index m" "same_captures m m1" "m_index m1 = Suc (m_index m)"
  using assms by (auto simp: add_frame_def same_captures_def match_ok_def Let_def nth_append nth_list_update le_Suc_eq split: if_splits)

text \<open>Going back to a frame drops what was captured since.\<close>

lemma return_same:
  assumes "match_ok m" "add_frame m = (f, m1)" "above m1 m2"
  shows "same_captures m (return_to_frame f m2)"
  using add_frame_same [OF assms(1,2)] assms(1,3)
  by (auto simp: above_def same_captures_def return_to_frame_def match_ok_def)

lemma set_match_above:
  assumes "match_ok m"
  shows "above m (set_match t r m)" "captured t' (set_match t r m) = (if t' = t then Some r else captured t' m)"
proof -
  obtain v f where vf: "m_captures m ! m_index m = (v, f)" by (cases "m_captures m ! m_index m")
  let ?m = "set_match t r m"
  have m: "m_index ?m = m_index m" "m_captures ?m = (m_captures m)[m_index m := (True, (if v then f else Map.empty)(t \<mapsto> r))]"
    by (simp_all add: set_match_def vf Let_def)
  then show "above m ?m" using assms by (simp add: above_def match_ok_def)
  have low: "find_capture j t' (m_captures ?m) = find_capture j t' (m_captures m)" if "j < m_index m" for j
    by (rule find_capture_cong) (use that m in simp)
  show "captured t' ?m = (if t' = t then Some r else captured t' m)"
    using low assms vf m
    by (cases "m_index m") (simp_all add: captured_def match_ok_def find_capture_frames del: not_None_eq)
qed

subsection \<open>Matching with a map\<close>

text \<open>What a pattern is meant to do: the captures are a map that is handed on, and an alternative that
  fails leaves no trace since the map of before is still there. The result is where the match ends, with the
  captures, or \<open>None\<close>.\<close>

type_synonym captures = "token_def \<rightharpoonup> node_range"
type_synonym ref_result = "(ast_error + (nat \<times> captures) option) option"

definition ref_then :: "ref_result \<Rightarrow> (nat \<Rightarrow> captures \<Rightarrow> ref_result) \<Rightarrow> ref_result \<Rightarrow> ref_result" where
  "ref_then r f g =
     (case r of
        None \<Rightarrow> None
      | Some (Inl e) \<Rightarrow> Some (Inl e)
      | Some (Inr None) \<Rightarrow> g
      | Some (Inr (Some (it, c))) \<Rightarrow> f it c)"

abbreviation ref_fail :: ref_result where "ref_fail \<equiv> Some (Inr None)"

partial_function (option) ref_rep :: "(nat \<Rightarrow> ref_result) \<Rightarrow> nat \<Rightarrow> nat \<Rightarrow> (ast_error + nat) option" where
  "ref_rep step stop it =
     (if it = stop then Some (Inr it)
      else Option.bind (step it) (\<lambda>r.
        (case r of
           Inl e \<Rightarrow> Some (Inl e)
         | Inr None \<Rightarrow> Some (Inr it)
         | Inr (Some (it', c)) \<Rightarrow> ref_rep step stop it')))"

fun rmatch :: "pattern list \<Rightarrow> ast \<Rightarrow> nat \<Rightarrow> nat \<Rightarrow> captures \<Rightarrow> ref_result" where
  "rmatch [] h it parent c = Some (Inr (Some (it, c)))"
| "rmatch (CapP name p # k) h it parent c =
     ref_then (rmatch p h it parent c) (\<lambda>it' c. rmatch k h it' parent (c(name \<mapsto> (parent, it, it')))) ref_fail"
| "rmatch (Anything # k) h it parent c =
     (if it = length (nd_children (h ! parent)) then ref_fail else rmatch k h (it + 1) parent c)"
| "rmatch (TokenMatch types # k) h it parent c =
     (if it \<noteq> length (nd_children (h ! parent)) \<and> nd_type (h ! (nd_children (h ! parent) ! it)) \<in> set types
      then rmatch k h (it + 1) parent c else ref_fail)"
| "rmatch (RegexMatchP type regex # k) h it parent c =
     (if it \<noteq> length (nd_children (h ! parent)) \<and> nd_type (h ! (nd_children (h ! parent) ! it)) = type then
        (case view (nd_location (h ! (nd_children (h ! parent) ! it))) of
           Inl e \<Rightarrow> Some (Inl (Throws e))
         | Inr text \<Rightarrow> if FullMatch text regex then rmatch k h (it + 1) parent c else ref_fail)
      else ref_fail)"
| "rmatch (OptP p # k) h it parent c =
     ref_then (rmatch p h it parent c) (\<lambda>it c. rmatch k h it parent c) (rmatch k h it parent c)"
| "rmatch (Rep p # k) h it parent c =
     (case ref_rep (\<lambda>it. rmatch p h it parent c) (length (nd_children (h ! parent))) it of
        None \<Rightarrow> None
      | Some (Inl e) \<Rightarrow> Some (Inl e)
      | Some (Inr it) \<Rightarrow> rmatch k h it parent c)"
| "rmatch (NotP p # k) h it parent c =
     (if it = length (nd_children (h ! parent)) then ref_fail
      else ref_then (rmatch p h it parent c) (\<lambda>_ _. ref_fail) (rmatch k h (it + 1) parent c))"
| "rmatch (Choice cl p q # k) h it parent c =
     ref_then (rmatch p h it parent c) (\<lambda>it c. rmatch k h it parent c)
       (ref_then (rmatch q h it parent c) (\<lambda>it c. rmatch k h it parent c) ref_fail)"
| "rmatch (InsideStar types # k) h it parent c =
     (if first_up (\<lambda>p. nd_type (h ! p) \<in> set types) (length h) (Some parent) h \<noteq> None then rmatch k h it parent c else ref_fail)"
| "rmatch (Inside types # k) h it parent c =
     (if nd_type (h ! parent) \<in> set types then rmatch k h it parent c else ref_fail)"
| "rmatch (First # k) h it parent c = (if it = 0 then rmatch k h it parent c else ref_fail)"
| "rmatch (Last # k) h it parent c =
     (if it = length (nd_children (h ! parent)) then Some (Inr (Some (it, c))) else ref_fail)"
| "rmatch (Children p children # k) h it parent c =
     ref_then (rmatch p h it parent c) (\<lambda>it' c.
       if length (nd_children (h ! parent)) \<le> it then Some (Inl NullNode)
       else ref_then (rmatch children h 0 (nd_children (h ! parent) ! it) c) (\<lambda>_ c. rmatch k h it' parent c) ref_fail) ref_fail"
| "rmatch (Pred p # k) h it parent c =
     ref_then (rmatch p h it parent c) (\<lambda>_ _. rmatch k h it parent c) ref_fail"
| "rmatch (NegPred p # k) h it parent c =
     ref_then (rmatch p h it parent c) (\<lambda>_ _. ref_fail) (rmatch k h it parent c)"
| "rmatch (Action action p # k) h it parent c =
     ref_then (rmatch p h it parent c) (\<lambda>it' c.
       if action h (parent, it, it') then rmatch k h it' parent c else ref_fail) ref_fail"

subsection \<open>Patterns without hidden captures\<close>

fun capture_free :: "pattern \<Rightarrow> bool" where
  "capture_free (CapP name p) = False"
| "capture_free (OptP p) = list_all capture_free p"
| "capture_free (Rep p) = list_all capture_free p"
| "capture_free (NotP p) = list_all capture_free p"
| "capture_free (Choice cl p q) = (list_all capture_free p \<and> list_all capture_free q)"
| "capture_free (Children p q) = (list_all capture_free p \<and> list_all capture_free q)"
| "capture_free (Pred p) = list_all capture_free p"
| "capture_free (NegPred p) = list_all capture_free p"
| "capture_free (Action a p) = list_all capture_free p"
| "capture_free _ = True"

text \<open>No captures where a failure, or a success, is not to leave any.\<close>

fun captures_kept_out :: "pattern \<Rightarrow> bool" where
  "captures_kept_out (CapP name p) = list_all captures_kept_out p"
| "captures_kept_out (OptP p) = list_all captures_kept_out p"
| "captures_kept_out (Rep p) = list_all capture_free p"
| "captures_kept_out (NotP p) = list_all capture_free p"
| "captures_kept_out (Choice cl p q) =
     ((if cl then list_all captures_kept_out p else list_all capture_free p) \<and> list_all captures_kept_out q)"
| "captures_kept_out (Children p q) = (list_all captures_kept_out p \<and> list_all captures_kept_out q)"
| "captures_kept_out (Pred p) = list_all capture_free p"
| "captures_kept_out (NegPred p) = list_all capture_free p"
| "captures_kept_out (Action a p) = list_all captures_kept_out p"
| "captures_kept_out _ = True"

lemma capture_free_kept_out: "capture_free a \<Longrightarrow> captures_kept_out a"
  by (induction a) (auto simp: list_all_iff)

subsection \<open>Frames implement the map\<close>

definition captures_of :: "match_def \<Rightarrow> captures" where
  "captures_of m = (\<lambda>t. captured t m)"

definition ref_view :: "match_result \<Rightarrow> ref_result" where
  "ref_view r = map_option (map_sum id (\<lambda>(b, it, m). if b then Some (it, captures_of m) else None)) r"

lemma ref_view_simps [simp]:
  "ref_view None = None" "ref_view (Some (Inl e)) = Some (Inl e)"
  "ref_view (Some (Inr (b, it, m))) = Some (Inr (if b then Some (it, captures_of m) else None))"
  "ref_view (returned b it m) = Some (Inr (if b then Some (it, captures_of m) else None))"
  by (simp_all add: ref_view_def returned_def)

lemma ref_then_simps [simp]:
  "ref_then None f g = None" "ref_then (Some (Inl e)) f g = Some (Inl e)" "ref_then (Some (Inr None)) f g = g"
  "ref_then (Some (Inr (Some (it, c)))) f g = f it c"
  by (simp_all add: ref_then_def)

lemma ref_then_assoc:
  "ref_then (ref_then r f g) f' g' = ref_then r (\<lambda>it c. ref_then (f it c) f' g') (ref_then g f' g')"
  by (auto simp: ref_then_def split: option.splits sum.splits)

lemma ref_then_cong: "(\<And>it c. f it c = f' it c) \<Longrightarrow> g = g' \<Longrightarrow> ref_then r f g = ref_then r f' g'"
  by (auto simp: ref_then_def split: option.splits sum.splits)

lemma view_then:
  assumes "R = ref_view r"
    "\<And>it m. r = Some (Inr (True, it, m)) \<Longrightarrow> ref_view (f True it m) = F it (captures_of m)"
    "\<And>it m. r = Some (Inr (False, it, m)) \<Longrightarrow> ref_view (f False it m) = G"
  shows "ref_view (then_match r f) = ref_then R F G"
proof -
  consider "r = None" | e where "r = Some (Inl e)" | b it m where "r = Some (Inr (b, it, m))"
    by (metis option.exhaust sum.exhaust prod_cases3)
  then show ?thesis
  proof cases
    case (3 b it m)
    with assms show ?thesis by (cases b) simp_all
  qed (simp_all add: assms(1))
qed

lemma rmatch_cons:
  assumes "a \<noteq> Last"
  shows "rmatch (a # k) h it parent c = ref_then (rmatch [a] h it parent c) (\<lambda>it c. rmatch k h it parent c) ref_fail"
  using assms
  by (cases a) (auto simp: ref_then_assoc split: sum.split option.split intro!: ref_then_cong)

text \<open>What is shown of a pattern: its matches are those of the map, its captures stay above the frames it was
  given, and without captures it leaves them alone.\<close>

definition implements :: "pattern list \<Rightarrow> bool" where
  "implements p \<longleftrightarrow> (\<forall>h it parent m. match_ok m \<longrightarrow>
     ref_view (pmatch p h it parent m) = rmatch p h it parent (captures_of m) \<and>
     (\<forall>b it' m'. pmatch p h it parent m = Some (Inr (b, it', m')) \<longrightarrow>
       above m m' \<and> (list_all capture_free p \<longrightarrow> same_captures m m')))"

lemma implementsD:
  assumes "implements p" "match_ok m"
  shows "ref_view (pmatch p h it parent m) = rmatch p h it parent (captures_of m)"
    "pmatch p h it parent m = Some (Inr (b, it', m')) \<Longrightarrow> above m m'"
    "pmatch p h it parent m = Some (Inr (b, it', m')) \<Longrightarrow> match_ok m'"
    "pmatch p h it parent m = Some (Inr (b, it', m')) \<Longrightarrow> list_all capture_free p \<Longrightarrow> same_captures m m'"
  using assms unfolding implements_def above_def by blast+

lemma same_captures_of: "same_captures m m' \<Longrightarrow> captures_of m' = captures_of m"
  by (simp add: captures_of_def same_captured)

lemma and_matchE:
  assumes "and_match r f = Some (Inr (b, it', m'))"
  obtains it m where "r = Some (Inr (True, it, m))" "f it m = Some (Inr (b, it', m'))"
  | it where "r = Some (Inr (False, it, m'))" "\<not> b"
  using assms by (auto simp: and_match_def elim!: then_matchE split: if_splits)

lemma implements_cons:
  assumes "implements [a]" "implements k" "a \<noteq> Last"
  shows "implements (a # k)"
  unfolding implements_def
proof (intro allI impI conjI)
  fix h it parent m
  assume ok: "match_ok m"
  show "ref_view (pmatch (a # k) h it parent m) = rmatch (a # k) h it parent (captures_of m)"
    unfolding pmatch_cons [OF assms(3), of k h it parent m] rmatch_cons [OF assms(3), of k h it parent] and_match_def
    by (rule view_then) (use implementsD [OF assms(1) ok] implementsD(1) [OF assms(2)] in simp_all)
  fix b it' m'
  assume r: "pmatch (a # k) h it parent m = Some (Inr (b, it', m'))"
  have "above m m' \<and> (list_all capture_free (a # k) \<longrightarrow> same_captures m m')"
    using r unfolding pmatch_cons [OF assms(3), of k h it parent m]
  proof (cases rule: and_matchE)
    case (1 it1 m1)
    note a1 = implementsD(2-4) [OF assms(1) ok 1(1)] and a2 = implementsD(2-4) [OF assms(2) _ 1(2)]
    have "same_captures m m'" if "list_all capture_free (a # k)"
      using same_trans [OF a1(3) a2(3) [OF a1(2)]] that by simp
    with above_trans [OF a1(1) a2(1) [OF a1(2)]] show ?thesis by blast
  next
    case (2 it1)
    with implementsD(2-4) [OF assms(1) ok 2(1)] show ?thesis by simp
  qed
  then show "above m m'" "list_all capture_free (a # k) \<Longrightarrow> same_captures m m'" by blast+
qed

lemma implements_list: "(\<And>a. a \<in> set p \<Longrightarrow> implements [a]) \<Longrightarrow> implements p"
proof (induction p)
  case Nil
  then show ?case by (simp add: implements_def) 
next
  case (Cons a p)
  show ?case
  proof (cases "a = Last")
    case True
    then show ?thesis by (auto simp: implements_def)
  next
    case False
    with Cons implements_cons show ?thesis by simp
  qed
qed

lemma implementsI:
  assumes "\<And>h it parent m. match_ok m \<Longrightarrow> ref_view (pmatch p h it parent m) = rmatch p h it parent (captures_of m)"
    and "\<And>h it parent m b it' m'. match_ok m \<Longrightarrow> pmatch p h it parent m = Some (Inr (b, it', m')) \<Longrightarrow>
      above m m' \<and> (list_all capture_free p \<longrightarrow> same_captures m m')"
  shows "implements p"
  using assms unfolding implements_def by blast

lemma captures_of_set: "match_ok m \<Longrightarrow> captures_of (set_match t r m) = (captures_of m)(t \<mapsto> r)"
  by (auto simp: captures_of_def set_match_above(2))

lemma implements_cap:
  assumes "implements q"
  shows "implements [CapP name q]"
proof (rule implementsI)
  fix h it parent m
  assume ok: "match_ok m"
  note q = implementsD [OF assms ok]
  show "ref_view (pmatch [CapP name q] h it parent m) = rmatch [CapP name q] h it parent (captures_of m)"
    unfolding pmatch.simps rmatch.simps
    by (rule view_then) (use q in \<open>simp_all add: captures_of_set\<close>)
  fix b it' m'
  assume "pmatch [CapP name q] h it parent m = Some (Inr (b, it', m'))"
  then obtain b1 it1 m1 where m1: "pmatch q h it parent m = Some (Inr (b1, it1, m1))" "m' = (if b1 then set_match name (parent, it, it1) m1 else m1)"
    by (auto elim!: then_matchE split: if_splits)
  with above_trans [OF q(2) set_match_above(1) [OF q(3)]] q(2)
  show "above m m' \<and> (list_all capture_free [CapP name q] \<longrightarrow> same_captures m m')" by (cases b1) simp_all
qed

lemma implements_action:
  assumes "implements q"
  shows "implements [Action act q]"
proof (rule implementsI)
  fix h it parent m
  assume ok: "match_ok m"
  note q = implementsD [OF assms ok]
  show "ref_view (pmatch [Action act q] h it parent m) = rmatch [Action act q] h it parent (captures_of m)"
    unfolding pmatch.simps rmatch.simps
    by (rule view_then) (use q in simp_all)
  fix b it' m'
  assume "pmatch [Action act q] h it parent m = Some (Inr (b, it', m'))"
  then obtain b1 it1 where "pmatch q h it parent m = Some (Inr (b1, it1, m'))"
    by (auto elim!: then_matchE split: if_splits)
  with q(2,4) show "above m m' \<and> (list_all capture_free [Action act q] \<longrightarrow> same_captures m m')" by simp
qed

lemma implements_opt:
  assumes "implements q"
  shows "implements [OptP q]"
proof (rule implementsI)
  fix h it parent m
  assume ok: "match_ok m"
  obtain f m0 where f: "add_frame m = (f, m0)" by (cases "add_frame m")
  note s = add_frame_same(2) [OF ok f]
  note q = implementsD [OF assms ok_from(2) [OF s]]
  note undo = return_same [OF ok f q(2)]
  show "ref_view (pmatch [OptP q] h it parent m) = rmatch [OptP q] h it parent (captures_of m)"
    unfolding pmatch.simps rmatch.simps f Let_def prod.case
    by (rule view_then) (use q(1) same_captures_of [OF s] same_captures_of [OF undo] in simp_all)
  fix b it' m'
  assume "pmatch [OptP q] h it parent m = Some (Inr (b, it', m'))"
  then obtain b1 it1 m1 where m1: "pmatch q h it parent m0 = Some (Inr (b1, it1, m1))" "m' = (if b1 then m1 else return_to_frame f m1)"
    by (auto simp: f elim!: then_matchE split: if_splits)
  show "above m m' \<and> (list_all capture_free [OptP q] \<longrightarrow> same_captures m m')"
  proof (cases b1)
    case True
    with m1 above_trans [OF same_above [OF s] q(2)] same_trans [OF s q(4)] show ?thesis by simp
  next
    case False
    with m1 undo [OF m1(1)] same_above show ?thesis by simp
  qed
qed

lemma implements_pred:
  assumes "implements q" "list_all capture_free q"
  shows "implements [Pred q]" "implements [NegPred q]" "implements [NotP q]"
proof -
  have s: "same_captures m m1" if "match_ok m" "pmatch q h it parent m = Some (Inr (b1, it1, m1))" for h it parent m b1 it1 m1
    by (rule implementsD(4) [OF assms(1) that assms(2)])
  show "implements [Pred q]"
  proof (rule implementsI)
    fix h it parent m
    assume ok: "match_ok m"
    show "ref_view (pmatch [Pred q] h it parent m) = rmatch [Pred q] h it parent (captures_of m)"
      unfolding pmatch.simps rmatch.simps
      by (rule view_then) (use implementsD(1) [OF assms(1) ok] same_captures_of [OF s [OF ok]] in simp_all)
  qed (auto elim!: then_matchE split: if_splits intro: s same_above [OF s])
  show "implements [NegPred q]"
  proof (rule implementsI)
    fix h it parent m
    assume ok: "match_ok m"
    show "ref_view (pmatch [NegPred q] h it parent m) = rmatch [NegPred q] h it parent (captures_of m)"
      unfolding pmatch.simps rmatch.simps
      by (rule view_then) (use implementsD(1) [OF assms(1) ok] same_captures_of [OF s [OF ok]] in simp_all)
  qed (auto elim!: then_matchE split: if_splits intro: s same_above [OF s])
  show "implements [NotP q]"
  proof (rule implementsI)
    fix h it parent m
    assume ok: "match_ok m"
    have "ref_view (then_match (pmatch q h it parent m) (\<lambda>b begin m. if b then returned False (it + 1) m else pmatch [] h (it + 1) parent m)) =
        ref_then (rmatch q h it parent (captures_of m)) (\<lambda>_ _. ref_fail) (rmatch [] h (it + 1) parent (captures_of m))"
      by (rule view_then) (use implementsD(1) [OF assms(1) ok] same_captures_of [OF s [OF ok]] in simp_all)
    then show "ref_view (pmatch [NotP q] h it parent m) = rmatch [NotP q] h it parent (captures_of m)" by simp
  qed (auto elim!: then_matchE split: if_splits intro: s same_above [OF s])
qed

lemma implements_simple:
  "implements [Anything]" "implements [TokenMatch ts]" "implements [RegexMatchP t r]" "implements [InsideStar ts]" "implements [Inside ts]"
  "implements [First]" "implements [Last]"
  by (rule implementsI; auto simp: list_ex_iff split: sum.splits if_splits)+

lemma ref_rep_unfold:
  "ref_rep step stop it = (if it = stop then Some (Inr it)
     else (case step it of None \<Rightarrow> None | Some (Inl e) \<Rightarrow> Some (Inl e) | Some (Inr None) \<Rightarrow> Some (Inr it)
       | Some (Inr (Some (it', c))) \<Rightarrow> ref_rep step stop it'))"
  by (subst ref_rep.simps) (auto split: option.splits sum.splits)

text \<open>The loop of \<open>Rep\<close> over a body without captures.\<close>

definition step_refines :: "match_def \<Rightarrow> (nat \<Rightarrow> match_def \<Rightarrow> match_result) \<Rightarrow> (nat \<Rightarrow> ref_result) \<Rightarrow> bool" where
  "step_refines m step S \<longleftrightarrow> (\<forall>it m1. same_captures m m1 \<longrightarrow> ref_view (step it m1) = S it \<and>
     (\<forall>b it' m2. step it m1 = Some (Inr (b, it', m2)) \<longrightarrow> same_captures m m2))"

lemma step_refinesD:
  assumes "step_refines m step S" "same_captures m m1"
  shows "ref_view (step it m1) = S it" "step it m1 = Some (Inr (b, it', m2)) \<Longrightarrow> same_captures m m2"
  using assms unfolding step_refines_def by blast+

definition rep_refines :: "match_def \<Rightarrow> (ast_error + nat) option \<Rightarrow> ast_error + bool \<times> nat \<times> match_def \<Rightarrow> bool" where
  "rep_refines m R r \<longleftrightarrow> R = Some (map_sum id (\<lambda>(b, it, m). it) r) \<and> (\<forall>b it' m'. r = Inr (b, it', m') \<longrightarrow> b \<and> same_captures m m')"

lemma rep_loop_refines:
  assumes "rep_loop step stop it m1 = Some r" "same_captures m m1" "step_refines m step S"
  shows "rep_refines m (ref_rep S stop it) r"
  using assms(1,2)
proof (induction rule: rep_loop_induct)
  case (stop m1)
  then show ?case by (simp add: rep_refines_def ref_rep_unfold)
next
  case (error it m1 e)
  have "S it = Some (Inl e)" using step_refinesD(1) [OF assms(3) error(3), of it] error(2) by simp
  with error(1) show ?case by (simp add: rep_refines_def ref_rep_unfold [of S stop it])
next
  case (again it m1 it1 m2 r)
  have "S it = Some (Inr (Some (it1, captures_of m2)))" using step_refinesD(1) [OF assms(3) again(4), of it] again(2) by simp
  with again(1) have "ref_rep S stop it = ref_rep S stop it1" by (simp add: ref_rep_unfold [of S stop it])
  with again(3) [OF step_refinesD(2) [OF assms(3) again(4,2)]] show ?case by simp
next
  case (last it m1 it1 m2)
  have "S it = Some (Inr None)" using step_refinesD(1) [OF assms(3) last(3), of it] last(2) by simp
  with last(1) step_refinesD(2) [OF assms(3) last(3,2)] show ?case by (simp add: rep_refines_def ref_rep_unfold [of S stop it])
qed

lemma ref_rep_ends:
  assumes "ref_rep S stop it = Some R" "same_captures m m1" "step_refines m step S"
  shows "\<exists>r. rep_loop step stop it m1 = Some r"
proof -
  have "S = S \<longrightarrow> stop = stop \<longrightarrow> (\<forall>m1. same_captures m m1 \<longrightarrow> (\<exists>r. rep_loop step stop it m1 = Some r))"
  proof (rule ref_rep.raw_induct [where P = "\<lambda>S' st it R. S' = S \<longrightarrow> st = stop \<longrightarrow>
      (\<forall>m1. same_captures m m1 \<longrightarrow> (\<exists>r. rep_loop step stop it m1 = Some r))", OF _ assms(1)], intro impI allI)
    fix loop S' st it R m1
    assume IH: "\<And>S' st it R. loop S' st it = Some R \<Longrightarrow> S' = S \<longrightarrow> st = stop \<longrightarrow>
        (\<forall>m1. same_captures m m1 \<longrightarrow> (\<exists>r. rep_loop step stop it m1 = Some r))"
      and body: "(if it = st then Some (Inr it) else Option.bind (S' it) (\<lambda>r. case r of Inl e \<Rightarrow> Some (Inl e)
        | Inr None \<Rightarrow> Some (Inr it) | Inr (Some (it', c)) \<Rightarrow> loop S' st it')) = Some R"
      and eq: "S' = S" "st = stop" and s: "same_captures m m1"
    note st = step_refinesD [OF assms(3) s, of it]
    show "\<exists>r. rep_loop step stop it m1 = Some r"
    proof (cases "it = stop")
      case True
      then show ?thesis by (simp add: rep_loop_unfold)
    next
      case False
      then obtain x where x: "S it = Some x" using body eq by (auto split: Option.bind_splits)
      with st(1) consider e where "step it m1 = Some (Inl e)" | b it1 m2 where "step it m1 = Some (Inr (b, it1, m2))"
        by (metis option.distinct(1) option.exhaust prod_cases3 ref_view_simps(1) sum.exhaust)
      then show ?thesis
      proof cases
        case 1
        with False show ?thesis by (simp add: rep_loop_unfold [of step stop it])
      next
        case 2
        show ?thesis
        proof (cases b)
          case True
          with st(1) 2 x False body eq have "loop S stop it1 = Some R" by (auto split: if_splits)
          from IH [OF this] st(2) [OF 2] have "\<exists>r. rep_loop step stop it1 m2 = Some r" by blast
          with False 2 True show ?thesis by (simp add: rep_loop_unfold [of step stop it])
        next
          case bf: False
          with False 2 show ?thesis by (simp add: rep_loop_unfold [of step stop it])
        qed
      qed
    qed
  qed
  with assms(2) show ?thesis by blast
qed

lemma implements_rep:
  assumes "implements q" "list_all capture_free q"
  shows "implements [Rep q]"
proof -
  have loop: "(case rep_loop (\<lambda>it m. pmatch q h it parent m) stop it m of
      None \<Rightarrow> ref_rep (\<lambda>it. rmatch q h it parent (captures_of m)) stop it = None
    | Some r \<Rightarrow> rep_refines m (ref_rep (\<lambda>it. rmatch q h it parent (captures_of m)) stop it) r)"
    if ok: "match_ok m" for h parent stop it m
  proof -
    have st: "step_refines m (\<lambda>it m. pmatch q h it parent m) (\<lambda>it. rmatch q h it parent (captures_of m))"
      unfolding step_refines_def
      using implementsD(1,4) [OF assms(1) ok_from(2)] same_captures_of same_trans assms(2) by metis
    show ?thesis
    proof (cases "rep_loop (\<lambda>it m. pmatch q h it parent m) stop it m")
      case None
      have "ref_rep (\<lambda>it. rmatch q h it parent (captures_of m)) stop it \<noteq> Some R" for R
        using ref_rep_ends [OF _ same_refl [OF ok] st, of stop it R] None by auto
      with None show ?thesis by (simp del: not_None_eq) (metis not_None_eq)
    next
      case (Some r)
      with rep_loop_refines [OF Some same_refl [OF ok] st] show ?thesis by simp
    qed
  qed
  show ?thesis
  proof (rule implementsI)
    fix h :: ast and it parent m
    assume ok: "match_ok m"
    let ?stop = "length (nd_children (h ! parent))"
    let ?r = "rep_loop (\<lambda>it m. pmatch q h it parent m) ?stop it m"
    note l = loop [OF ok, of h parent ?stop it]
    consider "?r = None" | e where "?r = Some (Inl e)" | b it1 m1 where "?r = Some (Inr (b, it1, m1))"
      by (metis option.exhaust sum.exhaust prod_cases3)
    then show "ref_view (pmatch [Rep q] h it parent m) = rmatch [Rep q] h it parent (captures_of m)"
      by cases (use l same_captures_of in \<open>auto simp: rep_refines_def\<close>)
    fix b it' m'
    assume "pmatch [Rep q] h it parent m = Some (Inr (b, it', m'))"
    then obtain b1 where "?r = Some (Inr (b1, it', m'))" by (auto elim!: then_matchE)
    with l have "same_captures m m'" by (auto simp: rep_refines_def)
    with same_above show "above m m' \<and> (list_all capture_free [Rep q] \<longrightarrow> same_captures m m')" by blast
  qed
qed

lemma implements_children:
  assumes "implements p" "implements q"
  shows "implements [Children p q]"
proof (rule implementsI)
  fix h it parent m
  assume ok: "match_ok m"
  note p = implementsD [OF assms(1) ok, of h it parent]
  note q = implementsD [OF assms(2) p(3), of _ _ _ h 0 "nd_children (h ! parent) ! it"]
  show "ref_view (pmatch [Children p q] h it parent m) = rmatch [Children p q] h it parent (captures_of m)"
    unfolding pmatch.simps rmatch.simps
  proof (rule view_then)
    fix it1 m1
    assume m1: "pmatch p h it parent m = Some (Inr (True, it1, m1))"
    show "ref_view (if \<not> True then returned False it1 m1 else if length (nd_children (h ! parent)) \<le> it then Some (Inl NullNode)
        else then_match (pmatch q h 0 (nd_children (h ! parent) ! it) m1) (\<lambda>b it2 m. if \<not> b then returned False it1 m else returned True it1 m)) =
      (if length (nd_children (h ! parent)) \<le> it then Some (Inl NullNode)
       else ref_then (rmatch q h 0 (nd_children (h ! parent) ! it) (captures_of m1)) (\<lambda>_ c. Some (Inr (Some (it1, c)))) ref_fail)"
      by (simp, intro impI, rule view_then) (use q(1) [OF m1] in simp_all)
  qed (use p in simp_all)
  fix b it' m'
  assume r: "pmatch [Children p q] h it parent m = Some (Inr (b, it', m'))"
  then obtain b1 m1 where m1: "pmatch p h it parent m = Some (Inr (b1, it', m1))"
    "(if b1 then \<exists>b2 it2. pmatch q h 0 (nd_children (h ! parent) ! it) m1 = Some (Inr (b2, it2, m')) else m' = m1)"
    by (auto elim!: then_matchE split: if_splits)
  show "above m m' \<and> (list_all capture_free [Children p q] \<longrightarrow> same_captures m m')"
  proof (cases b1)
    case True
    with m1(2) obtain b2 it2 where m2: "pmatch q h 0 (nd_children (h ! parent) ! it) m1 = Some (Inr (b2, it2, m'))" by auto
    from above_trans [OF p(2) [OF m1(1)] q(2) [OF m1(1) m2]] same_trans [OF p(4) [OF m1(1)] q(4) [OF m1(1) m2]]
    show ?thesis by simp
  next
    case False
    with m1 p(2,4) [OF m1(1)] show ?thesis by simp
  qed
qed

lemma implements_choice:
  assumes "implements p" "implements q" "cl \<or> list_all capture_free p"
  shows "implements [Choice cl p q]"
proof (rule implementsI)
  fix h it parent m
  assume ok: "match_ok m"
  obtain f m0 where f: "(if cl then add_frame m else (0, m)) = (f, m0)" by (cases "if cl then add_frame m else (0, m)")
  have s: "same_captures m m0" using f add_frame_same(2) [OF ok] ok by (auto split: if_splits)
  note p = implementsD [OF assms(1) ok_from(2) [OF s], of h it parent]
  let ?undo = "\<lambda>m1. if cl then return_to_frame f m1 else m1"
  have u: "same_captures m (?undo m1)" if "pmatch p h it parent m0 = Some (Inr (b, it1, m1))" for b it1 m1
    using f return_same [OF ok _ p(2) [OF that], of f] p(4) [OF that] assms(3) by (cases cl) auto
  note q = implementsD [OF assms(2) ok_from(2) [OF u], of _ _ _ h it parent]
  show "ref_view (pmatch [Choice cl p q] h it parent m) = rmatch [Choice cl p q] h it parent (captures_of m)"
    unfolding pmatch.simps rmatch.simps f Let_def prod.case
  proof (rule view_then)
    fix it1 m1
    assume m1: "pmatch p h it parent m0 = Some (Inr (False, it1, m1))"
    show "ref_view (if False then returned True it1 m1 else
        then_match (pmatch q h it parent (?undo m1)) (\<lambda>b it' m. if b then returned True it' m else returned False it' m)) =
      ref_then (rmatch q h it parent (captures_of m)) (\<lambda>it c. Some (Inr (Some (it, c)))) ref_fail"
      unfolding if_False by (rule view_then) (use q(1) [OF m1] same_captures_of [OF u [OF m1]] in simp_all)
  qed (use p(1) same_captures_of [OF s] in simp_all)
  fix b it' m'
  assume "pmatch [Choice cl p q] h it parent m = Some (Inr (b, it', m'))"
  then obtain b1 it1 m1 where m1: "pmatch p h it parent m0 = Some (Inr (b1, it1, m1))"
    "(if b1 then m' = m1 else \<exists>b2 it2. pmatch q h it parent (?undo m1) = Some (Inr (b2, it2, m')))"
    unfolding pmatch.simps f Let_def prod.case by (auto elim!: then_matchE split: if_splits)
  show "above m m' \<and> (list_all capture_free [Choice cl p q] \<longrightarrow> same_captures m m')"
  proof (cases b1)
    case True
    with m1 above_trans [OF same_above [OF s] p(2)] same_trans [OF s p(4)] show ?thesis by simp
  next
    case False
    with m1(2) obtain b2 it2 where m2: "pmatch q h it parent (?undo m1) = Some (Inr (b2, it2, m'))" by auto
    from above_trans [OF same_above [OF u [OF m1(1)]] q(2) [OF m1(1) m2]] same_trans [OF u [OF m1(1)] q(4) [OF m1(1) m2]]
    show ?thesis by simp
  qed
qed

lemma implements_free:
  assumes "\<And>a. a \<in> set p \<Longrightarrow> captures_kept_out a \<Longrightarrow> implements [a]" "list_all captures_kept_out p \<or> list_all capture_free p"
  shows "implements p"
  by (rule implements_list) (use assms capture_free_kept_out in \<open>auto simp: list_all_iff\<close>)

lemma implements_one: "captures_kept_out a \<Longrightarrow> implements [a]"
proof (induction a)
  case (CapP name p)
  have "implements p" by (rule implements_free) (use CapP in simp_all)
  then show ?case by (rule implements_cap)
next
  case (OptP p)
  have "implements p" by (rule implements_free) (use OptP in simp_all)
  then show ?case by (rule implements_opt)
next
  case (Rep p)
  have "implements p" by (rule implements_free) (use Rep in simp_all)
  with Rep.prems show ?case by (simp add: implements_rep)
next
  case (NotP p)
  have "implements p" by (rule implements_free) (use NotP in simp_all)
  with NotP.prems show ?case by (simp add: implements_pred)
next
  case (Choice cl p q)
  have "implements p" by (rule implements_free) (use Choice in \<open>simp_all split: if_splits\<close>)
  moreover have "implements q" by (rule implements_free) (use Choice in simp_all)
  ultimately show ?case by (rule implements_choice) (use Choice.prems in \<open>auto split: if_splits\<close>)
next
  case (Children p q)
  have "implements p" by (rule implements_free) (use Children in \<open>simp_all split: if_splits\<close>)
  moreover have "implements q" by (rule implements_free) (use Children in simp_all)
  ultimately show ?case by (rule implements_children)
next
  case (Pred p)
  have "implements p" by (rule implements_free) (use Pred in simp_all)
  with Pred.prems show ?case by (simp add: implements_pred)
next
  case (NegPred p)
  have "implements p" by (rule implements_free) (use NegPred in simp_all)
  with NegPred.prems show ?case by (simp add: implements_pred)
next
  case (Action act p)
  have "implements p" by (rule implements_free) (use Action in simp_all)
  then show ?case by (rule implements_action)
qed (simp_all add: implements_simple)

lemma implements_kept_out: "list_all captures_kept_out p \<Longrightarrow> implements p"
  by (rule implements_list) (simp add: list_all_iff implements_one)

subsection \<open>Patterns the operators make\<close>

text \<open>No captures inside an \<open>Action\<close>, whose \<open>has_captures\<close> does not tell of them.\<close>

fun action_free :: "pattern \<Rightarrow> bool" where
  "action_free (CapP name p) = list_all action_free p"
| "action_free (OptP p) = list_all action_free p"
| "action_free (Rep p) = list_all action_free p"
| "action_free (NotP p) = list_all action_free p"
| "action_free (Choice cl p q) = (list_all action_free p \<and> list_all action_free q)"
| "action_free (Children p q) = (list_all action_free p \<and> list_all action_free q)"
| "action_free (Pred p) = list_all action_free p"
| "action_free (NegPred p) = list_all action_free p"
| "action_free (Action a p) = list_all capture_free p"
| "action_free _ = True"

lemma has_captures_free: "captures_kept_out a \<Longrightarrow> action_free a \<Longrightarrow> \<not> has_captures_local a \<Longrightarrow> capture_free a"
  by (induction a) (auto simp: list_all_iff list_ex_iff split: if_splits)

lemma checked_free: "list_all captures_kept_out p \<Longrightarrow> list_all action_free p \<Longrightarrow> \<not> has_captures p \<Longrightarrow> list_all capture_free p"
  using has_captures_free by (auto simp: has_captures_def list_all_iff list_ex_iff)

lemma free_action: "capture_free a \<Longrightarrow> action_free a"
  by (induction a) (auto simp: list_all_iff)

lemma op_rep_parts:
  assumes "op_rep P = Inr Q"
  shows "fst Q = fst P \<or> (\<exists>ts. fst Q = [InsideStar ts]) \<or> (\<not> has_captures (fst P) \<and> fst Q = [Rep (fst P)])"
proof (cases P)
  case (Pair p f)
  with assms obtain r where r: "custom_rep p = Inr r" by (auto simp: op_rep_def and_then_def split: sum.splits)
  show ?thesis
  proof (cases r)
    case None
    with assms Pair r show ?thesis by (auto simp: op_rep_def make_rep_def split: if_splits)
  next
    case (Some q)
    then have "q = p \<or> (\<exists>ts. q = [InsideStar ts])"
      using r by (auto simp: custom_rep_def split: list.splits pattern.splits)
    with assms Pair r Some show ?thesis by (auto simp: op_rep_def)
  qed
qed

lemma op_not_parts:
  "op_pred P = Inr Q \<Longrightarrow> \<not> has_captures (fst P) \<and> fst Q = [Pred (fst P)]"
  "op_neg_pred P = Inr Q \<Longrightarrow> \<not> has_captures (fst P) \<and> fst Q = [NegPred (fst P)]"
  "op_not P = Inr Q \<Longrightarrow> \<not> has_captures (fst P) \<and> fst Q = [NotP (fst P)]"
  by (cases P; auto simp: op_pred_def op_neg_pred_def op_not_def make_pred_def make_neg_pred_def make_not_def split: if_splits)+

lemma op_seq_parts: "op_seq P Q = Inr R \<Longrightarrow> fst R = fst P @ fst Q"
  by (cases P; cases Q) (auto simp: op_seq_def set_continuation_def split: if_splits)

lemma op_choice_parts:
  "op_choice P Q = Inr R \<Longrightarrow> (\<exists>ts. fst R = [TokenMatch ts]) \<or> fst R = [Choice (has_captures (fst P)) (fst P) (fst Q)]"
  by (cases P; cases Q) (auto simp: op_choice_def make_choice_def split: if_splits)

lemma made_kept_out: "made P \<Longrightarrow> list_all action_free (fst P) \<longrightarrow> list_all captures_kept_out (fst P)"
proof (induction rule: made.induct)
  case (made_action P a)
  then show ?case by (auto simp: op_action_def list_all_iff capture_free_kept_out split: prod.split)
next
  case (made_rep P Q)
  from op_rep_parts [OF made_rep(3)] made_rep(4) checked_free [of "fst P"] show ?case by auto
next
  case (made_pred P Q)
  from op_not_parts(1) [OF made_pred(2)] made_pred(3) checked_free [of "fst P"] show ?case by auto
next
  case (made_neg_pred P Q)
  from op_not_parts(2) [OF made_neg_pred(2)] made_neg_pred(3) checked_free [of "fst P"] show ?case by auto
next
  case (made_not P Q)
  from op_not_parts(3) [OF made_not(2)] made_not(3) checked_free [of "fst P"] show ?case by auto
next
  case (made_seq P Q R)
  from op_seq_parts [OF made_seq(3)] made_seq(4,5) show ?case by simp
next
  case (made_choice P Q R)
  from op_choice_parts [OF made_choice(3)] made_choice(4,5) checked_free [of "fst P"] show ?case by auto
qed (auto simp: Any_def Start_def End_def T_tokens_def T_regex_def In_tokens_def op_capture_def op_opt_def op_children_def split: prod.splits)

lemma reset_captures: "m_captures m \<noteq> [] \<Longrightarrow> match_ok (reset_match m)" "m_captures m \<noteq> [] \<Longrightarrow> captures_of (reset_match m) = Map.empty"
  by (auto simp: match_ok_def reset_match_def captures_of_def captured_def find_capture_frames)

subsection \<open>Properties\<close>

text \<open>C31: the frames of a match implement a map: where a pattern made by the operators (\<open>~\<close> and \<open>++\<close> not
  applied to one that may start with any token and is bound to parents) has no capture inside an \<open>Action\<close>, matching it on the captures of any earlier match, reset as \<open>match_children\<close> resets them, has
  the outcome that matching with a map from tokens to ranges has that starts empty and is thrown away with
  an alternative that fails, and on success the captures an effect can look up are exactly that map.\<close>

theorem frames_implement_map:
  assumes "made P" "list_all action_free (fst P)" "m_captures m \<noteq> []"
  shows "ref_view (pmatch (fst P) h it parent (reset_match m)) = rmatch (fst P) h it parent Map.empty"
  using implementsD(1) [OF implements_kept_out reset_captures(1)] made_kept_out [OF assms(1)] assms(2,3) reset_captures(2)
  by metis

text \<open>A file that is captured as a group before an error that is missing, and then matched as a file: the
  capture is undone.\<close>

theorem frames_implement_map_witness:
  "\<exists>Q P. op_seq (op_capture Group (T_tokens [File])) (T_tokens [Error]) = Inr Q \<and> op_seq (op_opt Q) (T_tokens [File]) = Inr P \<and>
    ref_view (pmatch (fst P) sample_scope 0 0 (reset_match make_match)) = Some (Inr (Some (1, Map.empty)))"
proof -
  obtain Q where Q: "op_seq (op_capture Group (T_tokens [File])) (T_tokens [Error]) = Inr Q"
    "fst Q = [CapP Group [TokenMatch [File]], TokenMatch [Error]]" "parents (snd Q) = []"
    by (simp add: op_seq_def set_continuation_def op_capture_def T_tokens_def match_seq_def match_token_def)
  obtain P where P: "op_seq (op_opt Q) (T_tokens [File]) = Inr P" "fst P = [OptP (fst Q), TokenMatch [File]]"
    by (cases Q) (simp add: op_seq_def set_continuation_def op_opt_def T_tokens_def)
  have "made Q" using made_seq [OF made_capture [OF made_tokens] made_tokens Q(1)] by simp
  then have "made P" using made_seq [OF made_opt made_tokens P(1)] Q(3) by (simp add: no_bound_any_def)
  moreover have "list_all action_free (fst P)" by (simp add: P(2) Q(2))
  ultimately have "ref_view (pmatch (fst P) sample_scope 0 0 (reset_match make_match)) = rmatch (fst P) sample_scope 0 0 Map.empty"
    by (rule frames_implement_map) (simp add: make_match_def)
  also have "\<dots> = Some (Inr (Some (1, Map.empty)))"
    by (simp add: P(2) Q(2) sample_scope_eval sample_scope_eval [unfolded One_nat_def])
  finally show ?thesis using Q(1) P(1) by blast
qed

text \<open>An \<open>Action\<close> hides its captures: the choice takes its left side to have none and does not undo them, so a
  match of the right side comes with a capture of the left.\<close>

theorem action_leaks_capture:
  assumes "nd_children (h ! parent) = [a]" "nd_type (h ! a) = File" "match_ok m" "captured Group m = None"
  shows "\<exists>p q f m'. op_seq (op_action (\<lambda>_ _. True) (op_capture Group (T_tokens [File]))) (T_tokens [Error]) = Inr p \<and>
    op_choice p (T_tokens [File]) = Inr (q, f) \<and> pmatch q h 0 parent m = Some (Inr (True, 1, m')) \<and>
    captured Group m' = Some (parent, 0, 1)"
proof -
  let ?p = "[Action (\<lambda>_ _. True) [CapP Group [TokenMatch [File]]], TokenMatch [Error]]"
  obtain p f where p: "op_seq (op_action (\<lambda>_ _. True) (op_capture Group (T_tokens [File]))) (T_tokens [Error]) = Inr (?p, f)"
    by (simp add: op_seq_def set_continuation_def op_action_def op_capture_def T_tokens_def)
  obtain g where q: "op_choice (?p, f) (T_tokens [File]) = Inr ([Choice False ?p [TokenMatch [File]]], g)"
    by (simp add: op_choice_def only_tokens_def has_captures_def make_choice_def T_tokens_def)
  have "pmatch [Choice False ?p [TokenMatch [File]]] h 0 parent m = Some (Inr (True, 1, set_match Group (parent, 0, 1) m))"
    using assms(1,2) by (simp add: returned_def)
  with p q set_match_above(2) [OF assms(3), of Group Group "(parent, 0, 1)"] show ?thesis by auto
qed

end
