(* ===== verification/MatchEnds.thy ===== *)
theory MatchEnds
  imports PassRules
begin

text \<open>
  When matching a pattern (\<open>PatternDef::match\<close> of \<open>include/trieste/rewrite.h\<close>) ends, and ends without an access
  outside the children: the loop of \<open>Rep\<close> has no check that its body consumed a node, and \<open>Children\<close> none that the
  node whose children it matches is there, so both are left to the patterns.
\<close>

subsection \<open>Progress\<close>

text \<open>Whether every match of a pattern consumes a node.\<close>

fun consumes :: "pattern list \<Rightarrow> bool" where
  "consumes [] = False"
| "consumes (CapP name p # k) = (consumes p \<or> consumes k)"
| "consumes (Anything # k) = True"
| "consumes (TokenMatch ts # k) = True"
| "consumes (RegexMatchP t r # k) = True"
| "consumes (OptP p # k) = consumes k"
| "consumes (Rep p # k) = consumes k"
| "consumes (NotP p # k) = True"
| "consumes (Choice cl p q # k) = (consumes p \<and> consumes q \<or> consumes k)"
| "consumes (InsideStar ts # k) = consumes k"
| "consumes (Inside ts # k) = consumes k"
| "consumes (First # k) = consumes k"
| "consumes (Last # k) = False"
| "consumes (Children p q # k) = (consumes p \<or> consumes k)"
| "consumes (Pred p # k) = consumes k"
| "consumes (NegPred p # k) = consumes k"
| "consumes (Action a p # k) = (consumes p \<or> consumes k)"

text \<open>The body of every repetition consumes a node, and so does what stands left of every \<open><<\<close>: \<open>Children\<close> goes
  through the iterator at which its left pattern began without a check that it is not at the end.\<close>

fun guarded :: "pattern list \<Rightarrow> bool" where
  "guarded [] = True"
| "guarded (CapP name p # k) = (guarded p \<and> guarded k)"
| "guarded (OptP p # k) = (guarded p \<and> guarded k)"
| "guarded (Rep p # k) = (consumes p \<and> guarded p \<and> guarded k)"
| "guarded (NotP p # k) = (guarded p \<and> guarded k)"
| "guarded (Choice cl p q # k) = (guarded p \<and> guarded q \<and> guarded k)"
| "guarded (Children p q # k) = (consumes p \<and> guarded p \<and> guarded q \<and> guarded k)"
| "guarded (Pred p # k) = (guarded p \<and> guarded k)"
| "guarded (NegPred p # k) = (guarded p \<and> guarded k)"
| "guarded (Action a p # k) = (guarded p \<and> guarded k)"
| "guarded (a # k) = guarded k"

lemma consumes_cons: "a \<noteq> Last \<Longrightarrow> consumes (a # k) \<longleftrightarrow> consumes [a] \<or> consumes k"
  by (cases a) auto

lemma guarded_cons: "guarded (a # k) \<longleftrightarrow> guarded [a] \<and> guarded k"
  by (cases a) auto

lemma and_match_trueE:
  assumes "and_match r f = Some (Inr (True, it', m'))"
  obtains it m where "r = Some (Inr (True, it, m))" "f it m = Some (Inr (True, it', m'))"
  using assms by (auto simp: and_match_def elim!: then_matchE split: if_splits)

definition advances :: "pattern list \<Rightarrow> bool" where
  "advances p \<longleftrightarrow> (\<forall>h it parent m it' m'. it \<le> length (nd_children (h ! parent)) \<longrightarrow>
     pmatch p h it parent m = Some (Inr (True, it', m')) \<longrightarrow>
     it \<le> it' \<and> it' \<le> length (nd_children (h ! parent)) \<and> (consumes p \<longrightarrow> it < it'))"

lemma advancesD:
  assumes "advances p" "pmatch p h it parent m = Some (Inr (True, it', m'))" "it \<le> length (nd_children (h ! parent))"
  shows "it \<le> it'" "it' \<le> length (nd_children (h ! parent))" "consumes p \<Longrightarrow> it < it'"
  using assms unfolding advances_def by blast+

lemma advancesI:
  assumes "\<And>h it parent m it' m'. it \<le> length (nd_children (h ! parent)) \<Longrightarrow>
    pmatch p h it parent m = Some (Inr (True, it', m')) \<Longrightarrow>
    it \<le> it' \<and> it' \<le> length (nd_children (h ! parent)) \<and> (consumes p \<longrightarrow> it < it')"
  shows "advances p"
  using assms unfolding advances_def by blast

lemma advances_list: "(\<And>a. a \<in> set p \<Longrightarrow> advances [a]) \<Longrightarrow> advances p"
proof (induction p)
  case Nil
  then show ?case by (simp add: advances_def)
next
  case (Cons a p)
  show ?case
  proof (cases "a = Last")
    case True
    then show ?thesis by (auto simp: advances_def)
  next
    case False
    have a: "advances [a]" "advances p" using Cons by simp_all
    show ?thesis
    proof (rule advancesI)
      fix h it parent m it' m'
      assume i: "it \<le> length (nd_children (h ! parent))" and r: "pmatch (a # p) h it parent m = Some (Inr (True, it', m'))"
      from r [unfolded pmatch_cons [OF False, of p h it parent m]] obtain it1 m1
        where s: "pmatch [a] h it parent m = Some (Inr (True, it1, m1))" "pmatch p h it1 parent m1 = Some (Inr (True, it', m'))"
        by (rule and_match_trueE)
      note a1 = advancesD [OF a(1) s(1) i] and a2 = advancesD [OF a(2) s(2)]
      from a1 a2 consumes_cons [OF False, of p]
      show "it \<le> it' \<and> it' \<le> length (nd_children (h ! parent)) \<and> (consumes (a # p) \<longrightarrow> it < it')" by fastforce
    qed
  qed
qed

lemma advances_rep:
  assumes "advances p"
  shows "advances [Rep p]"
proof (rule advancesI)
  fix h it parent m it' m'
  assume i: "it \<le> length (nd_children (h ! parent))" and r: "pmatch [Rep p] h it parent m = Some (Inr (True, it', m'))"
  let ?n = "length (nd_children (h ! parent))"
  from r obtain b where l: "rep_loop (\<lambda>it m. pmatch p h it parent m) ?n it m = Some (Inr (b, it', m'))" by (auto elim!: then_matchE)
  have "\<forall>b it' m'. r = Inr (b, it', m') \<longrightarrow> it \<le> it' \<and> it' \<le> ?n"
    if "rep_loop (\<lambda>it m. pmatch p h it parent m) ?n it m = Some r" "it \<le> ?n" for it m r
    using that
  proof (induction rule: rep_loop_induct)
    case (again it m it1 m1 r)
    note s = advancesD(1,2) [OF assms again(2,4)]
    from again(3) [OF s(2)] s(1) show ?case by auto
  qed simp_all
  from this [OF l i] show "it \<le> it' \<and> it' \<le> ?n \<and> (consumes [Rep p] \<longrightarrow> it < it')" by simp
qed

lemma advances_one: "advances [a]"
proof (induction a)
  case (CapP name p)
  then have p: "advances p" by (rule advances_list)
  show ?case by (rule advancesI) (auto elim!: then_matchE dest: advancesD [OF p] split: if_splits)
next
  case (OptP p)
  then have p: "advances p" by (rule advances_list)
  show ?case by (rule advancesI) (auto elim!: then_matchE dest: advancesD [OF p] split: if_splits prod.splits)
next
  case (Rep p)
  then have p: "advances p" by (rule advances_list)
  then show ?case by (rule advances_rep)
next
  case (Choice cl p q)
  have p: "advances p" by (rule advances_list) (rule Choice.IH(1))
  have q: "advances q" by (rule advances_list) (rule Choice.IH(2))
  show ?case
  proof (rule advancesI)
    fix h it parent m it' m'
    assume i: "it \<le> length (nd_children (h ! parent))" and r: "pmatch [Choice cl p q] h it parent m = Some (Inr (True, it', m'))"
    from r consider m1 m2 where "pmatch p h it parent m1 = Some (Inr (True, it', m2))"
      | m1 m2 where "pmatch q h it parent m1 = Some (Inr (True, it', m2))"
      by (auto elim!: then_matchE simp: Let_def split: if_splits prod.splits)
    then show "it \<le> it' \<and> it' \<le> length (nd_children (h ! parent)) \<and> (consumes [Choice cl p q] \<longrightarrow> it < it')"
    proof cases
      case (1 m1 m2)
      from advancesD [OF p 1 i] show ?thesis by simp
    next
      case (2 m1 m2)
      from advancesD [OF q 2 i] show ?thesis by simp
    qed
  qed
next
  case (Children p q)
  have p: "advances p" by (rule advances_list) (rule Children.IH(1))
  show ?case
  proof (rule advancesI)
    fix h it parent m it' m'
    assume i: "it \<le> length (nd_children (h ! parent))" and r: "pmatch [Children p q] h it parent m = Some (Inr (True, it', m'))"
    from r obtain m1 where m1: "pmatch p h it parent m = Some (Inr (True, it', m1))" by (auto elim!: then_matchE split: if_splits)
    from advancesD [OF p m1 i]
    show "it \<le> it' \<and> it' \<le> length (nd_children (h ! parent)) \<and> (consumes [Children p q] \<longrightarrow> it < it')" by simp
  qed
next
  case (Action act p)
  then have p: "advances p" by (rule advances_list)
  show ?case by (rule advancesI) (auto elim!: then_matchE dest: advancesD [OF p] split: if_splits)
qed (auto simp: advances_def elim!: then_matchE split: if_splits sum.splits)

lemma advances_all: "advances p"
  by (rule advances_list) (rule advances_one)

subsection \<open>Termination\<close>

text \<open>A result that is there, and is an error only where the location of a node is not inside its source.\<close>

definition sound_result :: "ast \<Rightarrow> match_result \<Rightarrow> bool" where
  "sound_result h res \<longleftrightarrow> (\<exists>r. res = Some r \<and>
     (\<forall>e. r = Inl e \<longrightarrow> (\<exists>a x. e = Throws x \<and> view (nd_location (h ! a)) = Inl x)))"

definition returns :: "pattern list \<Rightarrow> bool" where
  "returns p \<longleftrightarrow> (\<forall>h it parent m. it \<le> length (nd_children (h ! parent)) \<longrightarrow> sound_result h (pmatch p h it parent m))"

lemma returnsD: "returns p \<Longrightarrow> it \<le> length (nd_children (h ! parent)) \<Longrightarrow> sound_result h (pmatch p h it parent m)"
  by (simp add: returns_def)

lemma returnsI:
  "(\<And>h it parent m. it \<le> length (nd_children (h ! parent)) \<Longrightarrow> sound_result h (pmatch p h it parent m)) \<Longrightarrow> returns p"
  by (simp add: returns_def)

lemma sound_returned [simp]: "sound_result h (returned b it m)" "sound_result h (Some (Inr x))"
  by (simp_all add: returned_def sound_result_def)

lemma then_returns:
  assumes "sound_result h r" "\<And>b it m. r = Some (Inr (b, it, m)) \<Longrightarrow> sound_result h (f b it m)"
  shows "sound_result h (then_match r f)"
proof -
  from assms(1) consider e where "r = Some (Inl e)" | b it m where "r = Some (Inr (b, it, m))"
    unfolding sound_result_def by (metis sum.exhaust prod_cases3)
  then show ?thesis by cases (use assms in simp_all)
qed

lemma returns_list: "(\<And>a. a \<in> set p \<Longrightarrow> returns [a]) \<Longrightarrow> returns p"
proof (induction p)
  case Nil
  then show ?case by (simp add: returns_def)
next
  case (Cons a p)
  show ?case
  proof (cases "a = Last")
    case True
    then show ?thesis by (simp add: returns_def)
  next
    case False
    have a: "returns [a]" "returns p" using Cons by simp_all
    show ?thesis
    proof (rule returnsI)
      fix h :: ast and it parent m
      assume i: "it \<le> length (nd_children (h ! parent))"
      show "sound_result h (pmatch (a # p) h it parent m)"
        unfolding pmatch_cons [OF False, of p h it parent m] and_match_def
      proof (rule then_returns [OF returnsD [OF a(1) i]])
        fix b it1 m1
        assume s: "pmatch [a] h it parent m = Some (Inr (b, it1, m1))"
        show "sound_result h (if b then pmatch p h it1 parent m1 else returned False it1 m1)"
          using returnsD [OF a(2), of it1 h parent m1] advancesD(2) [OF advances_all, of "[a]" h it parent m it1 m1] s i
          by (cases b) simp_all
      qed
    qed
  qed
qed

lemma rep_loop_returns:
  assumes "\<And>it m. it \<le> stop \<Longrightarrow> sound_result h (step it m)"
    and "\<And>it m it' m'. step it m = Some (Inr (True, it', m')) \<Longrightarrow> it \<le> stop \<Longrightarrow> it < it' \<and> it' \<le> stop"
    and "it \<le> stop"
  shows "sound_result h (rep_loop step stop it m)"
  using assms(3)
proof (induction "stop - it" arbitrary: it m rule: less_induct)
  case less
  show ?case
  proof (cases "it = stop")
    case True
    then show ?thesis by (simp add: rep_loop_unfold)
  next
    case False
    have f: "sound_result h (step it m)" using assms(1) less.prems by blast
    then obtain x where x: "step it m = Some x" by (auto simp: sound_result_def)
    consider e where "x = Inl e" | it1 m1 where "x = Inr (False, it1, m1)" | it1 m1 where "x = Inr (True, it1, m1)"
      by (metis sum.exhaust prod_cases3)
    then show ?thesis
    proof cases
      case (3 it1 m1)
      with assms(2) x less.prems have s: "it < it1" "it1 \<le> stop" by blast+
      with less.hyps [of it1 m1] less.prems have "sound_result h (rep_loop step stop it1 m1)" by simp
      with False 3 x show ?thesis by (simp add: rep_loop_unfold [of step stop it])
    qed (use False x f in \<open>simp_all add: rep_loop_unfold [of step stop it]\<close>)
  qed
qed

lemma returns_rep:
  assumes "returns p" "consumes p"
  shows "returns [Rep p]"
proof (rule returnsI)
  fix h :: ast and it parent m
  assume i: "it \<le> length (nd_children (h ! parent))"
  have "sound_result h (rep_loop (\<lambda>it m. pmatch p h it parent m) (length (nd_children (h ! parent))) it m)"
    by (rule rep_loop_returns [OF _ _ i])
      (use returnsD [OF assms(1)] advancesD(2) [OF advances_all] advancesD(3) [OF advances_all _ _ assms(2)] in blast)+
  then show "sound_result h (pmatch [Rep p] h it parent m)"
    unfolding pmatch.simps by (rule then_returns) simp
qed

lemma guarded_list: "guarded p \<longleftrightarrow> (\<forall>a \<in> set p. guarded [a])"
proof (induction p)
  case (Cons a p)
  from guarded_cons [of a p] Cons.IH show ?case by simp
qed simp

lemma returns_one: "guarded [a] \<Longrightarrow> returns [a]"
proof (induction a)
  case (CapP name p)
  have p: "returns p" by (rule returns_list) (use CapP guarded_list [of p] in auto)
  show ?case by (rule returnsI) (auto intro!: then_returns returnsD [OF p])
next
  case (OptP p)
  have p: "returns p" by (rule returns_list) (use OptP guarded_list [of p] in auto)
  show ?case by (rule returnsI) (auto intro!: then_returns returnsD [OF p] split: prod.split)
next
  case (Rep p)
  have p: "returns p" by (rule returns_list) (use Rep guarded_list [of p] in auto)
  with Rep.prems show ?case by (simp add: returns_rep)
next
  case (NotP p)
  have p: "returns p" by (rule returns_list) (use NotP guarded_list [of p] in auto)
  show ?case by (rule returnsI) (auto intro!: then_returns returnsD [OF p])
next
  case (Choice cl p q)
  have p: "returns p" by (rule returns_list) (use Choice guarded_list [of p] in auto)
  have q: "returns q" by (rule returns_list) (use Choice guarded_list [of q] in auto)
  show ?case by (rule returnsI) (auto simp: Let_def intro!: then_returns returnsD [OF p] returnsD [OF q] split: prod.split)
next
  case (Children p q)
  have p: "returns p" by (rule returns_list) (use Children guarded_list [of p] in auto)
  have q: "returns q" by (rule returns_list) (use Children guarded_list [of q] in auto)
  have c: "consumes p" using Children.prems by simp
  show ?case
  proof (rule returnsI)
    fix h :: ast and it parent m
    assume i: "it \<le> length (nd_children (h ! parent))"
    show "sound_result h (pmatch [Children p q] h it parent m)"
      unfolding pmatch.simps
    proof (rule then_returns [OF returnsD [OF p i]])
      fix b it1 m1
      assume m: "pmatch p h it parent m = Some (Inr (b, it1, m1))"
      have "it < length (nd_children (h ! parent))" if b
        using advancesD(2,3) [OF advances_all, of p h it parent m it1 m1] m c i that by simp
      then show "sound_result h (if \<not> b then returned False it1 m1
          else if length (nd_children (h ! parent)) \<le> it then Some (Inl NullNode)
          else then_match (pmatch q h 0 (nd_children (h ! parent) ! it) m1)
            (\<lambda>b it2 m. if \<not> b then returned False it1 m else returned True it1 m))"
        by (auto intro!: then_returns returnsD [OF q])
    qed
  qed
next
  case (Pred p)
  have p: "returns p" by (rule returns_list) (use Pred guarded_list [of p] in auto)
  show ?case by (rule returnsI) (auto intro!: then_returns returnsD [OF p])
next
  case (NegPred p)
  have p: "returns p" by (rule returns_list) (use NegPred guarded_list [of p] in auto)
  show ?case by (rule returnsI) (auto intro!: then_returns returnsD [OF p])
next
  case (Action act p)
  have p: "returns p" by (rule returns_list) (use Action guarded_list [of p] in auto)
  show ?case by (rule returnsI) (auto intro!: then_returns returnsD [OF p])
next
  case (RegexMatchP t r)
  show ?case by (rule returnsI) (auto simp: sound_result_def [of _ "Some (Inl _)"] split: sum.split)
qed (auto simp: returns_def)

lemma returns_guarded: "guarded p \<Longrightarrow> returns p"
  using guarded_list [of p] returns_one returns_list [of p] by blast

text \<open>C32: matching a pattern ends where the body of each repetition, and what stands left of each \<open><<\<close>, must
  consume a node. From any position below any node it returns, without going through an iterator at the end of the
  children; where the location of every node is inside its source, no exception is thrown. A match ends between
  where it began and the end of the children, beyond where it began if the pattern must consume.\<close>

theorem guarded_match_returns:
  assumes "guarded p" "it \<le> length (nd_children (h ! parent))"
  shows "\<exists>r. pmatch p h it parent m = Some r \<and>
    (\<forall>e. r = Inl e \<longrightarrow> (\<exists>a x. e = Throws x \<and> view (nd_location (h ! a)) = Inl x)) \<and>
    (\<forall>it' m'. r = Inr (True, it', m') \<longrightarrow>
      it \<le> it' \<and> it' \<le> length (nd_children (h ! parent)) \<and> (consumes p \<longrightarrow> it < it'))"
proof -
  obtain r where r: "pmatch p h it parent m = Some r" "\<forall>e. r = Inl e \<longrightarrow> (\<exists>a x. e = Throws x \<and> view (nd_location (h ! a)) = Inl x)"
    using returnsD [OF returns_guarded assms(2)] assms(1) unfolding sound_result_def by blast
  with advancesD [OF advances_all _ assms(2)] show ?thesis by blast
qed

theorem guarded_match_returns_witness:
  "\<exists>r. pmatch [Rep [OptP [First], Anything], Last] sample_scope 0 0 make_match = Some r \<and> r \<noteq> Inl NullNode"
  using guarded_match_returns [of "[Rep [OptP [First], Anything], Last]" 0 sample_scope 0 make_match] by auto

text \<open>The operators make patterns that are not guarded. \<open>Any * (~T(t) << Any)\<close> goes through the iterator at the
  end of the children where the node is the last.\<close>

theorem children_of_end:
  assumes "length (nd_children (h ! parent)) = 1"
  shows "\<exists>p f. op_seq Any (op_children (op_opt (T_tokens [t])) Any) = Inr (p, f) \<and>
    pmatch p h 0 parent m = Some (Inl NullNode)"
proof -
  have "op_seq Any (op_children (op_opt (T_tokens [t])) Any) =
      Inr ([Anything, Children [OptP [TokenMatch [t]]] [Anything]], match_seq match_any (match_opt (match_token [t])))"
    by (simp add: op_seq_def Any_def op_children_def op_opt_def T_tokens_def set_continuation_def)
  moreover have "pmatch [Anything, Children [OptP [TokenMatch [t]]] [Anything]] h 0 parent m = Some (Inl NullNode)"
    using assms by (simp add: returned_def split: prod.split)
  ultimately show ?thesis by blast
qed

text \<open>\<open>(~T(t))++\<close> never returns where \<open>t\<close> is missing.\<close>

theorem rep_of_opt_diverges:
  assumes "it < length (nd_children (h ! parent))" "nd_type (h ! (nd_children (h ! parent) ! it)) \<noteq> t"
  shows "\<exists>p f. op_rep (op_opt (T_tokens [t])) = Inr (p, f) \<and> pmatch p h it parent m = None"
proof -
  let ?step = "\<lambda>it m. pmatch [OptP [TokenMatch [t]]] h it parent m"
  have made: "op_rep (op_opt (T_tokens [t])) = Inr ([Rep [OptP [TokenMatch [t]]]], match_opt (match_opt (match_token [t])))"
    by (simp add: op_rep_def op_opt_def T_tokens_def custom_rep_def make_rep_def has_captures_def)
  have never: "i \<noteq> it" if "rep_loop ?step (length (nd_children (h ! parent))) i m = Some r" for i m r
    using that
  proof (induction rule: rep_loop_induct)
    case (again i m i1 m1 r)
    show ?case
    proof
      assume i: "i = it"
      with again(2) assms have "i1 = it" by (simp split: prod.splits)
      with again(3) show False by simp
    qed
  qed (use assms in \<open>auto simp: returned_def split: prod.splits\<close>)
  have none: "rep_loop ?step (length (nd_children (h ! parent))) it m = None"
    using never [of it m] by (cases "rep_loop ?step (length (nd_children (h ! parent))) it m") auto
  have "pmatch [Rep [OptP [TokenMatch [t]]]] h it parent m = None"
    unfolding pmatch.simps(7) none by simp
  with made show ?thesis by blast
qed

end
