(* ===== verification/JsonText.thy ===== *)
theory JsonText
  imports Utf8 Source
begin

text \<open>
  The text functions of \<open>parsers/json/json.cc\<close>: escaping and unescaping of JSON strings, and the class
  \<open>Pointer\<close>, which takes the text of a JSON pointer apart into its keys. A stream that is written to is the
  list of the bytes written.
\<close>

subsection \<open>Escapes\<close>

definition json_escape_byte :: "byte \<Rightarrow> bytes" where
  "json_escape_byte c =
     (if c = 0x08 then [c8 CHR 0x5C, c8 CHR ''b'']
      else if c = 0x0C then [c8 CHR 0x5C, c8 CHR ''f'']
      else if c = 0x0A then [c8 CHR 0x5C, c8 CHR ''n'']
      else if c = 0x0D then [c8 CHR 0x5C, c8 CHR ''r'']
      else if c = 0x09 then [c8 CHR 0x5C, c8 CHR ''t'']
      else if c = c8 CHR 0x5C then [c8 CHR 0x5C, c8 CHR 0x5C]
      else if c = 0x22 then [c8 CHR 0x5C, 0x22]
      else [c])"

definition json_escape :: "bytes \<Rightarrow> bytes" where
  "json_escape s = concat (map json_escape_byte s)"

text \<open>The branches for one rune of \<open>escape_unicode\<close>; \<open>(char)r.value\<close> is the low byte.\<close>

definition json_escape_rune :: "rune \<Rightarrow> bytes" where
  "json_escape_rune r =
     (if r > 0x7FFF then c8 CHR 0x5C # lit ''uFFFD''
      else if r > 0x7F then [c8 CHR 0x5C, c8 CHR ''u''] @ hex_padded 4 r
      else json_escape_byte (ucast r))"

function json_escape_unicode :: "bytes \<Rightarrow> bytes" where
  "json_escape_unicode s =
     (if s = [] then []
      else let (r, c) = utf8_decode s in json_escape_rune r @ json_escape_unicode (drop (length c) s))"
  by pat_completeness auto
termination
  by (relation "measure length") (use utf8_decode_progress in \<open>fastforce simp: prod_eq_iff\<close>)+

declare json_escape_unicode.simps [simp del]

datatype json_error = TextError string_error | InvalidEscape | ReadsPastEnd

definition escaped_char :: "byte \<Rightarrow> byte option" where
  "escaped_char c =
     (if c = c8 CHR ''b'' then Some 0x08
      else if c = c8 CHR ''f'' then Some 0x0C
      else if c = c8 CHR ''n'' then Some 0x0A
      else if c = c8 CHR ''r'' then Some 0x0D
      else if c = c8 CHR ''t'' then Some 0x09
      else if c = c8 CHR 0x5C \<or> c = c8 CHR ''/'' \<or> c = 0x22 then Some c
      else None)"

fun unescape_loop :: "bytes \<Rightarrow> json_error + bytes" where
  "unescape_loop [] = Inr []"
| "unescape_loop [c] = (if c = c8 CHR 0x5C then Inl ReadsPastEnd else Inr [c])"
| "unescape_loop (c # d # s) =
     (if c = c8 CHR 0x5C then
        (case escaped_char d of
           None \<Rightarrow> Inl InvalidEscape
         | Some x \<Rightarrow> map_sum id ((#) x) (unescape_loop s))
      else map_sum id ((#) c) (unescape_loop (d # s)))"

definition json_unescape :: "bytes \<Rightarrow> json_error + bytes" where
  "json_unescape s =
     (case unescape_hexunicode s of
        Inl e \<Rightarrow> Inl (TextError e)
      | Inr temp \<Rightarrow> unescape_loop temp)"

subsection \<open>Escaping and unescaping\<close>

text \<open>No backslash that, doubled, begins a numeric escape for \<open>unescape_hexunicode\<close>.\<close>

fun numeric_free :: "bytes \<Rightarrow> bool" where
  "numeric_free (c # d # s) =
     (\<not> (c = c8 CHR 0x5C \<and> d \<in> set (lit ''xuU'')) \<and> numeric_free (d # s))"
| "numeric_free s = True"

lemma unescape_loop_plain: "c \<noteq> c8 CHR 0x5C \<Longrightarrow> unescape_loop (c # s) = map_sum id ((#) c) (unescape_loop s)"
  by (cases s) simp_all

lemma loop_escape_byte: "unescape_loop (json_escape_byte c @ s) = map_sum id ((#) c) (unescape_loop s)"
  by (simp add: json_escape_byte_def escaped_char_def unescape_loop_plain)

lemma unescape_loop_escape: "unescape_loop (json_escape s) = Inr s"
  by (induction s) (simp_all add: json_escape_def loop_escape_byte)

text \<open>A backslash that does not begin a numeric escape is copied.\<close>

lemma unescape_hex_backslash:
  assumes "s = [] \<or> hd s \<notin> set (lit ''xuU'')"
  shows "unescape_hexunicode (c8 CHR 0x5C # s) = map_sum id ((#) (c8 CHR 0x5C)) (unescape_hexunicode s)"
proof -
  have "utf8_unescape (c8 CHR 0x5C # s) = Inr (c32 CHR 0x5C, [c8 CHR 0x5C])"
    using assms by (cases s) (auto simp: utf8_unescape_def)
  moreover have "write_rune (c32 CHR 0x5C) = [c8 CHR 0x5C]" by (simp add: write_rune.simps)
  moreover have "(@) [c8 CHR 0x5C] = (#) (c8 CHR 0x5C)" by (rule ext) simp
  ultimately show ?thesis by (subst unescape_hexunicode.simps) (simp add: utf8_to_rune_def)
qed

lemma unescape_hex_plain:
  "c \<noteq> c8 CHR 0x5C \<Longrightarrow> unescape_hexunicode (c # s) = map_sum id ((#) c) (unescape_hexunicode s)"
  by (subst unescape_hexunicode.simps) simp

lemma escape_byte_head: "hd (json_escape_byte c @ s) = (if tl (json_escape_byte c) = [] then c else c8 CHR 0x5C)"
  "json_escape_byte c \<noteq> []"
  by (simp_all add: json_escape_byte_def)

lemma numeric_free_Cons: "numeric_free (c # s) \<Longrightarrow> numeric_free s \<and> (c = c8 CHR 0x5C \<longrightarrow> s = [] \<or> hd s \<notin> set (lit ''xuU''))"
  by (cases s) auto

lemma unescape_hex_escape: "numeric_free s \<Longrightarrow> unescape_hexunicode (json_escape s) = Inr (json_escape s)"
proof (induction s)
  case Nil
  then show ?case by (simp add: json_escape_def)
next
  case (Cons c s)
  note f = numeric_free_Cons [OF Cons.prems]
  have IH: "unescape_hexunicode (json_escape s) = Inr (json_escape s)" using Cons f by simp
  have e: "json_escape (c # s) = json_escape_byte c @ json_escape s" by (simp add: json_escape_def)
  show ?case
  proof (cases "c = c8 CHR 0x5C")
    case True
    have "json_escape s = [] \<or> hd (json_escape s) \<notin> set (lit ''xuU'')"
    proof (cases s)
      case (Cons d t)
      with f True have "d \<notin> set (lit ''xuU'')" by simp
      then have "hd (json_escape s) \<notin> set (lit ''xuU'')" by (auto simp: Cons json_escape_def json_escape_byte_def)
      then show ?thesis ..
    qed (simp add: json_escape_def)
    with IH have "unescape_hexunicode (c8 CHR 0x5C # json_escape s) = Inr (c8 CHR 0x5C # json_escape s)"
      by (simp only: unescape_hex_backslash) simp
    moreover have "json_escape_byte c = [c8 CHR 0x5C, c8 CHR 0x5C]" using True by (simp add: json_escape_byte_def)
    ultimately show ?thesis unfolding e by (simp add: unescape_hex_backslash [simplified])
  next
    case False
    then show ?thesis using IH
      by (simp add: e json_escape_byte_def unescape_hex_backslash [simplified] unescape_hex_plain [simplified])
  qed
qed

text \<open>C39: \<open>unescape\<close> undoes \<open>escape\<close> of a JSON string in which no backslash is followed by \<open>x\<close>, \<open>u\<close> or \<open>U\<close>.\<close>

theorem json_escape_roundtrip:
  assumes "numeric_free s"
  shows "json_unescape (json_escape s) = Inr s"
  by (simp add: json_unescape_def unescape_hex_escape [OF assms] unescape_loop_escape)

theorem json_escape_roundtrip_witness:
  "json_unescape (json_escape [0x22, 0x0A, 0x5C, 0x6E, 0x5C]) = Inr [0x22, 0x0A, 0x5C, 0x6E, 0x5C]"
  by (rule json_escape_roundtrip) simp

text \<open>\<open>escape\<close> doubles the backslash of the text \<open>\u0041\<close>, but \<open>unescape\<close> reads the numeric escape after the
  first backslash, and fails on what is left.\<close>

theorem unescape_escape_fails:
  "json_unescape (json_escape (c8 CHR 0x5C # lit ''u0041'')) = Inl InvalidEscape"
proof -
  have e: "json_escape (c8 CHR 0x5C # lit ''u0041'') = [0x5C, 0x5C, 0x75, 0x30, 0x30, 0x34, 0x31]"
    by (simp add: json_escape_def json_escape_byte_def)
  have "stoul16 [0x30, 0x30, 0x34, 0x31] = Inr 0x41"
    by (subst stoul16_hex) (simp_all add: is_hex_def hex_value_def)
  then have "utf8_unescape [0x5C, 0x75, 0x30, 0x30, 0x34, 0x31] = Inr (0x41, [0x5C, 0x75, 0x30, 0x30, 0x34, 0x31])"
    by (simp add: utf8_unescape_def)
  then have "unescape_hexunicode [0x5C, 0x75, 0x30, 0x30, 0x34, 0x31] = Inr [0x41]"
    by (subst unescape_hexunicode.simps) (simp add: utf8_to_rune_def write_rune.simps)
  then have "unescape_hexunicode [0x5C, 0x5C, 0x75, 0x30, 0x30, 0x34, 0x31] = Inr [0x5C, 0x41]"
    using unescape_hex_backslash [of "[0x5C, 0x75, 0x30, 0x30, 0x34, 0x31]"] by simp
  then show ?thesis unfolding e by (simp add: json_unescape_def escaped_char_def)
qed

text \<open>\<open>escape\<close> is documented to return a valid JSON string, in which no control character may occur.\<close>

theorem json_escape_keeps_controls: "json_escape [0x01] = [0x01]"
  by (simp add: json_escape_def json_escape_byte_def)

subsection \<open>Pointers\<close>

text \<open>A \<open>Pointer\<close> is the vector of its keys, and whether it has no error. \<open>obj\<close> numbers the sources that
  are made for keys with escapes.\<close>

fun scan_key :: "bytes \<Rightarrow> nat \<Rightarrow> bool \<Rightarrow> nat \<times> bool" where
  "scan_key [] end_pos needs_replacement = (end_pos, needs_replacement)"
| "scan_key (c # s) end_pos needs_replacement =
     (if c = c8 CHR ''/'' then (end_pos, needs_replacement)
      else scan_key s (end_pos + 1) (needs_replacement \<or> c = c8 CHR ''~''))"

fun unescape_key :: "bytes \<Rightarrow> bytes option" where
  "unescape_key [] = Some []"
| "unescape_key (c # s) =
     (if c = c8 CHR ''~'' then
        (case s of
           [] \<Rightarrow> None
         | i # t \<Rightarrow>
             if i = c8 CHR ''0'' then map_option ((#) (c8 CHR ''~'')) (unescape_key t)
             else if i = c8 CHR ''1'' then map_option ((#) (c8 CHR ''/'')) (unescape_key t)
             else None)
      else map_option ((#) c) (unescape_key s))"

text \<open>The next key, if there is one, and the new position; a view that is shorter than the location is read
  past its end.\<close>

definition next_key :: "nat \<Rightarrow> location \<Rightarrow> nat \<Rightarrow> string_error + (location option \<times> nat)" where
  "next_key obj path pos =
     and_then (view path) (\<lambda>path_view.
       if length path_view < loc_len path \<or> loc_len path \<le> pos then Inl OutOfBounds
       else if path_view ! pos \<noteq> c8 CHR ''/'' then Inr (None, pos)
       else
         let (end_pos, needs_replacement) = scan_key (drop (pos + 1) (take (loc_len path) path_view)) (pos + 1) False;
             pos = pos + 1;
             key = \<lparr>loc_source = loc_source path, loc_pos = loc_pos path + pos, loc_len = end_pos - pos\<rparr>;
             pos = end_pos
         in if \<not> needs_replacement then Inr (Some key, pos)
            else and_then (view key) (\<lambda>v. Inr (map_option (location_of_string obj) (unescape_key v), pos)))"

lemma scan_key_takeWhile:
  "scan_key s e f = (e + length (takeWhile ((\<noteq>) (c8 CHR ''/'')) s), f \<or> c8 CHR ''~'' \<in> set (takeWhile ((\<noteq>) (c8 CHR ''/'')) s))"
  by (induction s arbitrary: e f) auto

lemma next_key_progress: "next_key obj path pos = Inr (Some key, pos') \<Longrightarrow> pos < pos'"
  by (auto simp: next_key_def and_then_Inr_iff scan_key_takeWhile Let_def split: if_splits)

function pointer_keys :: "nat \<Rightarrow> location \<Rightarrow> nat \<Rightarrow> location list \<Rightarrow> string_error + (location list \<times> bool)" where
  "pointer_keys obj path pos keys =
     (if pos < loc_len path then
        (case next_key obj path pos of
           Inl e \<Rightarrow> Inl e
         | Inr (None, pos) \<Rightarrow> Inr (keys, False)
         | Inr (Some key, pos) \<Rightarrow> pointer_keys (obj + 1) path pos (keys @ [key]))
      else Inr (keys, True))"
  by pat_completeness auto
termination
  by (relation "measure (\<lambda>(obj, path, pos, keys). loc_len path - pos)") (auto dest: next_key_progress)

declare pointer_keys.simps [simp del]

definition make_pointer :: "nat \<Rightarrow> location \<Rightarrow> string_error + (location list \<times> bool)" where
  "make_pointer obj path = pointer_keys obj path 0 []"

text \<open>The syntax: every key after a slash, with \<open>~\<close> and \<open>/\<close> escaped.\<close>

definition escape_key :: "bytes \<Rightarrow> bytes" where
  "escape_key k = concat (map (\<lambda>c. if c = c8 CHR ''~'' then lit ''~0'' else if c = c8 CHR ''/'' then lit ''~1'' else [c]) k)"

definition pointer_text :: "bytes list \<Rightarrow> bytes" where
  "pointer_text ks = concat (map (\<lambda>k. c8 CHR ''/'' # escape_key k) ks)"

lemma unescape_escape_key: "unescape_key (escape_key k) = Some k"
  by (induction k) (auto simp: escape_key_def)

lemma escape_key_no_slash: "c8 CHR ''/'' \<notin> set (escape_key k)"
  by (induction k) (auto simp: escape_key_def)

lemma escape_key_plain: "c8 CHR ''~'' \<notin> set (escape_key k) \<Longrightarrow> escape_key k = k"
proof (induction k)
  case (Cons c k)
  then have "c \<noteq> c8 CHR ''~''" "c \<noteq> c8 CHR ''/''" "c8 CHR ''~'' \<notin> set (escape_key k)"
    by (auto simp: escape_key_def)
  with Cons.IH show ?case by (simp add: escape_key_def)
qed (simp add: escape_key_def)

lemma unescape_key_plain: "c8 CHR ''~'' \<notin> set k \<Longrightarrow> unescape_key k = Some k"
  by (induction k) auto

text \<open>A key without slashes that can be unescaped is the escape of what it stands for.\<close>

lemma unescape_key_escape: "unescape_key s = Some k \<Longrightarrow> c8 CHR ''/'' \<notin> set s \<Longrightarrow> escape_key k = s"
proof (induction s arbitrary: k rule: unescape_key.induct)
  case (2 c s)
  then show ?case by (auto simp: escape_key_def split: if_splits list.splits)
qed (simp add: escape_key_def)

lemma pointer_text_unique: "pointer_text ks = pointer_text ks' \<Longrightarrow> ks = ks'"
proof (induction ks arbitrary: ks')
  case Nil
  then show ?case by (cases ks') (auto simp: pointer_text_def)
next
  case (Cons k ks)
  then obtain k' ks2 where ks': "ks' = k' # ks2" by (cases ks') (auto simp: pointer_text_def)
  have t: "takeWhile ((\<noteq>) (c8 CHR ''/'')) (escape_key k @ pointer_text ks) = escape_key k" for k ks
    using escape_key_no_slash [of k] by (cases ks) (auto simp: pointer_text_def takeWhile_append intro!: takeWhile_eq_all_conv [THEN iffD2])
  have e: "escape_key k @ pointer_text ks = escape_key k' @ pointer_text ks2" using Cons.prems ks' by (simp add: pointer_text_def)
  then have "escape_key k = escape_key k'" using t by metis
  with e unescape_escape_key have "k = k'" "pointer_text ks = pointer_text ks2" by (metis option.inject, simp)
  with Cons.IH ks' show ?case by simp
qed

lemma view_synthetic: "view (location_of_string obj k) = Inr k"
  by (simp add: view_def location_of_string_def synthetic_def substr_def size_sub_def make_source_def find_lines_def)

lemma slice_view:
  assumes "inside path" "loc_source path = Some s" "view path = Inr v" "a + n \<le> length v"
  shows "loc_len path = length v" "view \<lparr>loc_source = loc_source path, loc_pos = loc_pos path + a, loc_len = n\<rparr> = Inr (take n (drop a v))"
proof -
  have v: "v = take (loc_len path) (drop (loc_pos path - sd_offset s) (sd_contents s))"
    using view_inside [OF assms(1,2)] assms(3) by simp
  have "source_ok s \<and> sd_offset s \<le> loc_pos path \<and> loc_pos path - sd_offset s + loc_len path \<le> length (sd_contents s) \<and>
    loc_pos path + loc_len path < size_mod" using assms(1,2) unfolding inside_def by (simp only: option.case)
  then have i: "source_ok s" "sd_offset s \<le> loc_pos path" "loc_pos path - sd_offset s + loc_len path \<le> length (sd_contents s)"
    "loc_pos path + loc_len path < size_mod" by blast+
  then show len: "loc_len path = length v" unfolding v by simp
  have "inside \<lparr>loc_source = loc_source path, loc_pos = loc_pos path + a, loc_len = n\<rparr>"
    using i assms(2,4) len by (simp add: inside_def)
  note w = view_inside [OF this, of s]
  have "drop a v = take (loc_len path - a) (drop (loc_pos path + a - sd_offset s) (sd_contents s))"
    by (subst v) (use i(2) in \<open>simp add: drop_take add.commute\<close>)
  then have "take n (drop a v) = take n (drop (loc_pos path + a - sd_offset s) (sd_contents s))"
    using assms(4) len by (simp add: min_absorb1)
  with w assms(2)
  show "view \<lparr>loc_source = loc_source path, loc_pos = loc_pos path + a, loc_len = n\<rparr> = Inr (take n (drop a v))" by simp
qed

lemma next_key_slash:
  assumes "inside path" "loc_source path = Some s" "view path = Inr v" "drop pos v = c8 CHR ''/'' # rest"
  defines "tk \<equiv> takeWhile ((\<noteq>) (c8 CHR ''/'')) rest"
  shows "\<exists>key. next_key obj path pos = Inr (key, pos + 1 + length tk) \<and>
    (key = None \<longleftrightarrow> unescape_key tk = None) \<and> (\<forall>k. unescape_key tk = Some k \<longrightarrow> view (the key) = Inr k)"
proof -
  have p: "pos < length v" "v ! pos = c8 CHR ''/''" "drop (pos + 1) v = rest"
    using assms(4) by (metis drop_all list.distinct(1) not_le, metis Cons_nth_drop_Suc drop_all list.inject list.distinct(1) not_le,
      metis drop_Suc list.sel(3) Suc_eq_plus1 drop_drop tl_drop)
  have len: "loc_len path = length v" using slice_view(1) [OF assms(1-3), of 0 0] by simp
  have tl: "length tk \<le> length rest" "take (length tk) rest = tk"
    unfolding tk_def by (rule length_takeWhile_le, rule takeWhile_eq_take [symmetric])
  have "pos + 1 + length tk \<le> length v" using tl(1) p(1,3) by (metis length_drop add.commute le_diff_conv2 less_iff_succ_less_eq)
  then have vk: "view \<lparr>loc_source = loc_source path, loc_pos = loc_pos path + (pos + 1), loc_len = length tk\<rparr> = Inr tk"
    using slice_view(2) [OF assms(1-3), of "pos + 1" "length tk"] p(3) tl(2) by simp
  let ?key = "\<lparr>loc_source = loc_source path, loc_pos = loc_pos path + (pos + 1), loc_len = length tk\<rparr>"
  have "scan_key (drop (pos + 1) (take (loc_len path) v)) (pos + 1) False = (pos + 1 + length tk, c8 CHR ''~'' \<in> set tk)"
    unfolding scan_key_takeWhile len take_all [OF order_refl] p(3) tk_def by simp
  then have n: "next_key obj path pos = (if c8 CHR ''~'' \<notin> set tk then Inr (Some ?key, pos + 1 + length tk)
      else Inr (map_option (location_of_string obj) (unescape_key tk), pos + 1 + length tk))"
    unfolding next_key_def assms(3) using p(1,2) len vk by (simp add: Let_def)
  show ?thesis
  proof (cases "c8 CHR ''~'' \<in> set tk")
    case True
    with n view_synthetic show ?thesis by auto
  next
    case False
    with n vk unescape_key_plain [OF False] show ?thesis by simp
  qed
qed

lemma pointer_text_Cons: "pointer_text (k # ks) = c8 CHR ''/'' # escape_key k @ pointer_text ks"
  by (simp add: pointer_text_def)

lemma pointer_text_Nil: "pointer_text [] = []" "pointer_text ks = [] \<longleftrightarrow> ks = []"
  by (simp add: pointer_text_def) (cases ks; simp add: pointer_text_def)

lemma take_escape: "takeWhile ((\<noteq>) (c8 CHR ''/'')) (escape_key k @ pointer_text ks) = escape_key k"
  using escape_key_no_slash [of k]
  by (cases ks) (auto simp: pointer_text_def takeWhile_append intro!: takeWhile_eq_all_conv [THEN iffD2])

lemma takeWhile_drop: "takeWhile P xs @ drop (length (takeWhile P xs)) xs = xs"
  by (metis takeWhile_dropWhile_id dropWhile_eq_drop)

text \<open>Reading on from \<open>pos\<close>.\<close>

lemma pointer_keys_correct:
  assumes "inside path" "loc_source path = Some s" "view path = Inr v" "pos \<le> length v"
  shows "\<exists>ls b. pointer_keys obj path pos keys = Inr (keys @ ls, b) \<and> (b \<longleftrightarrow> (\<exists>ks. drop pos v = pointer_text ks)) \<and>
    (\<forall>ks. drop pos v = pointer_text ks \<longrightarrow> map view ls = map Inr ks)"
  using assms(4)
proof (induction "length v - pos" arbitrary: obj pos keys rule: less_induct)
  case less
  have len: "loc_len path = length v" using slice_view(1) [OF assms(1-3), of 0 0] by simp
  show ?case
  proof (cases "pos < length v")
    case False
    with less.prems have p: "pos = length v" by simp
    have "pointer_keys obj path pos keys = Inr (keys, True)" by (subst pointer_keys.simps) (use False len in simp)
    then show ?thesis by (auto simp: p pointer_text_Nil [symmetric] pointer_text_Nil(2) eq_commute [of "[]"])
  next
    case True
    then have d: "drop pos v = v ! pos # drop (pos + 1) v" by (simp add: Cons_nth_drop_Suc)
    show ?thesis
    proof (cases "v ! pos = c8 CHR ''/''")
      case False
      then have "next_key obj path pos = Inr (None, pos)" using True len by (simp add: next_key_def assms(3))
      moreover have "drop pos v \<noteq> pointer_text ks" for ks using False d by (cases ks) (auto simp: pointer_text_def)
      ultimately have "pointer_keys obj path pos keys = Inr (keys @ [], False) \<and> (\<forall>ks. drop pos v \<noteq> pointer_text ks)"
        using True len by (simp add: pointer_keys.simps [of _ _ pos])
      then show ?thesis by blast
    next
      case slash: True
      define tk where "tk = takeWhile ((\<noteq>) (c8 CHR ''/'')) (drop (pos + 1) v)"
      obtain key where key: "next_key obj path pos = Inr (key, pos + 1 + length tk)" "key = None \<longleftrightarrow> unescape_key tk = None"
        "\<forall>k. unescape_key tk = Some k \<longrightarrow> view (the key) = Inr k"
        using next_key_slash [OF assms(1-3), of pos "drop (pos + 1) v" obj] d slash unfolding tk_def by metis
      have tk: "drop pos v = c8 CHR ''/'' # tk @ drop (pos + 1 + length tk) v" "c8 CHR ''/'' \<notin> set tk"
      proof -
        have "tk @ drop (pos + 1 + length tk) v = drop (pos + 1) v"
          using takeWhile_drop [of "(\<noteq>) (c8 CHR ''/'')" "drop (pos + 1) v", folded tk_def] by (simp add: add.commute)
        with d slash show "drop pos v = c8 CHR ''/'' # tk @ drop (pos + 1 + length tk) v" by simp
        show "c8 CHR ''/'' \<notin> set tk" unfolding tk_def by (auto dest: set_takeWhileD)
      qed
      show ?thesis
      proof (cases "unescape_key tk")
        case None
        have "drop pos v \<noteq> pointer_text ks" for ks
        proof
          assume e: "drop pos v = pointer_text ks"
          then obtain k ks' where "ks = k # ks'" using d by (cases ks) (auto simp: pointer_text_def)
          with e d slash have "drop (pos + 1) v = escape_key k @ pointer_text ks'" by (simp add: pointer_text_Cons)
          then have "tk = escape_key k" unfolding tk_def by (simp only: take_escape)
          with None unescape_escape_key show False by simp
        qed
        with None key(1,2) True len
        have "pointer_keys obj path pos keys = Inr (keys @ [], False) \<and> (\<forall>ks. drop pos v \<noteq> pointer_text ks)"
          by (simp add: pointer_keys.simps [of _ _ pos])
        then show ?thesis by blast
      next
        case (Some k)
        then obtain l where l: "key = Some l" "view l = Inr k" using key(2,3) by auto
        let ?e = "pos + 1 + length tk"
        have e: "?e \<le> length v" using arg_cong [OF tk(1), of length] True by (simp add: tk_def length_takeWhile_le) 
        have "length v - ?e < length v - pos" using True by simp
        from less.hyps [OF this e, of "obj + 1" "keys @ [l]"]
        obtain ls b where r: "pointer_keys (obj + 1) path ?e (keys @ [l]) = Inr ((keys @ [l]) @ ls, b)"
          "b \<longleftrightarrow> (\<exists>ks. drop ?e v = pointer_text ks)" "\<forall>ks. drop ?e v = pointer_text ks \<longrightarrow> map view ls = map Inr ks" by blast
        have ek: "escape_key k = tk" by (rule unescape_key_escape [OF Some tk(2)])
        have rest: "drop ?e v = pointer_text ks' \<and> k' = k" if "drop pos v = pointer_text (k' # ks')" for k' ks'
        proof -
          have "drop (pos + 1) v = escape_key k' @ pointer_text ks'" using that d slash by (simp add: pointer_text_Cons)
          then have "tk = escape_key k'" unfolding tk_def by (simp only: take_escape)
          with ek unescape_escape_key have "k' = k" by (metis option.inject)
          with that tk(1) ek show ?thesis by (simp add: pointer_text_Cons)
        qed
        have "pointer_keys obj path pos keys = Inr (keys @ (l # ls), b)"
          using True len key(1) l(1) r(1) by (simp add: pointer_keys.simps [of _ _ pos])
        moreover have "b \<longleftrightarrow> (\<exists>ks. drop pos v = pointer_text ks)"
        proof
          assume b
          with r(2) obtain ks where "drop ?e v = pointer_text ks" by blast
          with tk(1) ek have "drop pos v = pointer_text (k # ks)" by (simp add: pointer_text_Cons)
          then show "\<exists>ks. drop pos v = pointer_text ks" ..
        next
          assume "\<exists>ks. drop pos v = pointer_text ks"
          then obtain ks where ks: "drop pos v = pointer_text ks" ..
          then obtain k' ks' where "ks = k' # ks'" using d by (cases ks) (auto simp: pointer_text_def)
          with rest ks r(2) show b by blast
        qed
        moreover have "map view (l # ls) = map Inr ks" if ks: "drop pos v = pointer_text ks" for ks
        proof -
          obtain k' ks' where c: "ks = k' # ks'" using ks d by (cases ks) (auto simp: pointer_text_def)
          with rest ks r(3) l(2) show ?thesis by simp
        qed
        ultimately show ?thesis by blast
      qed
    qed
  qed
qed

text \<open>C38: the constructor of \<open>Pointer\<close> accepts exactly the texts of the pointer syntax, a slash before every
  key and \<open>~0\<close> and \<open>~1\<close> for \<open>~\<close> and \<open>/\<close> in it, and then its elements are the keys.\<close>

theorem pointer_parses_iff:
  assumes "inside path" "loc_source path = Some s" "view path = Inr v"
  shows "\<exists>ls b. make_pointer obj path = Inr (ls, b) \<and> (b \<longleftrightarrow> (\<exists>ks. v = pointer_text ks)) \<and>
    (\<forall>ks. v = pointer_text ks \<longrightarrow> map view ls = map Inr ks)"
  using pointer_keys_correct [OF assms, of 0 obj "[]"] by (simp add: make_pointer_def)

theorem pointer_parses_iff_witness:
  "\<exists>ls. make_pointer 1 (location_of_string 0 (lit ''/a~1b/0'')) = Inr (ls, True) \<and>
    map view ls = map Inr [lit ''a/b'', lit ''0'']"
proof -
  define t where "t = lit ''/a~1b/0''"
  let ?p = "location_of_string 0 t" and ?s = "synthetic 0 t []"
  have s: "loc_source ?p = Some ?s" by (simp add: location_of_string_def)
  have "length t < size_mod" by (simp add: t_def size_mod_def)
  then have "inside ?p" unfolding inside_def s by (simp add: synthetic_ok) (simp add: location_of_string_def)
  note r = pointer_parses_iff [OF this s view_synthetic, of 1]
  define ks where "ks = [lit ''a/b'', lit ''0'']"
  have t: "t = pointer_text ks" by (simp add: t_def ks_def pointer_text_def escape_key_def)
  from r obtain ls b where m: "make_pointer 1 ?p = Inr (ls, b)" "b = (\<exists>ks. t = pointer_text ks)"
    "\<forall>ks. t = pointer_text ks \<longrightarrow> map view ls = map Inr ks" by (elim exE conjE)
  have b: b unfolding m(2) using t by (rule exI)
  have k: "map view ls = map Inr ks" by (rule mp [OF spec [OF m(3)] t])
  have "\<exists>ls. make_pointer 1 ?p = Inr (ls, True) \<and> map view ls = map Inr ks"
    by (rule exI [of _ ls]) (simp only: m(1) b k simp_thms)
  then show ?thesis unfolding t_def ks_def .
qed

end
