(* ===== verification/AstClone.thy ===== *)
theory AstClone
  imports AstOrder
begin

text \<open>
  \<open>clone\<close> of \<open>Ast\<close>: the copy of a tree has the labels and the shape of the tree, and shares no node with
  what was there before.
\<close>

text \<open>A tree of the types and locations of the nodes.\<close>

datatype labelled = Labelled token_def location "labelled list"

fun labels :: "ast \<Rightarrow> rose \<Rightarrow> labelled" where
  "labels h (Rose a ts) = Labelled (nd_type (h ! a)) (nd_location (h ! a)) (map (labels h) ts)"

lemma holds_local:
  "\<forall>n \<in> set (preorder t). nd_children (h' ! n) = nd_children (h ! n) \<Longrightarrow> holds h' t = holds h t"
  by (induction t) (auto simp: list_all_iff)

lemma labels_local:
  "\<forall>n \<in> set (preorder t). nd_type (h' ! n) = nd_type (h ! n) \<and> nd_location (h' ! n) = nd_location (h ! n) \<Longrightarrow>
    labels h' t = labels h t"
  by (induction t) auto

lemma height_child: "t \<in> set ts \<Longrightarrow> height t < height (Rose a ts)"
proof -
  have "height t \<le> foldl (\<lambda>m t. max m (height t)) k ts" if "t \<in> set ts" for k
    using that
  proof (induction ts arbitrary: k)
    case (Cons u us)
    have "height u \<le> foldl (\<lambda>m t. max m (height t)) (max k (height u)) us"
      using foldl_max [of height "max k (height u)" us] by simp
    then show ?case using Cons by auto
  qed simp
  then show "t \<in> set ts \<Longrightarrow> height t < height (Rose a ts)" by (simp add: less_Suc_eq_le)
qed

text \<open>What a node is apart from its parent, its flags and its children.\<close>

definition label :: "node_def \<Rightarrow> token_def \<times> location \<times> symtab_def option" where
  "label nd = (nd_type nd, nd_location nd, nd_symtab nd)"

lemma set_up_label: "label (set_up test setf p h ! a) = label (h ! a)"
proof (induction test setf p h rule: set_up.induct)
  case (2 test setf cur h)
  then show ?case by (subst set_up.simps) (auto simp: nth_update label_def)
qed (simp add: set_up.simps)

lemma set_up_root:
  assumes "nd_parent (h ! p) = None" "a \<noteq> p"
  shows "set_up test setf (Some p) h ! a = h ! a"
  using assms by (subst set_up.simps) (simp add: set_up.simps nth_update)

text \<open>\<open>push_back\<close> to a node without a parent changes only the two nodes.\<close>

lemma push_back_root:
  assumes "this < length h" "node < length h" "this \<noteq> node" "nd_parent (h ! this) = None"
  shows "length (push_back this (Some node) h) = length h"
    "a \<noteq> this \<Longrightarrow> a \<noteq> node \<Longrightarrow> push_back this (Some node) h ! a = h ! a"
    "label (push_back this (Some node) h ! a) = label (h ! a)"
    "nd_children (push_back this (Some node) h ! a) = (if a = this then nd_children (h ! this) @ [node] else nd_children (h ! a))"
    "nd_parent (push_back this (Some node) h ! this) = None"
proof -
  let ?h = "set_parent node (Some this) (set_children this (nd_children (h ! this) @ [node]) h)"
  have e: "push_back this (Some node) h = add_flags node ?h" by (simp add: push_back_def adopt_def Let_def)
  have p: "nd_parent (?h ! node) = Some this" "nd_parent (?h ! this) = None"
    using assms by (simp_all add: nth_set_parent nth_set_children)
  have l: "map links (add_flags node ?h) = map links ?h" by (rule add_flags_links)
  show "length (push_back this (Some node) h) = length h" using links_eqD(1) [OF l] unfolding e by simp
  show "label (push_back this (Some node) h ! a) = label (h ! a)"
    using assms set_up_label by (simp add: e add_flags_def Let_def) (simp add: nth_set_parent nth_set_children label_def)
  show "a \<noteq> this \<Longrightarrow> a \<noteq> node \<Longrightarrow> push_back this (Some node) h ! a = h ! a"
    using assms p by (simp add: e add_flags_def Let_def set_up_root) (simp add: nth_set_parent nth_set_children)
  show "nd_parent (push_back this (Some node) h ! this) = None" using links_eqD(3) [OF l, of this] p assms(1) unfolding e by simp
  show "nd_children (push_back this (Some node) h ! a) = (if a = this then nd_children (h ! this) @ [node] else nd_children (h ! a))"
  proof (cases "a < length h")
    case True
    with links_eqD(3) [OF l, of a] assms show ?thesis unfolding e by (simp add: nth_set_parent nth_set_children)
  next
    case False
    then show ?thesis using assms p by (auto simp: e add_flags_def Let_def set_up_root) (auto simp: nth_set_parent nth_set_children)
  qed
qed

lemma create_at_ok:
  assumes "tree_ok h"
  shows "tree_ok (h @ [make_node t loc])"
proof -
  have u: "up (h @ [make_node t loc]) = up h" by (auto simp: up_def nth_append make_node_def split: if_splits)
  have f: "forest h" "flags_sound h" using assms by (simp_all add: tree_ok_def)
  have b: "(p, a) \<in> up h \<Longrightarrow> p < length h \<and> a < length h" for p a using forestD(3) [OF f(1)] by auto
  have "forest (h @ [make_node t loc])"
    using f(1) b unfolding forest_def u by (auto simp: nth_append less_Suc_eq make_node_def)
  moreover have "flags_sound (h @ [make_node t loc])"
    using f(2) b unfolding flags_sound_def u by (fastforce simp: nth_append)
  ultimately show ?thesis by (simp add: tree_ok_def)
qed

text \<open>\<open>b\<close> is the root of a copy of the tree \<open>t\<close> of \<open>h\<close>, made of nodes of \<open>g\<close> that are not below \<open>lo\<close>.\<close>

definition copied :: "ast \<Rightarrow> rose \<Rightarrow> nat \<Rightarrow> ast \<Rightarrow> nat \<Rightarrow> bool" where
  "copied h t lo g b \<longleftrightarrow> (\<exists>t'. root t' = b \<and> holds g t' \<and> labels g t' = labels h t \<and> set (preorder t') \<subseteq> {lo..<length g})"

lemma root_preorder: "root t \<in> set (preorder t)"
  by (cases t) simp

text \<open>The children copied so far are below \<open>b\<close>, the node made for the copy.\<close>

definition copying :: "ast \<Rightarrow> rose list \<Rightarrow> nat \<Rightarrow> ast \<Rightarrow> bool" where
  "copying h ts b g \<longleftrightarrow> b < length g \<and> nd_parent (g ! b) = None \<and>
     (\<exists>us. nd_children (g ! b) = map root us \<and> list_all (holds g) us \<and> map (labels g) us = map (labels h) ts \<and>
       (\<forall>u \<in> set us. set (preorder u) \<subseteq> {Suc b..<length g}))"

lemma copying_push:
  assumes c: "copying h ts b g" and u: "copied h t (length g) g1 (length g)"
    and g1: "\<forall>i < length g. g1 ! i = g ! i" "nd_parent (g1 ! length g) = None"
  shows "copying h (ts @ [t]) b (push_back b (Some (length g)) g1)"
    "tree_ok g1 \<Longrightarrow> tree_ok (push_back b (Some (length g)) g1)"
proof -
  let ?g = "push_back b (Some (length g)) g1"
  obtain t' where t': "root t' = length g" "holds g1 t'" "labels g1 t' = labels h t" "set (preorder t') \<subseteq> {length g..<length g1}"
    using u by (auto simp: copied_def)
  obtain us where us: "nd_children (g ! b) = map root us" "list_all (holds g) us" "map (labels g) us = map (labels h) ts"
      "\<forall>u \<in> set us. set (preorder u) \<subseteq> {Suc b..<length g}" and b: "b < length g" "nd_parent (g ! b) = None"
    using c by (auto simp: copying_def)
  have l: "length g < length g1" using root_preorder [of t'] t'(1,4) by auto
  have pb: "b < length g1" "length g < length g1" "b \<noteq> length g" "nd_parent (g1 ! b) = None" using b l g1(1) by simp_all
  note p = push_back_root [OF pb]
  have lab: "nd_type (?g ! n) = nd_type (g1 ! n)" "nd_location (?g ! n) = nd_location (g1 ! n)" for n
    using p(3) [of n] by (simp_all add: label_def)
  have old: "holds ?g u \<and> labels ?g u = labels g u" if "u \<in> set us" for u
  proof -
    have "set (preorder u) \<subseteq> {Suc b..<length g}" using us(4) that by blast
    then have n: "n \<noteq> b" "n < length g" if "n \<in> set (preorder u)" for n using that by auto
    have "holds ?g u = holds g u" by (rule holds_local) (use n p(4) g1(1) in auto)
    moreover have "labels ?g u = labels g u" by (rule labels_local) (use n lab g1(1) in auto)
    ultimately show ?thesis using us(2) that by (simp add: list_all_iff)
  qed
  have "n \<noteq> b" if "n \<in> set (preorder t')" for n using that t'(4) b(1) by auto
  then have new: "holds ?g t'" "labels ?g t' = labels h t"
    using holds_local [of t' ?g g1] labels_local [of t' ?g g1] p(4) lab t'(2,3) by auto
  have "nd_children (?g ! b) = map root (us @ [t'])" using p(4) [of b] g1(1) b(1) us(1) t'(1) by simp
  moreover have "list_all (holds ?g) (us @ [t'])" using old new(1) by (simp add: list_all_iff)
  moreover have "map (labels ?g) (us @ [t']) = map (labels h) (ts @ [t])"
  proof -
    have "map (labels ?g) us = map (labels g) us" using old by simp
    then show ?thesis using us(3) new(2) by simp
  qed
  moreover have "\<forall>u \<in> set (us @ [t']). set (preorder u) \<subseteq> {Suc b..<length ?g}"
    using us(4) t'(4) l b(1) p(1) by fastforce
  ultimately show "copying h (ts @ [t]) b ?g"
    unfolding copying_def using pb(1) p(1,5) by metis
  assume ok: "tree_ok g1"
  have "(length g, b) \<notin> (up g1)\<^sup>*" using pb(3,4) by (auto simp: up_def elim: rtranclE)
  with pb g1(2) have "detached (length g) b g1" by (simp add: detached_def)
  with ok show "tree_ok ?g" by (rule push_back_ok)
qed

lemma clone_copies:
  "holds h t \<Longrightarrow> (\<forall>n \<in> set (preorder t). n < length h) \<Longrightarrow> height t \<le> n \<Longrightarrow> length h \<le> length g \<Longrightarrow>
    \<forall>i < length h. g ! i = h ! i \<Longrightarrow>
    \<exists>g'. clone n (root t) g = Some (length g, g') \<and> copied h t (length g) g' (length g) \<and>
      (\<forall>i < length g. g' ! i = g ! i) \<and> nd_parent (g' ! length g) = None \<and> length g \<le> length g' \<and> (tree_ok g \<longrightarrow> tree_ok g')"
proof (induction t arbitrary: n g)
  case (Rose a ts)
  obtain m where m: "n = Suc m" using Rose.prems(3) by (cases n) simp_all
  let ?b = "length g"
  let ?g0 = "g @ [make_node (nd_type (g ! a)) (nd_location (g ! a))]"
  let ?step = "\<lambda>r child. Option.bind r (\<lambda>h. Option.bind (clone m child h) (\<lambda>(c, h). Some (push_back ?b (Some c) h)))"
  have a: "a < length h" "g ! a = h ! a" using Rose.prems(2,5) by simp_all
  have step: "\<exists>g'. foldl ?step (Some g1) (map root us) = Some g' \<and> copying h (vs @ us) ?b g' \<and> label (g' ! ?b) = label (g1 ! ?b) \<and>
      (\<forall>i < ?b. g' ! i = g1 ! i) \<and> (tree_ok g1 \<longrightarrow> tree_ok g')"
    if "set us \<subseteq> set ts" "copying h vs ?b g1" "\<forall>i < ?b. g1 ! i = g ! i" for us vs g1
    using that
  proof (induction us arbitrary: vs g1)
    case Nil
    then show ?case by simp
  next
    case (Cons u us)
    have u: "u \<in> set ts" using Cons.prems(1) by simp
    have b: "?b < length g1" using Cons.prems(2) by (simp add: copying_def)
    have "\<exists>g2. clone m (root u) g1 = Some (length g1, g2) \<and> copied h u (length g1) g2 (length g1) \<and>
      (\<forall>i < length g1. g2 ! i = g1 ! i) \<and> nd_parent (g2 ! length g1) = None \<and> length g1 \<le> length g2 \<and> (tree_ok g1 \<longrightarrow> tree_ok g2)"
    proof (rule Rose.IH [OF u])
      show "holds h u" using Rose.prems(1) u by (simp add: list_all_iff)
      show "\<forall>n \<in> set (preorder u). n < length h" using Rose.prems(2) u by auto
      show "height u \<le> m" using height_child [OF u, of a] Rose.prems(3) m by simp
      show "length h \<le> length g1" using Rose.prems(4) b by simp
      show "\<forall>i < length h. g1 ! i = h ! i" using Cons.prems(3) Rose.prems(4,5) by simp
    qed
    then obtain g2 where g2: "clone m (root u) g1 = Some (length g1, g2)" "copied h u (length g1) g2 (length g1)"
      "\<forall>i < length g1. g2 ! i = g1 ! i" "nd_parent (g2 ! length g1) = None" "length g1 \<le> length g2" "tree_ok g1 \<longrightarrow> tree_ok g2"
      by blast
    let ?g3 = "push_back ?b (Some (length g1)) g2"
    have c: "copying h (vs @ [u]) ?b ?g3" "tree_ok g2 \<Longrightarrow> tree_ok ?g3"
      using copying_push [OF Cons.prems(2) g2(2,3,4)] by simp_all
    obtain t' where "root t' = length g1" "set (preorder t') \<subseteq> {length g1..<length g2}" using g2(2) by (auto simp: copied_def)
    then have l: "length g1 < length g2" using root_preorder [of t'] by auto
    have pb: "?b < length g2" "length g1 < length g2" "?b \<noteq> length g1" "nd_parent (g2 ! ?b) = None"
      using b l g2(3) Cons.prems(2) by (simp_all add: copying_def)
    have same: "?g3 ! i = g1 ! i" if "i < ?b" for i using push_back_root(2) [OF pb, of i] g2(3) that b by simp
    have lb: "label (?g3 ! ?b) = label (g1 ! ?b)" using push_back_root(3) [OF pb] g2(3) b by simp
    have "\<forall>i < ?b. ?g3 ! i = g ! i" using same Cons.prems(3) by simp
    from Cons.IH [OF _ c(1) this] Cons.prems(1) obtain g' where
      "foldl ?step (Some ?g3) (map root us) = Some g'" "copying h ((vs @ [u]) @ us) ?b g'" "label (g' ! ?b) = label (?g3 ! ?b)"
      "\<forall>i < ?b. g' ! i = ?g3 ! i" "tree_ok ?g3 \<longrightarrow> tree_ok g'" by auto
    then show ?case using g2(1,6) c(2) lb same by (intro exI [of _ g']) simp
  qed
  have g0: "copying h [] ?b ?g0" by (simp add: copying_def make_node_def)
  obtain g' where g': "foldl ?step (Some ?g0) (map root ts) = Some g'" "copying h ts ?b g'" "label (g' ! ?b) = label (?g0 ! ?b)"
      "\<forall>i < ?b. g' ! i = ?g0 ! i" "tree_ok ?g0 \<longrightarrow> tree_ok g'"
    using step [OF subset_refl g0] by (auto simp: nth_append)
  have ch: "nd_children (g ! a) = map root ts" using Rose.prems(1) a by simp
  obtain us where us: "nd_children (g' ! ?b) = map root us" "list_all (holds g') us" "map (labels g') us = map (labels h) ts"
       "\<forall>u \<in> set us. set (preorder u) \<subseteq> {Suc ?b..<length g'}" and b: "?b < length g'" "nd_parent (g' ! ?b) = None"
    using g'(2) by (auto simp: copying_def)
  have "copied h (Rose a ts) ?b g' ?b"
    unfolding copied_def
  proof (intro exI [of _ "Rose ?b us"] conjI)
    show "holds g' (Rose ?b us)" using us(1,2) by simp
    show "labels g' (Rose ?b us) = labels h (Rose a ts)" using us(3) g'(3) a(2) by (simp add: label_def make_node_def)
    show "set (preorder (Rose ?b us)) \<subseteq> {?b..<length g'}" using us(4) b(1) by fastforce
  qed simp
  moreover have "clone n a g = Some (?b, g')" using g'(1) by (simp add: m create_at_def ch)
  moreover have "\<forall>i < ?b. g' ! i = g ! i" using g'(4) by (simp add: nth_append)
  ultimately show ?case using b g'(5) create_at_ok [of g] by auto
qed

text \<open>C27: \<open>clone\<close> returns, with a recursion as deep as the tree is high: a node without a parent whose
  tree has the types and locations of the original in the same shape, made of new nodes only; the nodes
  there were are as before, and a forest whose ancestors of errors are flagged stays one.\<close>

theorem clone_fresh_copy:
  assumes "tree_ok h" "a < length h"
  shows "\<exists>t t' h'. root t = a \<and> holds h t \<and> clone (height t) a h = Some (root t', h') \<and> holds h' t' \<and>
    labels h' t' = labels h t \<and> set (preorder t') \<subseteq> {length h..<length h'} \<and> nd_parent (h' ! root t') = None \<and>
    take (length h) h' = h \<and> tree_ok h'"
proof -
  have f: "forest h" using assms(1) by (simp add: tree_ok_def)
  obtain t where t: "root t = a" "holds h t" using forest_holds [OF f assms(2)] by auto
  have n: "\<forall>n \<in> set (preorder t). n < length h"
    using holds_reach [OF f t(2)] t(1) assms(2) forestD(3) [OF f] by (auto elim: rtranclE)
  obtain g' where g': "clone (height t) (root t) h = Some (length h, g')" "copied h t (length h) g' (length h)"
      "\<forall>i < length h. g' ! i = h ! i" "nd_parent (g' ! length h) = None" "length h \<le> length g'" "tree_ok g'"
    using clone_copies [OF t(2) n order_refl order_refl, of] assms(1) by auto
  have "take (length h) g' = h" using g'(3,5) by (intro nth_equalityI) auto
  with g' t show ?thesis unfolding copied_def by metis
qed

theorem clone_fresh_copy_witness: "\<exists>t t' h'. root t = 0 \<and> clone (height t) 0 sample_ast = Some (root t', h') \<and>
    labels h' t' = labels sample_ast t \<and> take 3 h' = sample_ast"
  using clone_fresh_copy [OF sample_ast_ok, of 0] sample_ast_eval(3) by auto

end
