(* ===== verification/RegexSearch.thy ===== *)
theory RegexSearch
  imports RegexCapture
begin

text \<open>
  What the public interface of \<open>RegexEngine\<close> in \<open>include/trieste/regex_engine.h\<close> promises
  beyond a single prefix match: \<open>search\<close> finds the leftmost match of the whole string, \<open>first_char_info\<close> admits
  the first byte of every match, and laziness changes preferences but not the language.
\<close>

subsection \<open>Searching\<close>

text \<open>What a probe at a byte offset finds, and the room a search needs in the arena.\<close>

definition match_at :: "engine \<Rightarrow> rune list \<Rightarrow> bytes \<Rightarrow> nat \<Rightarrow> nat option" where
  "match_at e ts s probe =
     longest (drop probe s) (prefix_ends (eng_classes e) ts (drop probe s) (probe = 0) (prev_word s probe))"

definition arena_room :: "engine \<Rightarrow> bytes \<Rightarrow> bool" where
  "arena_room e s \<longleftrightarrow>
     2 * eng_num_captures e * (1 + length (owned_states e) * (1 + length s)) \<le> MaxCaptureFrameEntries"

lemma decode_from_length: "length (decode_from s pos) \<le> length s - pos"
proof (induction "length s - pos" arbitrary: pos rule: less_induct)
  case less
  show ?case
  proof (cases "rune_at s pos")
    case None
    then show ?thesis by (simp add: decode_from.simps [of s pos])
  next
    case (Some rn)
    obtain r n where rn: "rn = (r, n)" by (cases rn)
    with Some have "0 < n" "pos < length s" using rune_at_width by auto
    moreover then have "length (decode_from s (pos + n)) \<le> length s - (pos + n)" by (intro less) simp
    ultimately show ?thesis using Some rn by (simp add: decode_from.simps [of s pos])
  qed
qed

lemma input_runes_length: "length (input_runes s) \<le> length s"
  using decode_from_length [of s 0] by (simp add: input_runes_def)

lemma arena_room_suffix:
  assumes "arena_room e s"
  shows "2 * eng_num_captures e * (1 + length (owned_states e) * (1 + length (input_runes (drop p s)))) \<le> MaxCaptureFrameEntries"
proof -
  have "length (input_runes (drop p s)) \<le> length s" using input_runes_length [of "drop p s"] by simp
  then have "2 * eng_num_captures e * (1 + length (owned_states e) * (1 + length (input_runes (drop p s)))) \<le>
      2 * eng_num_captures e * (1 + length (owned_states e) * (1 + length s))"
    by (intro mult_le_mono add_le_mono order.refl)
  also have "\<dots> \<le> MaxCaptureFrameEntries" using assms by (simp only: arena_room_def)
  finally show ?thesis .
qed

definition leftmost :: "engine \<Rightarrow> rune list \<Rightarrow> bytes \<Rightarrow> nat \<Rightarrow> (nat \<times> nat) option \<Rightarrow> bool" where
  "leftmost e ts s i res \<longleftrightarrow>
     (case res of
        None \<Rightarrow> \<forall>k. i \<le> k \<and> k \<le> length (input_runes s) \<longrightarrow> match_at e ts s (offset s k) = None
      | Some (p, n) \<Rightarrow> \<exists>k. i \<le> k \<and> k \<le> length (input_runes s) \<and> p = offset s k \<and> match_at e ts s p = Some n \<and>
          (\<forall>j. i \<le> j \<and> j < k \<longrightarrow> match_at e ts s (offset s j) = None))"

lemma leftmost_step:
  assumes "leftmost e ts s (Suc i) res" "match_at e ts s (offset s i) = None"
  shows "leftmost e ts s i res"
proof (cases res)
  case None
  have "match_at e ts s (offset s k) = None" if "i \<le> k" "k \<le> length (input_runes s)" for k
    using assms that None by (cases "k = i") (simp_all add: leftmost_def)
  then show ?thesis using None by (simp add: leftmost_def)
next
  case (Some pn)
  obtain p n where pn: "pn = (p, n)" by (cases pn)
  from assms(1) obtain k where k: "Suc i \<le> k" "k \<le> length (input_runes s)" "p = offset s k" "match_at e ts s p = Some n"
    "\<And>j. Suc i \<le> j \<and> j < k \<Longrightarrow> match_at e ts s (offset s j) = None"
    by (simp add: leftmost_def Some pn) (elim exE conjE; metis)
  have "match_at e ts s (offset s j) = None" if "i \<le> j" "j < k" for j
    using assms(2) k(5) [of j] that by (cases "j = i") simp_all
  with k(1-4) show ?thesis by (simp add: leftmost_def Some pn) (rule exI [of _ k], simp)
qed

lemma search_loop_leftmost:
  assumes inv: "engine_inv ts e" and ok: "engine_ok e" and room: "arena_room e s"
  shows "i \<le> length (input_runes s) \<Longrightarrow> ctx_ok c \<Longrightarrow> search_loop e this s (offset s i) caps c = (c', caps', res) \<Longrightarrow>
    ctx_ok c' \<and> leftmost e ts s i res"
proof (induction "length (input_runes s) - i" arbitrary: i caps c)
  case (0 i)
  obtain c1 cs r where f: "find_prefix_with_context e this (drop (offset s i) s) c (offset s i = 0) (prev_word s (offset s i)) = (c1, cs, r)"
    by (metis prod_cases3)
  note p = find_prefix_capturing_longest [OF inv ok 0(3) arena_room_suffix [OF room] f]
  have i: "i = length (input_runes s)" "offset s i = length s" using 0 offset_end_iff [of i s] by auto
  have "search_loop e this s (offset s i) caps c = (case r of
      Some n \<Rightarrow> (c1, map (shift_capture (offset s i)) cs, Some (offset s i, n)) | None \<Rightarrow> (c1, cs, None))"
    unfolding search_loop.simps [of e this s "offset s i"] using f i(2) by (simp split: option.splits)
  with 0(4) p i(1) show ?case by (auto simp: match_at_def leftmost_def split: option.splits)
next
  case (Suc x i)
  then have i: "i < length (input_runes s)" by simp
  obtain c1 cs r where f: "find_prefix_with_context e this (drop (offset s i) s) c (offset s i = 0) (prev_word s (offset s i)) = (c1, cs, r)"
    by (metis prod_cases3)
  note p = find_prefix_capturing_longest [OF inv ok Suc(4) arena_room_suffix [OF room] f]
  have o: "offset s i < length s" using offset_less_iff [of i s] i by simp
  then have "decode_rune s (offset s i) = input_runes s ! i"
    using rune_at_offset [of i s] i by (simp add: rune_at_def)
  then have nxt: "offset s i + snd (decode_rune s (offset s i)) = offset s (Suc i)" using i by (simp add: offset_Suc)
  show ?case
  proof (cases r)
    case (Some n)
    then have "search_loop e this s (offset s i) caps c = (c1, map (shift_capture (offset s i)) cs, Some (offset s i, n))"
      using f o by (simp add: search_loop.simps [of e this s "offset s i"])
    with Suc(5) p i Some show ?thesis by (auto simp: match_at_def leftmost_def intro!: exI [of _ i])
  next
    case None
    then have "search_loop e this s (offset s i) caps c = search_loop e this s (offset s (Suc i)) cs c1"
      using f o nxt by (simp add: search_loop.simps [of e this s "offset s i"])
    then have run: "search_loop e this s (offset s (Suc i)) cs c1 = (c', caps', res)" using Suc(5) by simp
    have "ctx_ok c1" using p by simp
    have m: "match_at e ts s (offset s i) = None" using p None by (simp add: match_at_def)
    from Suc(1) [OF _ _ \<open>ctx_ok c1\<close> run] Suc(2) i leftmost_step [OF _ m] show ?thesis by simp
  qed
qed

subsection \<open>The first byte of a match\<close>

lemma ascii_byte: "(ucast (b :: byte) :: rune) < 0x80 \<longleftrightarrow> b < 0x80"
proof -
  have "unat (ucast b :: rune) = unat b"
    using unsigned_less [of b, where ?'a = nat] by (simp add: unsigned_ucast_eq take_bit_nat_eq_self)
  then show ?thesis by (simp add: word_less_nat_alt)
qed

definition nonascii_state :: "engine \<Rightarrow> nat \<Rightarrow> bool" where
  "nonascii_state e s \<longleftrightarrow>
     (let l = st_label (owned_states e ! s) in
      if is_class_ref l then list_ex (\<lambda>range. 128 \<le> snd range) (ranges (eng_classes e ! class_ref_index l))
      else 128 \<le> l \<and> l \<noteq> Match)"

lemma bitmap_test_or_iff: "bitmap_test (bitmap_or a b) r \<longleftrightarrow> bitmap_test a r \<or> bitmap_test b r"
  by (simp add: bitmap_test_or)

lemma first_char_foldl_conj:
  "(can_match_empty (foldl (first_char_add e) info xs) \<longleftrightarrow> can_match_empty info \<or> accept_state e \<in> set xs) \<and>
  (bitmap_test (fc_bitmap (foldl (first_char_add e) info xs)) r \<longleftrightarrow> bitmap_test (fc_bitmap info) r \<or>
     (\<exists>s \<in> set xs. s \<noteq> accept_state e \<and> bitmap_test (ascii_accept (owned_states e ! s)) r)) \<and>
  (can_match_nonascii (foldl (first_char_add e) info xs) \<longleftrightarrow> can_match_nonascii info \<or>
     (\<exists>s \<in> set xs. s \<noteq> accept_state e \<and> nonascii_state e s))"
proof (induction xs arbitrary: info)
  case (Cons x xs)
  have "can_match_empty (first_char_add e info x) \<longleftrightarrow> can_match_empty info \<or> x = accept_state e"
    "bitmap_test (fc_bitmap (first_char_add e info x)) r \<longleftrightarrow> bitmap_test (fc_bitmap info) r \<or>
      x \<noteq> accept_state e \<and> bitmap_test (ascii_accept (owned_states e ! x)) r"
    "can_match_nonascii (first_char_add e info x) \<longleftrightarrow> can_match_nonascii info \<or>
      x \<noteq> accept_state e \<and> nonascii_state e x"
    by (auto simp: first_char_add_def bitmap_test_or_iff nonascii_state_def Let_def)
  with Cons show ?case by auto
qed simp

lemmas first_char_foldl =
  first_char_foldl_conj [THEN conjunct1] first_char_foldl_conj [THEN conjunct2, THEN conjunct1]
  first_char_foldl_conj [THEN conjunct2, THEN conjunct2]

lemma foldl_foldl: "foldl (\<lambda>a x. foldl f a (g x)) a xs = foldl f a (concat (map g xs))"
  by (induction xs arbitrary: a) simp_all

definition start_closures :: "engine \<Rightarrow> nat list" where
  "start_closures e = concat (map (combo_closure e) [0..<num_flag_combos e])"

lemma compute_first_char_concat:
  "engine_ok e \<Longrightarrow> compute_first_char_info e = foldl (first_char_add e) fc_minimal (start_closures e)"
  by (simp add: compute_first_char_info_def start_closures_def foldl_foldl)

text \<open>Some combination of flags gives the closure of the start state that a search begins with.\<close>

lemma start_closures_cover:
  assumes inv: "engine_inv ts e" and t: "t \<in> active (owned_states e) (input_reach e s as pr 0)"
  shows "t \<in> set (start_closures e)"
proof -
  let ?h = "has_conditionals e" and ?ss = "owned_states e"
  define bm sa ae where "bm = boundary_at s pr 0" and "sa = as" and "ae = (0 = length (input_runes s))"
  define combo where "combo = (if ?h then closure_flags bm sa ae else 0)"
  have st: "start_state e < length ?ss" using inv by (simp add: engine_inv_def)
  have t': "t \<in> active ?ss ((eps ?ss bm sa ae)\<^sup>* `` {start_state e})"
    using t unfolding input_reach_def reach_0 flags_eps_unmasked bm_def sa_def ae_def by simp
  have n: "combo < num_flag_combos e" using closure_flags_less by (simp add: combo_def num_flag_combos_def)
  have "eps ?ss (?h \<and> bm) (if ?h then sa else True) (?h \<and> ae) = eps ?ss bm sa ae"
    using eps_masked [OF inv refl, of bm sa ae] eps_masked [OF inv refl, of bm True ae]
      eps_masked [OF inv refl, of "?h \<and> bm" "if ?h then sa else True" "?h \<and> ae"] by (cases ?h) simp_all
  then have "set (combo_closure e combo) = active ?ss ((eps ?ss bm sa ae)\<^sup>* `` {start_state e})"
    using cached_active(1) [OF inv st] closure_flags_bits [of bm sa ae]
    by (cases ?h) (simp_all add: combo_closure_def combo_def)
  with t' n show ?thesis by (auto simp: start_closures_def)
qed

definition first_rune_consistent :: "bytes \<Rightarrow> bool" where
  "first_rune_consistent s \<longleftrightarrow> s \<noteq> [] \<longrightarrow> (hd s < 0x80 \<longleftrightarrow> fst (decode_rune s 0) < 0x80)"

lemma first_char_sound_inv:
  assumes inv: "engine_inv ts e" and ok: "engine_ok e"
    and j: "j \<in> prefix_ends (eng_classes e) ts s as pr" and cons: "first_rune_consistent s"
  shows "if j = 0 then can_match_empty (compute_first_char_info e)
    else s \<noteq> [] \<and> fc_test (compute_first_char_info e) (hd s)"
proof (cases j)
  case 0
  then have "accept_state e \<in> active (owned_states e) (input_reach e s as pr 0)"
    using j prefix_ends_reach [OF inv] accept_rests [OF inv] by (simp add: active_def)
  from start_closures_cover [OF inv this] 0 show ?thesis
    by (simp add: compute_first_char_concat [OF ok] first_char_foldl)
next
  case (Suc k)
  let ?ss = "owned_states e" and ?acc = "input_acc (eng_classes e) s"
  have "j \<le> length (input_runes s)" by (rule prefix_ends_bound [OF inv j])
  then have len: "0 < length (input_runes s)" using Suc by linarith
  then have ne: "s \<noteq> []" using offset_less_iff [of 0 s] by auto
  have dead: "active ?ss (input_reach e s as pr 0) \<noteq> {}" "input_reach e s as pr 1 \<noteq> {}"
    using reach_dead [of ?ss ?acc "input_cond s pr as" "start_state e" 0 j]
      reach_dead [of ?ss ?acc "input_cond s pr as" "start_state e" 1 j] j prefix_ends_reach [OF inv] Suc
    by (cases k; auto simp: input_reach_def active_def)+
  then obtain t where t: "t \<in> input_reach e s as pr 0" "t < length ?ss" "rests (?ss ! t)" "?acc (st_label (?ss ! t)) 0"
    "st_next (?ss ! t) \<noteq> None"
    unfolding One_nat_def input_reach_def reach_Suc by (auto simp: successors_def)
  have na: "t \<noteq> accept_state e" using t(5) inv by (auto simp: engine_inv_def final_def)
  have cov: "t \<in> set (start_closures e)" using start_closures_cover [OF inv] t by (simp add: active_def)
  let ?r = "fst (input_runes s ! 0)" and ?l = "st_label (?ss ! t)"
  have acc: "accepts (eng_classes e) ?l ?r" using t(4) by (simp add: input_acc_def)
  have r: "?r = fst (decode_rune s 0)"
    using rune_at_offset [of 0 s] len ne by (simp add: rune_at_def)
  have b: "\<forall>q < 128. bitmap_test (ascii_accept (?ss ! t)) q \<longleftrightarrow> accepts (eng_classes e) ?l q"
    using inv t(2) by (simp add: engine_inv_def)
  show ?thesis
  proof (cases "hd s < 0x80")
    case True
    then have a: "?r = ucast (hd s)" "?r < 128" using r ne cons
      by (auto simp: decode_rune_def is_ascii_def first_rune_consistent_def hd_conv_nth ascii_byte)
    have "bitmap_test (fc_bitmap (compute_first_char_info e)) (ucast (hd s))"
      using cov na b acc a by (auto simp: compute_first_char_concat [OF ok] first_char_foldl)
    then show ?thesis using True Suc ne
      by (simp add: fc_test_def is_ascii_def ascii_byte)
  next
    case False
    then have "\<not> ?r < 128" using r ne cons by (simp add: first_rune_consistent_def)
    have "nonascii_state e t"
    proof (cases "is_class_ref ?l")
      case True
      then have "class_ref_index ?l < length (eng_classes e)"
        using inv t(2) label_ok_class_ref by (auto simp: engine_inv_def)
      then have "class_ok (eng_classes e ! class_ref_index ?l)" using inv by (auto simp: engine_inv_def)
      with True acc have "in_ranges (ranges (eng_classes e ! class_ref_index ?l)) ?r"
        by (simp add: accepts_def contains_iff)
      with True \<open>\<not> ?r < 128\<close> show ?thesis
        by (auto simp: nonascii_state_def in_ranges_def in_range_def list_ex_iff not_less Let_def intro: order.trans)
    next
      case False
      then have "?l = ?r" using acc by (simp add: accepts_def)
      moreover have "?r \<noteq> Match"
      proof -
        have "fst (utf8_decode (drop 0 s)) < 0x200000" by (rule utf8_decode_bound)
        then show ?thesis using r \<open>\<not> ?r < 128\<close>
          by (auto simp: decode_rune_def Let_def is_ascii_def ascii_byte split: if_splits prod.splits)
      qed
      ultimately show ?thesis using False \<open>\<not> ?r < 128\<close> by (simp add: nonascii_state_def not_less)
    qed
    then have "can_match_nonascii (compute_first_char_info e)"
      using cov na by (auto simp: compute_first_char_concat [OF ok] first_char_foldl)
    then show ?thesis using False Suc ne
      by (simp add: fc_test_def is_ascii_def ascii_byte)
  qed
qed

subsection \<open>Greedy and lazy quantifiers\<close>

definition greedy :: "rune \<Rightarrow> rune" where
  "greedy t = (if t = LazyZeroOrOne then ZeroOrOne else if t = LazyZeroOrMore then ZeroOrMore
     else if t = LazyOneOrMore then OneOrMore else t)"

fun greedy_rexp :: "rexp \<Rightarrow> rexp" where
  "greedy_rexp (Atom t) = Atom t"
| "greedy_rexp (Cat l r) = Cat (greedy_rexp l) (greedy_rexp r)"
| "greedy_rexp (Alt l r) = Alt (greedy_rexp l) (greedy_rexp r)"
| "greedy_rexp (Opt lazy r) = Opt False (greedy_rexp r)"
| "greedy_rexp (Star lazy r) = Star False (greedy_rexp r)"
| "greedy_rexp (Plus lazy r) = Plus False (greedy_rexp r)"
| "greedy_rexp (Cap i r) = Cap i (greedy_rexp r)"

lemma rel_greedy: "rel acc cond (greedy_rexp r) = rel acc cond r"
  by (induction r) simp_all

lemma ast_step_greedy: "ast_step (greedy t) (map greedy_rexp rs) = map_option (map greedy_rexp) (ast_step t rs)"
  by (auto simp: greedy_def ast_step_def split: list.splits)

lemma ast_run_greedy: "ast_run (map greedy ts) (map greedy_rexp rs) = map_option (map greedy_rexp) (ast_run ts rs)"
  by (induction ts arbitrary: rs) (auto simp: ast_step_greedy split: option.splits)

lemma postfix_ast_greedy: "postfix_ast (map greedy ts) = map_option greedy_rexp (postfix_ast ts)"
  using ast_run_greedy [of ts "[]"] by (auto simp: postfix_ast_def split: option.splits list.splits)

subsection \<open>Matches within the whole string\<close>

text \<open>
  A match of a suffix is a match of the whole string that begins at the suffix. The conditions
  below are those of the whole string: the word context of a position is the rune before it.
\<close>

definition text_cond :: "bytes \<Rightarrow> rune \<Rightarrow> nat \<Rightarrow> bool" where
  "text_cond s l i \<longleftrightarrow>
     (if l = WordBoundary then (0 < i \<and> word_rune s (i - 1)) \<noteq> word_rune s i
      else if l = StartAnchor then i = 0
      else i = length (input_runes s))"

definition text_matches :: "rune_class list \<Rightarrow> rune list \<Rightarrow> bytes \<Rightarrow> (nat \<times> nat) set" where
  "text_matches classes ts s = tokens_rel (input_acc classes s) (text_cond s) ts"

lemma rel_le: "(i, j) \<in> rel acc cond r \<Longrightarrow> i \<le> j"
proof (induction r arbitrary: i j)
  case (Star lazy r)
  from Star.prems have "(i, j) \<in> (rel acc cond r)\<^sup>*" by simp
  then show ?case by (induction rule: rtrancl_induct) (auto dest: Star.IH)
next
  case (Plus lazy r)
  from Plus.prems have "(i, j) \<in> (rel acc cond r)\<^sup>+" by simp
  then show ?case by (induction rule: trancl_induct) (auto dest: Plus.IH)
qed (fastforce split: if_splits)+

lemma rtrancl_shift:
  assumes sh: "\<And>i j. (i, j) \<in> R \<longleftrightarrow> (k + i, k + j) \<in> S" and le: "\<And>i j. (i, j) \<in> S \<Longrightarrow> i \<le> (j :: nat)"
  shows "(i, j) \<in> R\<^sup>* \<longleftrightarrow> (k + i, k + j) \<in> S\<^sup>*"
proof
  assume "(i, j) \<in> R\<^sup>*"
  then show "(k + i, k + j) \<in> S\<^sup>*"
    by (induction rule: rtrancl_induct) (auto simp: sh intro: rtrancl.rtrancl_into_rtrancl)
next
  have "(x, y) \<in> S\<^sup>* \<Longrightarrow> x = k + i \<Longrightarrow> \<exists>j. y = k + j \<and> (i, j) \<in> R\<^sup>*" for x y
  proof (induction rule: rtrancl_induct)
    case (step y z)
    then obtain j where j: "y = k + j" "(i, j) \<in> R\<^sup>*" by blast
    have "z = k + (z - k)" using le [OF step.hyps(2)] j by simp
    with j sh [of j "z - k"] step.hyps(2) show ?case by (metis rtrancl.rtrancl_into_rtrancl)
  qed simp
  from this [of "k + i" "k + j"] show "(k + i, k + j) \<in> S\<^sup>* \<Longrightarrow> (i, j) \<in> R\<^sup>*" by auto
qed

lemma relcomp_shift:
  assumes "\<And>i j. (i, j) \<in> R \<longleftrightarrow> (k + i, k + j) \<in> S" "\<And>i j. (i, j) \<in> R' \<longleftrightarrow> (k + i, k + j) \<in> S'"
    and le: "\<And>i j. (i, j) \<in> S \<Longrightarrow> i \<le> (j :: nat)"
  shows "(i, j) \<in> R O R' \<longleftrightarrow> (k + i, k + j) \<in> S O S'"
proof
  assume "(k + i, k + j) \<in> S O S'"
  then obtain m where m: "(k + i, m) \<in> S" "(m, k + j) \<in> S'" by blast
  then have "m = k + (m - k)" using le by fastforce
  with m assms(1,2) show "(i, j) \<in> R O R'" by (metis relcompI)
qed (use assms(1,2) in auto)

lemma rel_shift:
  "(i, j) \<in> rel (\<lambda>l i. acc l (k + i)) (\<lambda>l i. cond l (k + i)) r \<longleftrightarrow> (k + i, k + j) \<in> rel acc cond r"
proof (induction r arbitrary: i j)
  case (Cat l r)
  from relcomp_shift [OF Cat rel_le] show ?case by simp
next
  case (Star lazy r)
  from rtrancl_shift [OF Star rel_le] show ?case by simp
next
  case (Plus lazy r)
  have "R\<^sup>+ = R O R\<^sup>*" for R :: "(nat \<times> nat) set" by (simp add: trancl_unfold_left)
  moreover note relcomp_shift [OF Plus rtrancl_shift [OF Plus rel_le] rel_le]
  ultimately show ?case by simp
qed auto

lemma tokens_rel_shift:
  "(i, j) \<in> tokens_rel (\<lambda>l i. acc l (k + i)) (\<lambda>l i. cond l (k + i)) ts \<longleftrightarrow> (k + i, k + j) \<in> tokens_rel acc cond ts"
  by (auto simp: tokens_rel_def rel_shift split: option.splits)

subsubsection \<open>Suffixes\<close>

lemma decode_from_drop: "decode_from (drop p s) q = decode_from s (p + q)"
proof (induction "length s - (p + q)" arbitrary: q rule: less_induct)
  case less
  have r: "rune_at (drop p s) q = rune_at s (p + q)"
    by (auto simp: rune_at_def decode_rune_def Let_def add.commute [of p q])
  show ?case
  proof (cases "rune_at s (p + q)")
    case None
    with r show ?thesis by (simp add: decode_from.simps [of _ q] decode_from.simps [of _ "p + q"])
  next
    case (Some rn)
    obtain x n where x: "rn = (x, n)" by (cases rn)
    with Some rune_at_width [of s "p + q"] have "0 < n" "p + q < length s" by auto
    then have "decode_from (drop p s) (q + n) = decode_from s (p + (q + n))" by (intro less) simp
    with r Some x show ?thesis by (simp add: decode_from.simps [of _ q] decode_from.simps [of _ "p + q"] add.assoc)
  qed
qed

lemma input_runes_suffix: "k \<le> length (input_runes s) \<Longrightarrow> input_runes (drop (offset s k) s) = drop k (input_runes s)"
  using decode_from_drop [of "offset s k" s 0] by (simp add: input_runes_def [of "drop _ _"] decode_from_offset)

lemma offset_suffix:
  assumes "k \<le> length (input_runes s)"
  shows "offset s k + offset (drop (offset s k) s) j = offset s (k + j)"
  by (simp add: offset_def [of "drop _ _"] input_runes_suffix [OF assms])
    (simp add: offset_def take_add)

lemma input_acc_suffix:
  "k \<le> length (input_runes s) \<Longrightarrow> input_acc classes (drop (offset s k) s) l i = input_acc classes s l (k + i)"
  by (auto simp: input_acc_def input_runes_suffix)

lemma word_rune_suffix: "k \<le> length (input_runes s) \<Longrightarrow> word_rune (drop (offset s k) s) i = word_rune s (k + i)"
  by (auto simp: word_rune_def input_runes_suffix)

text \<open>Inputs without overlong encodings of ASCII: there the byte before a position tells
  whether the rune before it is a word character.\<close>

definition no_overlong :: "bytes \<Rightarrow> bool" where
  "no_overlong s \<longleftrightarrow> (\<forall>(r, n) \<in> set (input_runes s). r < 0x80 \<longrightarrow> n = 1)"

lemma utf8_decode_last:
  assumes "utf8_decode s = (r, c)" "1 < length c"
  shows "(s ! (length c - 1)) AND 0xC0 = 0x80"
  using assms by (auto simp: utf8_decode_def Let_def split: if_splits)

lemma word_char_ascii: "is_word_char r \<Longrightarrow> r < 0x80"
  by (auto simp: is_word_char_def word_less_nat_alt word_le_nat_alt)

lemma mask1_ascii:
  assumes "(b :: byte) AND 0x80 = 0"
  shows "b < 0x80"
proof -
  have "bit b 7 = bit (b AND 0x80) 7" by (simp add: bit_and_iff)
  then have "\<not> bit b 7" using assms by simp
  then have "b = b AND mask 7"
    by (intro bit_word_eqI) (auto simp: bit_and_iff bit_mask_iff less_Suc_eq numeral_eq_Suc)
  moreover have "b AND mask 7 < 2 ^ 7" by (rule and_mask_less') simp
  ultimately show ?thesis by simp
qed

lemma continuation_not_ascii: "(b :: byte) AND 0xC0 = 0x80 \<Longrightarrow> \<not> b < 0x80"
proof
  assume a: "b AND 0xC0 = 0x80" and l: "b < 0x80"
  have "b AND mask 7 = b" by (rule less_mask_eq) (use l in simp)
  then have "\<not> bit b 7" by (metis bit_and_iff bit_mask_iff less_irrefl)
  moreover have "bit (b AND 0xC0) 7" by (simp add: a)
  ultimately show False by (simp add: bit_and_iff)
qed

lemma prev_word_rune:
  assumes "k \<le> length (input_runes s)" "no_overlong s"
  shows "prev_word s (offset s k) \<longleftrightarrow> 0 < k \<and> word_rune s (k - 1)"
proof (cases k)
  case 0
  then show ?thesis by (simp add: prev_word_def)
next
  case (Suc i)
  then have i: "i < length (input_runes s)" using assms(1) by simp
  obtain r n where rn: "input_runes s ! i = (r, n)" by fastforce
  have at: "rune_at s (offset s i) = Some (r, n)" using rune_at_offset [of i s] i rn by simp
  then have d: "decode_rune s (offset s i) = (r, n)" and o: "offset s i < length s"
    by (auto simp: rune_at_def split: if_splits)
  have n: "0 < n" using rune_at_width [OF at] by simp
  have k: "offset s k = offset s i + n" using i rn Suc by (simp add: offset_Suc)
  let ?b = "s ! (offset s i + n - 1)"
  have "is_word_char (ucast ?b) \<longleftrightarrow> is_word_char r"
  proof (cases "n = 1")
    case True
    show ?thesis
    proof (cases "is_ascii (ucast (s ! offset s i))")
      case True
      with d \<open>n = 1\<close> show ?thesis by (simp add: decode_rune_def)
    next
      case False
      obtain c where c: "utf8_decode (drop (offset s i) s) = (r, c)" "length c = 1"
        using d False True by (auto simp: decode_rune_def Let_def split: prod.splits)
      have "\<not> s ! offset s i < 0x80" using False by (simp add: is_ascii_def ascii_byte)
      moreover have "r = Bad \<or> s ! offset s i AND Mask1 = Mark1"
        using c o by (auto simp: utf8_decode_def Let_def split: if_splits)
      moreover have "s ! offset s i AND Mask1 = Mark1 \<Longrightarrow> s ! offset s i < 0x80"
        by (rule mask1_ascii)
      ultimately have "r = Bad" "\<not> is_word_char (ucast (s ! offset s i))"
        using word_char_ascii [of "ucast (s ! offset s i)"] by (auto simp: ascii_byte)
      with True show ?thesis by (simp add: is_word_char_def)
    qed
  next
    case False
    then have "1 < n" using n by simp
    have "\<not> is_ascii (ucast (s ! offset s i))" using d \<open>1 < n\<close> by (auto simp: decode_rune_def)
    then obtain c where c: "utf8_decode (drop (offset s i) s) = (r, c)" "length c = n"
      using d by (auto simp: decode_rune_def Let_def split: prod.splits)
    have "?b AND 0xC0 = 0x80" using utf8_decode_last [OF c(1)] c(2) \<open>1 < n\<close> o by (simp add: add.commute)
    then have "\<not> is_word_char (ucast ?b)"
      using continuation_not_ascii word_char_ascii [of "ucast ?b"] by (auto simp: ascii_byte)
    moreover have "\<not> r < 0x80"
    proof
      assume "r < 0x80"
      moreover have "(r, n) \<in> set (input_runes s)" using i rn by (metis nth_mem)
      ultimately show False using assms(2) False by (auto simp: no_overlong_def)
    qed
    ultimately show ?thesis using word_char_ascii by blast
  qed
  moreover have "prev_word s (offset s k) = is_word_char (ucast ?b)" using n unfolding prev_word_def k by simp
  moreover have "word_rune s (k - 1) = is_word_char r" using i rn Suc by (simp add: word_rune_def)
  ultimately show ?thesis using Suc by simp
qed

lemma prefix_ends_suffix:
  assumes k: "k \<le> length (input_runes s)" and n: "no_overlong s"
  shows "prefix_ends classes ts (drop (offset s k) s) (offset s k = 0) (prev_word s (offset s k)) =
    {j. (k, k + j) \<in> text_matches classes ts s}"
proof -
  have z: "offset s k = 0 \<longleftrightarrow> k = 0" using offset_strict [of 0 k s] k by (cases "k = 0") auto
  have c: "input_cond (drop (offset s k) s) (prev_word s (offset s k)) (offset s k = 0) l i = text_cond s l (k + i)" for l i
  proof (cases i)
    case 0
    with z prev_word_rune [OF k n] word_rune_suffix [OF k, of 0] input_runes_suffix [OF k] k show ?thesis
      by (auto simp: input_cond_def text_cond_def boundary_at_def)
  next
    case (Suc m)
    with word_rune_suffix [OF k, of m] word_rune_suffix [OF k, of i] input_runes_suffix [OF k] k show ?thesis
      by (auto simp: input_cond_def text_cond_def boundary_at_def)
  qed
  have "tokens_rel (input_acc classes (drop (offset s k) s))
      (input_cond (drop (offset s k) s) (prev_word s (offset s k)) (offset s k = 0)) ts =
    tokens_rel (\<lambda>l i. input_acc classes s l (k + i)) (\<lambda>l i. text_cond s l (k + i)) ts"
    by (intro arg_cong2 [where f = "\<lambda>a c. tokens_rel a c ts"] ext c input_acc_suffix [OF k])
  then show ?thesis
    using tokens_rel_shift [of 0 _ "input_acc classes s" k "text_cond s" ts]
    by (simp add: prefix_ends_def text_matches_def)
qed

text \<open>The leftmost match of the whole string from position \<open>i\<close> on, and the longest there.\<close>

definition leftmost_longest :: "rune_class list \<Rightarrow> rune list \<Rightarrow> bytes \<Rightarrow> nat \<Rightarrow> (nat \<times> nat) option \<Rightarrow> bool" where
  "leftmost_longest classes ts s i res \<longleftrightarrow>
     (case res of
        None \<Rightarrow> \<forall>k j. i \<le> k \<and> k \<le> length (input_runes s) \<longrightarrow> (k, j) \<notin> text_matches classes ts s
      | Some (p, n) \<Rightarrow> \<exists>k j. i \<le> k \<and> k \<le> j \<and> j \<le> length (input_runes s) \<and> p = offset s k \<and> p + n = offset s j \<and>
          (k, j) \<in> text_matches classes ts s \<and> (\<forall>j'. (k, j') \<in> text_matches classes ts s \<longrightarrow> j' \<le> j) \<and>
          (\<forall>k' j'. i \<le> k' \<and> k' < k \<longrightarrow> (k', j') \<notin> text_matches classes ts s))"

lemma text_matches_le: "(k, j) \<in> text_matches classes ts s \<Longrightarrow> k \<le> j"
  by (auto simp: text_matches_def tokens_rel_def dest: rel_le split: if_splits option.splits)

lemma match_at_none:
  assumes "k \<le> length (input_runes s)" "no_overlong s"
  shows "match_at e ts s (offset s k) = None \<longleftrightarrow> (\<forall>j. (k, j) \<notin> text_matches (eng_classes e) ts s)"
proof -
  have "(\<forall>j. (k, j) \<notin> text_matches (eng_classes e) ts s) \<longleftrightarrow> {j. (k, k + j) \<in> text_matches (eng_classes e) ts s} = {}"
  proof -
    have "(k, k + (j - k)) \<in> text_matches (eng_classes e) ts s" if "(k, j) \<in> text_matches (eng_classes e) ts s" for j
      using text_matches_le [OF that] that by simp
    then show ?thesis by blast
  qed
  then show ?thesis unfolding match_at_def prefix_ends_suffix [OF assms] by (simp add: longest_def)
qed

lemma match_at_some:
  assumes inv: "engine_inv ts e" and k: "k \<le> length (input_runes s)" "no_overlong s"
    and m: "match_at e ts s (offset s k) = Some n"
  shows "\<exists>j. k \<le> j \<and> j \<le> length (input_runes s) \<and> offset s k + n = offset s j \<and>
    (k, j) \<in> text_matches (eng_classes e) ts s \<and> (\<forall>j'. (k, j') \<in> text_matches (eng_classes e) ts s \<longrightarrow> j' \<le> j)"
proof -
  let ?M = "text_matches (eng_classes e) ts s" and ?t = "drop (offset s k) s"
  let ?L = "{j. (k, k + j) \<in> ?M}"
  have L: "prefix_ends (eng_classes e) ts ?t (offset s k = 0) (prev_word s (offset s k)) = ?L"
    by (rule prefix_ends_suffix [OF k])
  have b: "j \<le> length (input_runes s) - k" if "j \<in> ?L" for j
    using prefix_ends_bound [OF inv, of j ?t] that input_runes_suffix [OF k(1)] unfolding L [symmetric] by auto
  then have fin: "finite ?L" using finite_nat_set_iff_bounded_le by blast
  have n: "?L \<noteq> {}" "n = offset ?t (Max ?L)" using m unfolding match_at_def L by (auto simp: longest_def split: if_splits)
  have mx: "Max ?L \<in> ?L" by (rule Max_in [OF fin n(1)])
  have "offset s k + n = offset s (k + Max ?L)" using offset_suffix [OF k(1)] n(2) by simp
  moreover have "k + Max ?L \<le> length (input_runes s)" using b [OF mx] k(1) by linarith
  moreover have "j' \<le> k + Max ?L" if "(k, j') \<in> ?M" for j'
  proof -
    have "j' - k \<in> ?L" using that text_matches_le [OF that] by simp
    with fin have "j' - k \<le> Max ?L" by (rule Max_ge)
    then show ?thesis by linarith
  qed
  ultimately show ?thesis using mx by (intro exI [of _ "k + Max ?L"]) simp
qed

lemma leftmost_whole:
  assumes inv: "engine_inv ts e" and n: "no_overlong s" and l: "leftmost e ts s i res"
  shows "leftmost_longest (eng_classes e) ts s i res"
proof (cases res)
  case None
  with l match_at_none [OF _ n] show ?thesis by (fastforce simp: leftmost_def leftmost_longest_def)
next
  case (Some pn)
  obtain p m where pn: "pn = (p, m)" by (cases pn)
  with l Some obtain k where k: "i \<le> k" "k \<le> length (input_runes s)" "p = offset s k" "match_at e ts s p = Some m"
    "\<And>j. i \<le> j \<Longrightarrow> j < k \<Longrightarrow> match_at e ts s (offset s j) = None" unfolding leftmost_def by auto
  have none: "(k', j') \<notin> text_matches (eng_classes e) ts s" if "i \<le> k'" "k' < k" for k' j'
    using match_at_none [OF _ n, of k' e ts] k(5) [OF that] that(2) k(2) by auto
  from match_at_some [OF inv k(2) n k(4) [unfolded k(3)]] obtain j where
    "k \<le> j" "j \<le> length (input_runes s)" "p + m = offset s j" "(k, j) \<in> text_matches (eng_classes e) ts s"
    "\<forall>j'. (k, j') \<in> text_matches (eng_classes e) ts s \<longrightarrow> j' \<le> j" using k(3) by auto
  with k(1,3) none show ?thesis unfolding leftmost_longest_def Some pn by auto
qed

end
