(* ===== verification/RegexRange.thy ===== *)
theory RegexRange
  imports RegexNfa
begin

text \<open>
  Range quantifiers \<open>{n}\<close>, \<open>{n,}\<close> and \<open>{n,m}\<close> of \<open>on_open_brace\<close> in
  \<open>include/trieste/regex_engine.h\<close>: the tokens the parser writes for them denote exactly the
  numbers of repetitions the range admits. The last part evaluates the parser on the number
  that overflows \<open>size_t\<close>.
\<close>

subsection \<open>Range quantifiers\<close>

lemma ast_run_append:
  "ast_run (xs @ ys) st = (case ast_run xs st of None \<Rightarrow> None | Some st' \<Rightarrow> ast_run ys st')"
  by (induction xs arbitrary: st) (auto split: option.splits)

fun copies :: "rexp \<Rightarrow> rexp \<Rightarrow> nat \<Rightarrow> rexp" where
  "copies x r 0 = x"
| "copies x r (Suc k) = Cat (copies x r k) r"

lemma rel_copies: "rel acc cond (copies x r k) = rel acc cond x O rel acc cond r ^^ k"
  by (induction k) (simp_all add: O_assoc)

lemma ast_step_frame: "ast_step t st = Some st' \<Longrightarrow> ast_step t (st @ s) = Some (st' @ s)"
  by (auto simp: ast_step_def split: if_splits list.splits)

lemma ast_run_frame: "ast_run ts st = Some st' \<Longrightarrow> ast_run ts (st @ s) = Some (st' @ s)"
proof (induction ts arbitrary: st)
  case (Cons t ts)
  then obtain u where "ast_step t st = Some u" "ast_run ts u = Some st'" by (auto split: option.splits)
  with Cons.IH [of u] ast_step_frame [of t st u s] show ?case by simp
qed simp

lemma ast_step_cat [simp]: "ast_step Catenation (r # l # st) = Some (Cat l r # st)"
  by (simp add: ast_step_def)

lemma ast_step_opt [simp]: "ast_step ZeroOrOne (r # st) = Some (Opt False r # st)"
  by (simp add: ast_step_def)

lemma ast_step_star [simp]: "ast_step ZeroOrMore (r # st) = Some (Star False r # st)"
  by (simp add: ast_step_def)

lemma mandatory_ast:
  assumes "\<And>st. ast_run atom st = Some (r # st)"
  shows "ast_run (mandatory_copies n atom) st = Some (case n of 0 \<Rightarrow> st | Suc k \<Rightarrow> copies r r k # st)"
proof (induction n)
  case 0
  show ?case by (simp add: mandatory_copies_def)
next
  case (Suc n)
  have "mandatory_copies (Suc n) atom = mandatory_copies n atom @ atom @ (if 0 < n then [Catenation] else [])"
    by (simp add: mandatory_copies_def)
  with Suc assms show ?case by (cases n) (simp_all add: ast_run_append)
qed

lemma optional_ast:
  assumes "\<And>st. ast_run atom st = Some (r # st)"
  shows "0 < n \<Longrightarrow> ast_run (optional_copies n k atom) (x # st) = Some (copies x (Opt False r) k # st)"
    "ast_run (optional_copies 0 k atom) st = Some (case k of 0 \<Rightarrow> st | Suc j \<Rightarrow> copies (Opt False r) (Opt False r) j # st)"
proof -
  have snoc: "optional_copies n (Suc k) atom =
      optional_copies n k atom @ atom @ ZeroOrOne # (if 0 < n \<or> 0 < k then [Catenation] else [])" for n k
    by (simp add: optional_copies_def)
  have nil: "optional_copies n 0 atom = []" for n by (simp add: optional_copies_def)
  show "0 < n \<Longrightarrow> ast_run (optional_copies n k atom) (x # st) = Some (copies x (Opt False r) k # st)"
    by (induction k) (simp_all add: snoc nil ast_run_append assms)
  show "ast_run (optional_copies 0 k atom) st = Some (case k of 0 \<Rightarrow> st | Suc j \<Rightarrow> copies (Opt False r) (Opt False r) j # st)"
  proof (induction k)
    case (Suc k)
    show ?case
    proof (cases k)
      case 0
      then show ?thesis using snoc [of 0 0] by (simp add: nil ast_run_append assms)
    next
      case (Suc j)
      have "ast_run (optional_copies 0 (Suc k) atom) st =
          ast_run (atom @ [ZeroOrOne, Catenation]) (copies (Opt False r) (Opt False r) j # st)"
        unfolding snoc [of 0 k] ast_run_append [of "optional_copies 0 k atom"] Suc.IH using Suc by simp
      also have "\<dots> = Some (copies (Opt False r) (Opt False r) (Suc j) # st)" by (simp add: ast_run_append assms)
      finally show ?thesis using Suc by simp
    qed
  qed (simp add: nil)
qed

lemma relpow_Suc_left: "R O R ^^ k = R ^^ Suc k"
  by (simp only: relpow.simps relpow_commute)

lemma relpow_opt: "(Id \<union> R) ^^ k = (\<Union>j \<le> k. R ^^ j)"
proof (induction k)
  case (Suc k)
  have "(Id \<union> R) ^^ Suc k = (\<Union>j \<le> k. R ^^ j) \<union> (\<Union>j \<le> k. R ^^ Suc j)"
    by (auto simp: Suc relcomp_unfold)
  also have "\<dots> = (\<Union>j \<le> Suc k. R ^^ j)"
  proof (intro equalityI subsetI)
    fix x assume "x \<in> (\<Union>j \<le> Suc k. R ^^ j)"
    then obtain j where "j \<le> Suc k" "x \<in> R ^^ j" by blast
    then show "x \<in> (\<Union>j \<le> k. R ^^ j) \<union> (\<Union>j \<le> k. R ^^ Suc j)" by (cases j) (force, fastforce)
  next
    fix x assume "x \<in> (\<Union>j \<le> k. R ^^ j) \<union> (\<Union>j \<le> k. R ^^ Suc j)"
    then consider j where "j \<le> k" "x \<in> R ^^ j" | j where "j \<le> k" "x \<in> R ^^ Suc j" by blast
    then show "x \<in> (\<Union>j \<le> Suc k. R ^^ j)"
      by cases (blast intro: le_SucI, blast intro: Suc_le_mono [THEN iffD2])
  qed
  finally show ?case .
qed simp

text \<open>The repetitions a range admits.\<close>

definition repeats :: "nat \<Rightarrow> nat \<Rightarrow> bool \<Rightarrow> (nat \<times> nat) set \<Rightarrow> (nat \<times> nat) set" where
  "repeats n m unbounded R = (\<Union>j \<in> {j. n \<le> j \<and> (unbounded \<or> j \<le> m)}. R ^^ j)"

lemma repeats_unbounded: "repeats n m True R = R ^^ n O R\<^sup>*"
proof -
  have "R ^^ n O R\<^sup>* = (\<Union>k. R ^^ (n + k))" by (auto simp: rtrancl_is_UN_relpow relpow_add)
  also have "\<dots> = repeats n m True R"
  proof (intro equalityI subsetI)
    fix x assume "x \<in> repeats n m True R"
    then obtain j where "n \<le> j" "x \<in> R ^^ j" by (auto simp: repeats_def)
    then have "x \<in> R ^^ (n + (j - n))" by simp
    then show "x \<in> (\<Union>k. R ^^ (n + k))" by blast
  next
    fix x assume "x \<in> (\<Union>k. R ^^ (n + k))"
    then obtain k where "x \<in> R ^^ (n + k)" by blast
    moreover have "n \<le> n + k" by simp
    ultimately show "x \<in> repeats n m True R" unfolding repeats_def by blast
  qed
  finally show ?thesis by simp
qed

lemma repeats_bounded: "n \<le> m \<Longrightarrow> repeats n m False R = R ^^ n O (Id \<union> R) ^^ (m - n)"
proof -
  assume le: "n \<le> m"
  have "R ^^ n O (Id \<union> R) ^^ (m - n) = (\<Union>k \<le> m - n. R ^^ (n + k))" by (auto simp: relpow_opt relpow_add)
  also have "\<dots> = repeats n m False R"
  proof (intro equalityI subsetI)
    fix x assume "x \<in> repeats n m False R"
    then obtain j where "n \<le> j" "j \<le> m" "x \<in> R ^^ j" by (auto simp: repeats_def)
    then have "j - n \<le> m - n" "x \<in> R ^^ (n + (j - n))" by auto
    then show "x \<in> (\<Union>k \<le> m - n. R ^^ (n + k))" by blast
  next
    fix x assume "x \<in> (\<Union>k \<le> m - n. R ^^ (n + k))"
    then obtain k where "k \<le> m - n" "x \<in> R ^^ (n + k)" by blast
    then have "n \<le> n + k" "n + k \<le> m" using le by auto
    with \<open>x \<in> R ^^ (n + k)\<close> show "x \<in> repeats n m False R" unfolding repeats_def by blast
  qed
  finally show ?thesis by simp
qed

lemma expand_range_ast:
  assumes "\<And>st. ast_run atom st = Some (r # st)" "unbounded \<or> n \<le> m \<and> 0 < m"
  shows "\<exists>q. (\<forall>st. ast_run (expand_range n m unbounded atom) st = Some (q # st)) \<and>
    (\<forall>acc cond. rel acc cond q = repeats n m unbounded (rel acc cond r))"
proof (cases n)
  case 0
  show ?thesis
  proof (cases unbounded)
    case True
    with 0 show ?thesis
      by (intro exI [of _ "Star False r"])
        (simp add: expand_range_def ast_run_append mandatory_ast [OF assms(1)] assms(1) repeats_unbounded)
  next
    case False
    with assms(2) obtain k where m: "m = Suc k" by (cases m) auto
    show ?thesis
      using 0 False m
      by (intro exI [of _ "copies (Opt False r) (Opt False r) k"])
        (simp add: expand_range_def ast_run_append mandatory_ast [OF assms(1)] optional_ast [OF assms(1)]
          repeats_bounded rel_copies relpow_Suc_left)
  qed
next
  case (Suc p)
  show ?thesis
  proof (cases unbounded)
    case True
    with Suc show ?thesis
      by (intro exI [of _ "Cat (copies r r p) (Star False r)"])
        (simp add: expand_range_def ast_run_append mandatory_ast [OF assms(1)] assms(1) repeats_unbounded rel_copies
          relpow_Suc_left)
  next
    case False
    with assms(2) have m: "n \<le> m" by simp
    show ?thesis
      using Suc False m
      by (intro exI [of _ "copies (copies r r p) (Opt False r) (m - n)"])
        (auto simp: expand_range_def ast_run_append mandatory_ast [OF assms(1)] optional_ast [OF assms(1)]
          repeats_bounded rel_copies relpow_Suc_left)
  qed
qed

subsection \<open>Properties\<close>

text \<open>C12: a range quantifier that is accepted replaces the atom on top of the postfix by tokens
  whose expression matches the atom between \<open>n\<close> and \<open>m\<close> times (at least \<open>n\<close> times when the
  range is unbounded) and leaves the tokens before the atom alone; \<open>{0}\<close> and \<open>{0,0}\<close> delete
  the atom.\<close>

theorem apply_range_correct:
  assumes "ast_run (take (atom_start b) (postfix b)) [] = Some st"
    and "ast_run (drop (atom_start b) (postfix b)) [] = Some [r]"
    and "apply_range n m unbounded b = (b', True)" "unbounded \<or> n \<le> m"
  shows "if \<not> unbounded \<and> m = 0 then ast_run (postfix b') [] = Some st
    else \<exists>q. ast_run (postfix b') [] = Some (q # st) \<and>
      (\<forall>acc cond. rel acc cond q = repeats n m unbounded (rel acc cond r))"
proof -
  have atom: "ast_run (drop (atom_start b) (postfix b)) s = Some (r # s)" for s
    using ast_run_frame [OF assms(2), of s] by simp
  show ?thesis
  proof (cases "\<not> unbounded \<and> m = 0")
    case True
    with assms(3,4) have "postfix b' = take (atom_start b) (postfix b)"
      unfolding apply_range_def Let_def by (simp split: if_splits) auto
    with True assms(1) show ?thesis by simp
  next
    case False
    with assms(3) have p: "postfix b' = take (atom_start b) (postfix b) @
        expand_range n m unbounded (drop (atom_start b) (postfix b))"
      unfolding apply_range_def Let_def by (simp split: if_splits) auto
    obtain q where q: "\<And>s. ast_run (expand_range n m unbounded (drop (atom_start b) (postfix b))) s = Some (q # s)"
      "\<And>acc cond. rel acc cond q = repeats n m unbounded (rel acc cond r)"
      using expand_range_ast [OF atom, where unbounded = unbounded and n = n and m = m] False assms(4) by auto
    have "ast_run (postfix b') [] = Some (q # st)" unfolding p ast_run_append assms(1) by (simp add: q(1))
    with False q(2) show ?thesis by auto
  qed
qed

theorem apply_range_correct_witness:
  "\<exists>b' q. apply_range 2 3 False (init_builder Extended \<lparr>postfix := [0x61, 0x62], atom_start := 1\<rparr>) = (b', True) \<and>
     ast_run (postfix b') [] = Some [q, Atom 0x61] \<and>
     (\<forall>acc cond. rel acc cond q = repeats 2 3 False (rel acc cond (Atom 0x62)))"
proof -
  let ?b = "init_builder Extended \<lparr>postfix := [0x61, 0x62], atom_start := 1\<rparr>"
  have a: "ast_run (take (atom_start ?b) (postfix ?b)) [] = Some [Atom 0x61]"
    "ast_run (drop (atom_start ?b) (postfix ?b)) [] = Some [Atom 0x62]"
    by (simp_all add: ast_step_def)
  have "snd (apply_range 2 3 False ?b)"
    by (simp add: apply_range_def Let_def expand_range_def mandatory_copies_def optional_copies_def upt_rec init_builder_def)
  then obtain b' where b': "apply_range 2 3 False ?b = (b', True)" by (metis prod.collapse)
  from apply_range_correct [OF a b'] have "\<exists>q. ast_run (postfix b') [] = Some [q, Atom 0x61] \<and>
     (\<forall>acc cond. rel acc cond q = repeats 2 3 False (rel acc cond (Atom 0x62)))" by simp
  with b' show ?thesis by blast
qed

end
