(* ===== verification/RegexConstruct.thy ===== *)
theory RegexConstruct
  imports RegexSearch RegexRange
begin

text \<open>
  The constructor of \<open>RegexEngine\<close> in \<open>include/trieste/regex_engine.h\<close> seen from outside:
  which patterns construct, what the engine reports when one does not, and how large the
  automaton is.
\<close>

subsection \<open>When construction fails\<close>

lemma closure_phases_error:
  assumes "\<not> engine_ok e"
  shows "finalize_states (precompute_epsilon_closures (detect_conditional_states e)) = detect_conditional_states e"
proof -
  have "\<not> engine_ok (detect_conditional_states e)" using assms by (simp add: engine_ok_def detect_conditional_states_def)
  then show ?thesis by (simp add: precompute_epsilon_closures_def finalize_states_def)
qed

lemma create_first_state:
  "owned_states e = [] \<Longrightarrow> create_state Match None None (e\<lparr>states_capacity := Suc n\<rparr>) =
     (e\<lparr>states_capacity := Suc n, owned_states := [mk_state Match None None 0]\<rparr>, 0)"
  by (simp add: create_state_room)

lemma RegexEngine_parse_error:
  assumes p: "regexp_to_postfix_runes fc mode pat = (b, False)" and fc: "categories_ok fc"
  shows "eng_error_code (RegexEngine fc pat mode) = error_code b \<and>
    eng_error_arg (RegexEngine fc pat mode) = take 100 (error_arg b) \<and> error_code b \<noteq> NoError"
proof -
  have n: "error_code b \<noteq> NoError" using regexp_to_postfix_runes_inv [OF p fc] by simp
  define e0 where "e0 = set_error_arg (error_code b) (error_arg b) (init_engine mode)"
  have t: "parse_pattern fc pat (init_engine mode) = (e0, [])"
    using p by (simp add: parse_pattern_def init_engine_def e0_def)
  have o: "owned_states e0 = []" "eng_error_code e0 = error_code b" "eng_error_arg e0 = take 100 (error_arg b)"
    by (simp_all add: e0_def init_engine_def set_error_arg_def)
  define e1 where "e1 = e0\<lparr>states_capacity := Suc 0, owned_states := [mk_state Match None None 0], accept_state := 0, start_state := 0\<rparr>"
  have "\<not> engine_ok e1" using n o by (simp add: e1_def engine_ok_def)
  from closure_phases_error [OF this] have
    "RegexEngine fc pat mode = (detect_conditional_states e1)\<lparr>first_char_info := compute_first_char_info (detect_conditional_states e1)\<rparr>"
    using t create_first_state [OF o(1), of 0] by (simp add: RegexEngine_def Let_def postfix_to_nfa_def e1_def)
  with n o show ?thesis by (simp add: e1_def detect_conditional_states_def)
qed

lemma RegexEngine_malformed:
  assumes p: "regexp_to_postfix_runes fc mode pat = (b, True)"
    and ast: "postfix b \<noteq> []" "postfix_ast (postfix b) = None"
  shows "\<not> engine_ok (RegexEngine fc pat mode)"
proof -
  define e0 where "e0 = (init_engine mode)\<lparr>eng_classes := rune_classes b, eng_num_captures := num_captures b\<rparr>"
  have t: "parse_pattern fc pat (init_engine mode) = (e0, postfix b)"
    using p by (simp add: parse_pattern_def init_engine_def e0_def)
  define e1 where "e1 = e0\<lparr>states_capacity := 2 * length (postfix b) + 1, owned_states := [mk_state Match None None 0], accept_state := 0\<rparr>"
  have o: "create_state Match None None (e0\<lparr>states_capacity := 2 * length (postfix b) + 1\<rparr>) =
      (e0\<lparr>states_capacity := 2 * length (postfix b) + 1, owned_states := [mk_state Match None None 0]\<rparr>, 0)"
    by (simp add: create_state_room e0_def init_engine_def)
  have "ready (postfix b) e1" by (simp add: ready_def e1_def e0_def init_engine_def engine_ok_def)
  from postfix_to_nfa_error [OF this ast] obtain e2 s where n: "postfix_to_nfa (postfix b) e1 = (e2, s)" "\<not> engine_ok e2"
    by (metis prod.collapse)
  then have "\<not> engine_ok (e2\<lparr>start_state := s\<rparr>)" by (simp add: engine_ok_def)
  from closure_phases_error [OF this] n(2) show ?thesis
    using t o n(1) by (simp add: RegexEngine_def Let_def e1_def engine_ok_def detect_conditional_states_def)
qed

lemma find_prefix_not_ok: "\<not> engine_ok e \<Longrightarrow> snd (find_prefix e this s ctx as) = None"
  by (simp add: find_prefix_def find_prefix_noncapturing_with_context_def Let_def)

lemma find_prefix_captures_not_ok: "\<not> engine_ok e \<Longrightarrow> snd (find_prefix_captures e this s ctx as) = ([], None)"
  by (simp add: find_prefix_captures_def find_prefix_with_context_def find_prefix_noncapturing_with_context_def Let_def)

lemma match_not_ok: "\<not> engine_ok e \<Longrightarrow> \<not> snd (regex_match e this s ctx)"
  using find_prefix_not_ok [of e this s ctx True]
  by (cases "find_prefix e this s ctx True") (simp add: regex_match_def)

lemma search_not_ok: "\<not> engine_ok e \<Longrightarrow> snd (snd (search e this s caps ctx p)) = None"
  by (simp add: search_def)

subsection \<open>The size of an engine\<close>

lemma precompute_flags_core:
  "precompute_flags combos i flags trivial b entries e = (e', res) \<Longrightarrow> eng_num_captures e' = eng_num_captures e"
proof (induction combos i flags trivial b entries e rule: precompute_flags.induct)
  case (1 combos i flags trivial b entries e)
  show ?case
  proof (cases "flags < combos")
    case True
    with 1(2) [unfolded precompute_flags.simps [of combos i flags]] 1(1) [OF True refl refl refl refl refl]
    show ?thesis by (auto simp: Let_def set_error_def split: if_splits)
  next
    case False
    with 1(2) show ?thesis by (simp add: precompute_flags.simps [of combos i flags])
  qed
qed

lemma precompute_states_size:
  "precompute_states combos is b entries e = (e', d) \<Longrightarrow>
    length (owned_states e') = length (owned_states e) \<and> eng_num_captures e' = eng_num_captures e"
proof (induction "is" arbitrary: b entries e)
  case (Cons i "is")
  obtain e1 res where f: "precompute_flags combos i 0 True b entries e = (e1, res)" by fastforce
  with precompute_flags_owned [OF f] precompute_flags_core [OF f] Cons show ?case
    by (fastforce split: option.splits)
qed simp

lemma precompute_size:
  "length (owned_states (precompute_epsilon_closures e)) = length (owned_states e)"
  "eng_num_captures (precompute_epsilon_closures e) = eng_num_captures e"
  by (auto simp: precompute_epsilon_closures_def Let_def dest!: precompute_states_size split: prod.splits)

lemma RegexEngine_size:
  assumes p: "regexp_to_postfix_runes fc mode pat = (b, True)"
    and ast: "postfix b = [] \<or> postfix_ast (postfix b) \<noteq> None"
    and len: "length (postfix b) \<le> MaxStates"
  shows "length (owned_states (RegexEngine fc pat mode)) \<le> 2 * length (postfix b) + 1"
    "eng_num_captures (RegexEngine fc pat mode) = num_captures b"
proof -
  define e0 where "e0 = (init_engine mode)\<lparr>eng_classes := rune_classes b, eng_num_captures := num_captures b\<rparr>"
  have t: "parse_pattern fc pat (init_engine mode) = (e0, postfix b)"
    using p by (simp add: parse_pattern_def init_engine_def e0_def)
  define e1 where "e1 = e0\<lparr>states_capacity := 2 * length (postfix b) + 1, owned_states := [mk_state Match None None 0], accept_state := 0\<rparr>"
  have o: "create_state Match None None (e0\<lparr>states_capacity := 2 * length (postfix b) + 1\<rparr>) =
      (e0\<lparr>states_capacity := 2 * length (postfix b) + 1, owned_states := [mk_state Match None None 0]\<rparr>, 0)"
    by (simp add: create_state_room e0_def init_engine_def)
  have "ready (postfix b) e1" by (simp add: ready_def e1_def e0_def init_engine_def engine_ok_def)
  from postfix_to_nfa_length [OF this len ast] obtain ss s where
    n: "postfix_to_nfa (postfix b) e1 = (e1\<lparr>owned_states := ss\<rparr>, s)" "length ss \<le> 2 * length (postfix b) + 1"
    by auto
  show "length (owned_states (RegexEngine fc pat mode)) \<le> 2 * length (postfix b) + 1"
    "eng_num_captures (RegexEngine fc pat mode) = num_captures b"
    using t o n precompute_size
    by (simp_all add: RegexEngine_def Let_def e1_def e0_def init_engine_def finalize_states_def detect_conditional_states_def)
qed
subsection \<open>Thompson's construction\<close>

text \<open>C3: Thompson's construction is correct: from the tokens of one expression it builds, within
  the states reserved for it, an automaton whose paths from the start state to the accepting
  state are exactly the matches of the expression, over any input and any truth of the
  conditions.\<close>

theorem thompson_correct:
  assumes "ready ts e" "length ts \<le> MaxStates" "postfix_ast ts = Some r" "\<forall>t \<in> set ts. plain t"
    and "postfix_to_nfa ts e = (e', s)"
  shows "engine_ok e' \<and> length (owned_states e') \<le> states_capacity e \<and>
    (((s, i), (accept_state e', j)) \<in> (edges (owned_states e') acc cond)\<^sup>* \<longleftrightarrow> (i, j) \<in> rel acc cond r)"
proof -
  obtain ss where ss: "e' = e\<lparr>owned_states := ss\<rparr>" "automaton_ok ss s r 0" "length ss \<le> 2 * length ts + 1"
    using postfix_to_nfa_compiled [OF assms(1-3)] assms(5) by auto
  have "rexp_ok r" using postfix_ast_ok [OF assms(3,4)] .
  with compiled_matches [of ss s r 0] ss assms(1) show ?thesis
    by (auto simp: automaton_ok_def ready_def engine_ok_def)
qed

abbreviation ready_engine :: "nat \<Rightarrow> engine" where
  "ready_engine n \<equiv> (init_engine Extended)\<lparr>states_capacity := 2 * n + 1, owned_states := [mk_state Match None None 0]\<rparr>"

lemma ready_engine: "length ts = n \<Longrightarrow> ready ts (ready_engine n)"
  by (simp add: ready_def init_engine_def engine_ok_def)

theorem thompson_correct_witness:
  "\<exists>e' s. postfix_to_nfa [0x61, 0x62, Alternation, ZeroOrMore] (ready_engine 4) = (e', s) \<and> engine_ok e' \<and>
    (((s, 0), (accept_state e', 3)) \<in> (edges (owned_states e') (\<lambda>l i. l = 0x61) (\<lambda>l i. False))\<^sup>* \<longleftrightarrow>
     (0, 3) \<in> rel (\<lambda>l i. l = 0x61) (\<lambda>l i. False) (Star False (Alt (Atom 0x61) (Atom 0x62))))"
proof -
  let ?ts = "[0x61, 0x62, Alternation, ZeroOrMore] :: rune list"
  have r: "ready ?ts (ready_engine 4)" by (rule ready_engine) simp
  have a: "postfix_ast ?ts = Some (Star False (Alt (Atom 0x61) (Atom 0x62)))" by (simp add: postfix_ast_def ast_step_def)
  have p: "\<forall>t \<in> set ?ts. plain t" by (simp add: plain_def is_capture_def is_capture_open_def is_capture_close_def)
  obtain e' s where n: "postfix_to_nfa ?ts (ready_engine 4) = (e', s)" by fastforce
  from thompson_correct [OF r _ a p n, where i = 0 and j = 3] n show ?thesis by auto
qed

text \<open>C10: tokens that do not form exactly one expression are rejected: the construction leaves an
  error, it never returns a wrong automaton silently.\<close>

theorem thompson_rejects:
  assumes "ready ts e" "ts \<noteq> []" "postfix_ast ts = None"
  shows "\<not> engine_ok (fst (postfix_to_nfa ts e))"
  by (rule postfix_to_nfa_error [OF assms])

theorem thompson_rejects_witness: "\<not> engine_ok (fst (postfix_to_nfa [0x61, Alternation] (ready_engine 2)))"
  by (rule thompson_rejects [OF ready_engine]) (simp_all add: postfix_ast_def ast_step_def)

end
