(* ===== verification/Xoroshiro.thy ===== *)
theory Xoroshiro
  imports Prelude
begin

unbundle bit_operations_syntax

text \<open>
  The pseudo random number generator of \<open>include/trieste/xoroshiro.h\<close>. The template
  \<open>XorOshiro<STATE, RESULT, A, B, C>\<close> is a family of definitions over the word lengths of
  \<open>STATE\<close> and \<open>RESULT\<close> with the three shift distances as arguments; a call of \<open>abort()\<close> is
  \<open>None\<close>. The lemmas show that the generator permutes the states other than zero, so that the
  calls of \<open>abort()\<close> after the constructor's check are never reached.
\<close>

subsection \<open>The generator\<close>

record 's xor_oshiro =
  xo_x :: 's
  xo_y :: 's

definition rotl :: "'a::len word \<Rightarrow> nat \<Rightarrow> 'a word" where
  "rotl x k = push_bit k x OR drop_bit (LENGTH('a) - k) x"

definition draw :: "nat \<Rightarrow> nat \<Rightarrow> nat \<Rightarrow> 'a::len word xor_oshiro \<Rightarrow> ('a word xor_oshiro \<times> 'r::len word) option" where
  "draw A B C g =
     (let r = xo_x g + xo_y g;
          y = xo_y g XOR xo_x g;
          x = rotl (xo_x g) A XOR y XOR push_bit B y;
          y = rotl y C
      in if x = 0 \<and> y = 0 then None
         else Some (\<lparr>xo_x = x, xo_y = y\<rparr>, ucast (drop_bit (LENGTH('a) - LENGTH('r)) r)))"

definition set_state :: "nat \<Rightarrow> nat \<Rightarrow> nat \<Rightarrow> 'a::len word \<Rightarrow> 'a word \<Rightarrow> 'r::len itself \<Rightarrow> 'a word xor_oshiro option" where
  "set_state A B C x y r =
     (if x = 0 \<and> y = 0 then None
      else map_option fst (draw A B C \<lparr>xo_x = x, xo_y = y\<rparr> :: ('a word xor_oshiro \<times> 'r word) option))"

text \<open>The constructor initialises the members and then does what \<open>set_state\<close> does.\<close>

definition make_xoroshiro :: "nat \<Rightarrow> nat \<Rightarrow> nat \<Rightarrow> 'a::len word \<Rightarrow> 'a word \<Rightarrow> 'r::len itself \<Rightarrow> 'a word xor_oshiro option" where
  "make_xoroshiro A B C x y r = set_state A B C x y r"

definition xo_min :: "'r::len word" where "xo_min = 0"
definition xo_max :: "'r::len word" where "xo_max = - 1"

text \<open>The instances.\<close>

definition p128r64 :: "64 word xor_oshiro \<Rightarrow> (64 word xor_oshiro \<times> 64 word) option" where "p128r64 = draw 55 14 36"
definition p128r32 :: "64 word xor_oshiro \<Rightarrow> (64 word xor_oshiro \<times> 32 word) option" where "p128r32 = draw 55 14 36"
definition p64r32 :: "32 word xor_oshiro \<Rightarrow> (32 word xor_oshiro \<times> 32 word) option" where "p64r32 = draw 27 7 20"
definition p64r16 :: "32 word xor_oshiro \<Rightarrow> (32 word xor_oshiro \<times> 16 word) option" where "p64r16 = draw 27 7 20"
definition p32r16 :: "16 word xor_oshiro \<Rightarrow> (16 word xor_oshiro \<times> 16 word) option" where "p32r16 = draw 13 5 10"
definition p32r8 :: "16 word xor_oshiro \<Rightarrow> (16 word xor_oshiro \<times> 8 word) option" where "p32r8 = draw 13 5 10"
definition p16r8 :: "8 word xor_oshiro \<Rightarrow> (8 word xor_oshiro \<times> 8 word) option" where "p16r8 = draw 4 7 3"

text \<open>A sequence of draws.\<close>

fun draws :: "nat \<Rightarrow> nat \<Rightarrow> nat \<Rightarrow> nat \<Rightarrow> 'a::len word xor_oshiro \<Rightarrow> ('a word xor_oshiro \<times> 'r::len word list) option" where
  "draws A B C 0 g = Some (g, [])"
| "draws A B C (Suc n) g =
     (case draw A B C g of
        None \<Rightarrow> None
      | Some (g, r) \<Rightarrow> map_option (\<lambda>(g, rs). (g, r # rs)) (draws A B C n g))"

subsection \<open>Rotation\<close>

lemma bit_rotl:
  assumes "k < LENGTH('a)" "n < LENGTH('a)"
  shows "bit (rotl (x :: 'a::len word) k) n = bit x ((n + LENGTH('a) - k) mod LENGTH('a))"
proof (cases "k \<le> n")
  case True
  then have "(n + LENGTH('a) - k) mod LENGTH('a) = (n - k + LENGTH('a)) mod LENGTH('a)" by simp
  also have "\<dots> = n - k" using assms by simp
  finally have i: "(n + LENGTH('a) - k) mod LENGTH('a) = n - k" .
  have "\<not> bit x (LENGTH('a) - k + n)" using bit_imp_le_length [of x "LENGTH('a) - k + n"] True by auto
  with True assms i show ?thesis by (auto simp: rotl_def bit_or_iff bit_push_bit_iff bit_drop_bit_eq)
next
  case False
  then have "(n + LENGTH('a) - k) mod LENGTH('a) = n + LENGTH('a) - k" using assms by simp
  with False assms show ?thesis
    by (simp add: rotl_def bit_or_iff bit_push_bit_iff bit_drop_bit_eq add.commute)
qed

lemma rotl_inject:
  assumes "k < LENGTH('a)" "rotl (x :: 'a::len word) k = rotl y k"
  shows "x = y"
proof (rule bit_word_eqI)
  fix n assume n: "n < LENGTH('a)"
  let ?m = "(n + k) mod LENGTH('a)"
  have m: "?m < LENGTH('a)" by simp
  have "(?m + LENGTH('a) - k) mod LENGTH('a) = n"
  proof (cases "n + k < LENGTH('a)")
    case False
    then have "?m = n + k - LENGTH('a)" using n assms(1) by (simp add: mod_if)
    then show ?thesis using False n assms(1) by simp
  qed (use n in simp)
  with bit_rotl [OF assms(1) m, of x] bit_rotl [OF assms(1) m, of y] assms(2)
  show "bit x n = bit y n" by simp
qed

lemma rotl_0 [simp]: "rotl 0 k = 0"
  by (simp add: rotl_def)

lemma rotl_eq_0: "k < LENGTH('a) \<Longrightarrow> rotl (x :: 'a::len word) k = 0 \<longleftrightarrow> x = 0"
  using rotl_inject [of k x 0] by auto

subsection \<open>The step is a permutation of the states\<close>

definition live :: "'a::len word xor_oshiro \<Rightarrow> bool" where
  "live g \<longleftrightarrow> xo_x g \<noteq> 0 \<or> xo_y g \<noteq> 0"

lemma draw_live:
  assumes "A < LENGTH('a)" "C < LENGTH('a)" "live (g :: 'a::len word xor_oshiro)"
  shows "\<exists>g' r. draw A B C g = Some (g', r) \<and> live g'"
proof -
  let ?y = "xo_y g XOR xo_x g" and ?x = "rotl (xo_x g) A XOR (xo_y g XOR xo_x g) XOR push_bit B (xo_y g XOR xo_x g)"
  have "\<not> (?x = 0 \<and> rotl ?y C = 0)"
  proof
    assume z: "?x = 0 \<and> rotl ?y C = 0"
    then have y: "?y = 0" using rotl_eq_0 [OF assms(2), of ?y] by simp
    with z have "rotl (xo_x g) A = 0" by simp
    then have "xo_x g = 0" using rotl_eq_0 [OF assms(1)] by simp
    with y assms(3) show False by (simp add: live_def)
  qed
  then show ?thesis by (auto simp: draw_def live_def Let_def)
qed

lemma xor_cancel: "(a :: 'a::len word) XOR c = b XOR c \<Longrightarrow> a = b"
proof -
  assume "a XOR c = b XOR c"
  then have "(a XOR c) XOR c = (b XOR c) XOR c" by simp
  then show "a = b" by (simp only: xor.assoc xor_self_eq xor.right_neutral)
qed

lemma draw_inject:
  assumes "A < LENGTH('a)" "C < LENGTH('a)"
    and "draw A B C (g :: 'a::len word xor_oshiro) = Some (h, r)" "draw A B C g' = Some (h, r')"
  shows "g = g'"
proof -
  let ?y = "xo_y g XOR xo_x g" and ?y' = "xo_y g' XOR xo_x g'"
  have "rotl ?y C = rotl ?y' C"
    and x: "rotl (xo_x g) A XOR ?y XOR push_bit B ?y = rotl (xo_x g') A XOR ?y' XOR push_bit B ?y'"
    using assms(3,4) by (auto simp: draw_def Let_def split: if_splits)
  then have y: "?y = ?y'" using rotl_inject [OF assms(2)] by blast
  with x have "rotl (xo_x g) A XOR (?y' XOR push_bit B ?y') = rotl (xo_x g') A XOR (?y' XOR push_bit B ?y')"
    by (simp add: xor.assoc)
  then have "rotl (xo_x g) A = rotl (xo_x g') A" by (rule xor_cancel)
  then have e: "xo_x g = xo_x g'" using rotl_inject [OF assms(1)] by blast
  have "xo_y g = xo_y g'" by (rule xor_cancel [of _ "xo_x g"]) (use y e in simp)
  with e show ?thesis by simp
qed

lemma draws_live:
  assumes "A < LENGTH('a)" "C < LENGTH('a)"
  shows "live (g :: 'a::len word xor_oshiro) \<Longrightarrow>
    \<exists>g' rs. draws A B C n g = Some (g', rs :: 'r::len word list) \<and> live g' \<and> length rs = n"
proof (induction n arbitrary: g)
  case (Suc n)
  from draw_live [OF assms Suc.prems] obtain g1 and r :: "'r word" where g1: "draw A B C g = Some (g1, r)" "live g1" by blast
  from Suc.IH [OF g1(2)] g1(1) show ?case by auto
qed simp

subsection \<open>Properties\<close>

text \<open>C40: a generator built from a seed that is not zero never aborts: the constructor succeeds,
  and so does every later draw, any number of times.\<close>

theorem xoroshiro_never_aborts:
  assumes "A < LENGTH('a)" "C < LENGTH('a)" "x \<noteq> 0 \<or> y \<noteq> (0 :: 'a::len word)"
  shows "\<exists>g g' rs. make_xoroshiro A B C x y TYPE('r::len) = Some g \<and>
    draws A B C n g = Some (g', rs :: 'r word list) \<and> length rs = n"
proof -
  have "live \<lparr>xo_x = x, xo_y = y\<rparr>" using assms(3) by (auto simp: live_def)
  from draw_live [OF assms(1,2) this] obtain g and r :: "'r word" where
    g: "draw A B C \<lparr>xo_x = x, xo_y = y\<rparr> = Some (g, r)" "live g" by blast
  then have "make_xoroshiro A B C x y TYPE('r) = Some g" using assms(3) by (auto simp: make_xoroshiro_def set_state_def)
  with draws_live [OF assms(1,2) g(2)] show ?thesis by blast
qed

theorem xoroshiro_never_aborts_witness:
  "\<exists>g g' rs. make_xoroshiro 55 14 36 (5489 :: 64 word) 0 TYPE(32) = Some g \<and>
    draws 55 14 36 1000 g = Some (g', rs :: 32 word list) \<and> length rs = 1000"
  by (rule xoroshiro_never_aborts) simp_all

text \<open>No two states step to the same state: with rotation distances below the width, as in
  all seven instances, the generator permutes its states and never runs into a shorter cycle
  that it did not start on.\<close>

theorem xoroshiro_injective:
  assumes "A < LENGTH('a)" "C < LENGTH('a)"
    and "draw A B C (g :: 'a::len word xor_oshiro) = Some (h, r :: 'r::len word)" "draw A B C g' = Some (h, r' :: 'r word)"
  shows "g = g'"
  by (rule draw_inject [OF assms])

theorem xoroshiro_injective_witness: "inj_on (\<lambda>g. map_option fst (p16r8 g)) {g. p16r8 g \<noteq> None}"
proof (rule inj_onI)
  fix g g' :: "8 word xor_oshiro"
  assume g: "g \<in> {g. p16r8 g \<noteq> None}" "map_option fst (p16r8 g) = map_option fst (p16r8 g')"
  then obtain a where a: "p16r8 g = Some a" by blast
  with g(2) obtain b where b: "p16r8 g' = Some b" "fst b = fst a" by (cases "p16r8 g'") simp_all
  from a b have d: "draw 4 7 3 g = Some (fst a, snd a)" "draw 4 7 3 g' = Some (fst a, snd b)"
    unfolding p16r8_def by (simp_all add: prod_eq_iff)
  show "g = g'" by (rule xoroshiro_injective [OF _ _ d]) simp_all
qed

end
