(* ===== verification/NodeWorker.thy ===== *)
theory NodeWorker
  imports Prelude
begin

text \<open>
  \<open>include/trieste/nodeworker.h\<close>: the work list of nodes that may wait for other nodes. The
  template argument \<open>Work\<close>, which a pass supplies, is a parameter: the initial value of the members
  its \<open>State\<close> adds, its \<open>seed\<close> and its \<open>process\<close>; the object's own members are the field
  \<open>work_obj\<close>. The map \<open>state_\<close> is a partial function; an access by \<open>at\<close> to a node that is
  not in it, and a failing assertion, are \<open>None\<close>. The set of dependents is the list of its elements
  in the order they were inserted, and the order in which the hash set enumerates them is the
  parameter \<open>enum\<close>.

  The lemmas show that a work that keeps to the usage described in the header, and names no origin
  twice in one \<open>block_on_all\<close>, makes \<open>run\<close> return, that no access and no assertion fails, and that no wake-up is lost: a node that is left blocked
  waits for a node that is itself blocked. Two further properties state where
  \<open>block_on_all\<close> departs from its description.
\<close>

datatype WorkerStatus = Uninitialized | Active | Blocked | Resolved

record ('n, 'x) node_state =
  kind :: WorkerStatus
  blocked_on_count :: nat
  dependents :: "'n list"
  derived :: 'x

record ('n, 'x, 'w) worker =
  states :: "'n \<rightharpoonup> ('n, 'x) node_state"
  worklist :: "'n list"
  work_obj :: 'w

record ('n, 'x, 'w) work =
  init :: 'x
  seed :: "'n \<Rightarrow> 'w \<times> ('n, 'x) node_state \<Rightarrow> 'w \<times> ('n, 'x) node_state"
  process :: "'n \<Rightarrow> ('n, 'x, 'w) worker \<Rightarrow> (bool \<times> ('n, 'x, 'w) worker) option"

subsection \<open>The operations\<close>

definition make_worker :: "'w \<Rightarrow> ('n, 'x, 'w) worker" where
  "make_worker k = \<lparr>states = (\<lambda>_. None), worklist = [], work_obj = k\<rparr>"

definition state :: "('n, 'x, 'w) worker \<Rightarrow> 'n \<Rightarrow> ('n, 'x) node_state option" where
  "state w n = states w n"

definition put_state :: "'n \<Rightarrow> ('n, 'x) node_state \<Rightarrow> ('n, 'x, 'w) worker \<Rightarrow> ('n, 'x, 'w) worker" where
  "put_state n s w = w\<lparr>states := (states w)(n \<mapsto> s)\<rparr>"

definition is_resolved :: "('n, 'x, 'w) worker \<Rightarrow> 'n \<Rightarrow> bool" where
  "is_resolved w n = (case states w n of None \<Rightarrow> False | Some s \<Rightarrow> kind s = Resolved)"

definition fresh_state :: "('n, 'x, 'w) work \<Rightarrow> ('n, 'x) node_state" where
  "fresh_state wk = \<lparr>kind = Uninitialized, blocked_on_count = 0, dependents = [], derived = init wk\<rparr>"

definition add :: "('n, 'x, 'w) work \<Rightarrow> 'n \<Rightarrow> ('n, 'x, 'w) worker \<Rightarrow> ('n, 'x, 'w) worker" where
  "add wk n w =
     (let s = (case states w n of Some s \<Rightarrow> s | None \<Rightarrow> fresh_state wk);
          w = put_state n s w
      in if kind s \<noteq> Uninitialized then w
         else let (k, s) = seed wk n (work_obj w, s)
              in (put_state n (s\<lparr>kind := Active\<rparr>) w)\<lparr>work_obj := k, worklist := worklist w @ [n]\<rparr>)"

definition block_on :: "('n, 'x, 'w) work \<Rightarrow> 'n \<Rightarrow> 'n \<Rightarrow> ('n, 'x, 'w) worker \<Rightarrow> (bool \<times> ('n, 'x, 'w) worker) option" where
  "block_on wk dependent origin w =
     (let w = add wk origin w
      in if is_resolved w origin then Some (False, w)
         else (case state w origin of
             None \<Rightarrow> None
           | Some so \<Rightarrow>
               let w = put_state origin (so\<lparr>dependents := List.insert dependent (dependents so)\<rparr>) w
               in (case state w dependent of
                     None \<Rightarrow> None
                   | Some sd \<Rightarrow> Some (True, put_state dependent (sd\<lparr>kind := Blocked\<rparr>) w))))"

text \<open>The loop of \<open>block_on_all\<close> and \<open>block_on_any\<close> over the origins, which counts those that block.\<close>

fun block_each :: "('n, 'x, 'w) work \<Rightarrow> 'n \<Rightarrow> 'n list \<Rightarrow> nat \<Rightarrow> ('n, 'x, 'w) worker \<Rightarrow> (nat \<times> ('n, 'x, 'w) worker) option" where
  "block_each wk dependent [] count w = Some (count, w)"
| "block_each wk dependent (origin # origins) count w =
     (case block_on wk dependent origin w of
        None \<Rightarrow> None
      | Some (b, w) \<Rightarrow> block_each wk dependent origins (if b then count + 1 else count) w)"

definition block_on_all :: "('n, 'x, 'w) work \<Rightarrow> 'n \<Rightarrow> 'n list \<Rightarrow> ('n, 'x, 'w) worker \<Rightarrow> (bool \<times> ('n, 'x, 'w) worker) option" where
  "block_on_all wk dependent origins w =
     (case block_each wk dependent origins 0 w of
        None \<Rightarrow> None
      | Some (count, w) \<Rightarrow>
          if count = 0 then Some (False, w)
          else let count = count - 1
               in (case state w dependent of
                     None \<Rightarrow> None
                   | Some s \<Rightarrow>
                       if blocked_on_count s = 0
                       then Some (True, put_state dependent (s\<lparr>blocked_on_count := count\<rparr>) w)
                       else Some (True, put_state dependent (s\<lparr>blocked_on_count := min (blocked_on_count s) count\<rparr>) w)))"

definition block_on_any :: "('n, 'x, 'w) work \<Rightarrow> 'n \<Rightarrow> 'n list \<Rightarrow> ('n, 'x, 'w) worker \<Rightarrow> (bool \<times> ('n, 'x, 'w) worker) option" where
  "block_on_any wk dependent origins w =
     (case block_each wk dependent origins 0 w of
        None \<Rightarrow> None
      | Some (count, w) \<Rightarrow>
          (case state w dependent of
             None \<Rightarrow> None
           | Some s \<Rightarrow> Some (count \<noteq> 0, put_state dependent (s\<lparr>blocked_on_count := 0\<rparr>) w)))"

text \<open>\<open>unblock_dependents\<close>: the loop over the dependents, then the whole.\<close>

fun wake_all :: "'n list \<Rightarrow> ('n, 'x, 'w) worker \<Rightarrow> ('n, 'x, 'w) worker option" where
  "wake_all [] w = Some w"
| "wake_all (dependent # waiting) w =
     (case state w dependent of
        None \<Rightarrow> None
      | Some s \<Rightarrow>
          if kind s \<noteq> Blocked then wake_all waiting w
          else if 0 < blocked_on_count s then
            wake_all waiting (put_state dependent (s\<lparr>blocked_on_count := blocked_on_count s - 1\<rparr>) w)
          else
            wake_all waiting ((put_state dependent (s\<lparr>kind := Active\<rparr>) w)\<lparr>worklist := worklist w @ [dependent]\<rparr>))"

definition unblock_dependents :: "('n list \<Rightarrow> 'n list) \<Rightarrow> 'n \<Rightarrow> ('n, 'x, 'w) worker \<Rightarrow> ('n, 'x, 'w) worker option" where
  "unblock_dependents enum origin w =
     (case state w origin of
        None \<Rightarrow> None
      | Some s \<Rightarrow>
          if dependents s = [] then Some w
          else (case wake_all (enum (dependents s)) w of
              None \<Rightarrow> None
            | Some w \<Rightarrow>
                (case state w origin of
                   None \<Rightarrow> None
                 | Some s \<Rightarrow> Some (put_state origin (s\<lparr>dependents := []\<rparr>) w))))"

text \<open>One iteration of the loop of \<open>run\<close>, and the loop.\<close>

definition run_step :: "('n list \<Rightarrow> 'n list) \<Rightarrow> ('n, 'x, 'w) work \<Rightarrow> ('n, 'x, 'w) worker \<Rightarrow> ('n, 'x, 'w) worker option" where
  "run_step enum wk w =
     (let current = hd (worklist w);
          w = w\<lparr>worklist := tl (worklist w)\<rparr>
      in (case state w current of
            None \<Rightarrow> None
          | Some s \<Rightarrow>
              if kind s = Resolved then Some w
              else if kind s \<noteq> Active then None
              else (case process wk current w of
                  None \<Rightarrow> None
                | Some (done, w) \<Rightarrow>
                    if done then
                      (case state w current of
                         None \<Rightarrow> None
                       | Some s \<Rightarrow> unblock_dependents enum current (put_state current (s\<lparr>kind := Resolved\<rparr>) w))
                    else Some w)))"

partial_function (option) run ::
  "('n list \<Rightarrow> 'n list) \<Rightarrow> ('n, 'x, 'w) work \<Rightarrow> ('n, 'x, 'w) worker \<Rightarrow> ('n, 'x, 'w) worker option" where
  "run enum wk w =
     (if worklist w = [] then Some w
      else Option.bind (run_step enum wk w) (\<lambda>w. run enum wk w))"

subsection \<open>The invariant\<close>

text \<open>The nodes that will signal \<open>d\<close> when they resolve.\<close>

definition waits :: "('n, 'x, 'w) worker \<Rightarrow> 'n \<Rightarrow> 'n set" where
  "waits w d = {o'. \<exists>s. states w o' = Some s \<and> d \<in> set (dependents s)}"

definition node_ok :: "('n, 'x, 'w) worker \<Rightarrow> 'n \<Rightarrow> ('n, 'x) node_state \<Rightarrow> bool" where
  "node_ok w n s \<longleftrightarrow> kind s \<noteq> Uninitialized \<and> distinct (dependents s) \<and> set (dependents s) \<subseteq> dom (states w) \<and>
     (kind s = Resolved \<longrightarrow> dependents s = []) \<and>
     (kind s = Active \<longrightarrow> blocked_on_count s = 0) \<and>
     (kind s = Blocked \<longrightarrow> blocked_on_count s < card (waits w n))"

text \<open>Between two iterations \<open>cur\<close> is \<open>None\<close>; while a node is processed it is that node, which is
  not in the work list.\<close>

definition winv :: "'n set \<Rightarrow> 'n option \<Rightarrow> ('n, 'x, 'w) worker \<Rightarrow> bool" where
  "winv N cur w \<longleftrightarrow> finite N \<and> dom (states w) \<subseteq> N \<and> distinct (worklist w) \<and>
     set (worklist w) = {n. \<exists>s. states w n = Some s \<and> kind s = Active} - set_option cur \<and>
     (\<forall>n s. states w n = Some s \<longrightarrow> node_ok w n s) \<and>
     (\<forall>n. cur = Some n \<longrightarrow> (\<exists>s. states w n = Some s \<and> kind s \<noteq> Resolved))"

text \<open>A work may change the base members of a state only through the worker.\<close>

definition seed_ok :: "('n, 'x, 'w) work \<Rightarrow> bool" where
  "seed_ok wk \<longleftrightarrow> (\<forall>n k s. blocked_on_count (snd (seed wk n (k, s))) = blocked_on_count s \<and>
     dependents (snd (seed wk n (k, s))) = dependents s)"

text \<open>What \<open>process\<close> may do to the worker while it processes \<open>cur\<close>: add nodes, block the node it
  was given on other nodes, and change what the work keeps for itself. That \<open>block_on_all\<close> receives no origin
  twice is a condition which the header does not document; the properties that rest on it say so.\<close>

inductive worker_steps :: "('n, 'x, 'w) work \<Rightarrow> 'n set \<Rightarrow> 'n \<Rightarrow> ('n, 'x, 'w) worker \<Rightarrow> ('n, 'x, 'w) worker \<Rightarrow> bool"
  for wk :: "('n, 'x, 'w) work" and N :: "'n set" and cur :: 'n where
  begin_process: "worker_steps wk N cur w w"
| adds: "worker_steps wk N cur w w1 \<Longrightarrow> n \<in> N \<Longrightarrow> worker_steps wk N cur w (add wk n w1)"
| blocks_on: "worker_steps wk N cur w w1 \<Longrightarrow> n \<in> N \<Longrightarrow> block_on wk cur n w1 = Some (b, w2) \<Longrightarrow> worker_steps wk N cur w w2"
| blocks_on_all: "worker_steps wk N cur w w1 \<Longrightarrow> set ns \<subseteq> N \<Longrightarrow> distinct ns \<Longrightarrow> block_on_all wk cur ns w1 = Some (b, w2) \<Longrightarrow>
    worker_steps wk N cur w w2"
| blocks_on_any: "worker_steps wk N cur w w1 \<Longrightarrow> set ns \<subseteq> N \<Longrightarrow> block_on_any wk cur ns w1 = Some (b, w2) \<Longrightarrow>
    worker_steps wk N cur w w2"
| changes: "worker_steps wk N cur w w1 \<Longrightarrow> states w1 n = Some s \<Longrightarrow>
    worker_steps wk N cur w (put_state n (s\<lparr>derived := x\<rparr>) w1)"
| changes_own: "worker_steps wk N cur w w1 \<Longrightarrow> worker_steps wk N cur w (w1\<lparr>work_obj := k\<rparr>)"

lemma states_put [simp]: "states (put_state n s w) = (states w)(n \<mapsto> s)"
  and worklist_put [simp]: "worklist (put_state n s w) = worklist w"
  by (simp_all add: put_state_def)

lemma winvD:
  assumes "winv N cur w"
  shows "finite N" "dom (states w) \<subseteq> N" "distinct (worklist w)" "finite (dom (states w))"
    "set (worklist w) = {n. \<exists>s. states w n = Some s \<and> kind s = Active} - set_option cur"
    "states w n = Some s \<Longrightarrow> node_ok w n s"
  using assms by (auto simp: winv_def dest: finite_subset)

lemma finite_waits: "winv N cur w \<Longrightarrow> finite (waits w d)"
  by (rule finite_subset [OF _ winvD(4)]) (auto simp: waits_def)

text \<open>Changing a node's state in what no other node sees.\<close>

lemma waits_put_same:
  assumes "states w n = Some s0" "dependents s = dependents s0"
  shows "waits (put_state n s w) d = waits w d"
  using assms by (auto simp: waits_def)

lemma node_ok_put_same:
  assumes "states w n = Some s0" "dependents s = dependents s0"
  shows "node_ok (put_state n s w) m t \<longleftrightarrow> node_ok w m t"
  using assms by (auto simp: node_ok_def waits_put_same [OF assms] insert_absorb domI)

lemma winv_put:
  assumes "winv N (Some cur) w" "states w n = Some s0" "dependents s = dependents s0" "kind s = kind s0"
    and "node_ok w n s"
  shows "winv N (Some cur) (put_state n s w)"
  using assms unfolding winv_def
  by (auto simp: node_ok_put_same [OF assms(2,3)] domI split: if_splits)

lemma waits_fresh: "states w n = None \<Longrightarrow> dependents s = [] \<Longrightarrow> waits (put_state n s w) d = waits w d"
  by (auto simp: waits_def)

lemma waits_unfold: "waits (w\<lparr>worklist := l\<rparr>) d = waits w d" "waits (w\<lparr>work_obj := k\<rparr>) d = waits w d"
  by (simp_all add: waits_def)

lemma node_ok_unfold: "node_ok (w\<lparr>worklist := l\<rparr>) n s = node_ok w n s" "node_ok (w\<lparr>work_obj := k\<rparr>) n s = node_ok w n s"
  by (simp_all add: node_ok_def waits_unfold)

lemma winv_own: "winv N cur w \<Longrightarrow> winv N cur (w\<lparr>work_obj := k\<rparr>)"
  by (simp add: winv_def node_ok_unfold)

subsection \<open>What the operations do\<close>

definition blocked :: "('n, 'x, 'w) worker \<Rightarrow> 'n \<Rightarrow> bool" where
  "blocked w n \<longleftrightarrow> (\<exists>s. states w n = Some s \<and> kind s = Blocked)"

text \<open>The part of the worker that only \<open>add\<close> changes: which nodes are resolved stays as it is, and
  the work list grows by the nodes that are new.\<close>

definition worker_grows :: "('n, 'x, 'w) worker \<Rightarrow> ('n, 'x, 'w) worker \<Rightarrow> bool" where
  "worker_grows w w' \<longleftrightarrow> dom (states w) \<subseteq> dom (states w') \<and>
     (\<forall>n. is_resolved w' n = is_resolved w n) \<and>
     (dom (states w') = dom (states w) \<longrightarrow> worklist w' = worklist w) \<and>
     (\<forall>d. waits w d \<subseteq> waits w' d \<and> (blocked w d \<longrightarrow> blocked w' d))"

lemma worker_grows_refl [simp]: "worker_grows w w"
  by (simp add: worker_grows_def)

lemma worker_grows_trans: "worker_grows w w1 \<Longrightarrow> worker_grows w1 w2 \<Longrightarrow> worker_grows w w2"
  unfolding worker_grows_def by (intro conjI allI impI) (auto, blast+)

lemma add_known:
  assumes "winv N cur w" "states w n = Some s"
  shows "add wk n w = w"
  using winvD(6) [OF assms] assms(2) by (simp add: add_def node_ok_def put_state_def fun_upd_idem)

lemma add_new:
  assumes "seed_ok wk" "states w n = None"
  shows "\<exists>k x. add wk n w = (put_state n \<lparr>kind = Active, blocked_on_count = 0, dependents = [], derived = x\<rparr> w)
    \<lparr>work_obj := k, worklist := worklist w @ [n]\<rparr>"
proof -
  obtain k s where s: "seed wk n (work_obj w, fresh_state wk) = (k, s)" by (cases "seed wk n (work_obj w, fresh_state wk)")
  have "blocked_on_count s = 0" "dependents s = []"
    using assms(1) s unfolding seed_ok_def by (metis fresh_state_def node_state.select_convs(2,3) snd_conv)+
  then have e: "s\<lparr>kind := Active\<rparr> = \<lparr>kind = Active, blocked_on_count = 0, dependents = [], derived = derived s\<rparr>" by simp
  show ?thesis
    by (rule exI [of _ k], rule exI [of _ "derived s"])
      (use assms(2) s in \<open>simp add: add_def fresh_state_def put_state_def e [symmetric]\<close>)
qed

lemma add_grows:
  assumes "winv N cur w" "seed_ok wk"
  shows "worker_grows w (add wk n w)"
proof (cases "states w n")
  case None
  from add_new [OF assms(2) None] obtain k x where
    "add wk n w = (put_state n \<lparr>kind = Active, blocked_on_count = 0, dependents = [], derived = x\<rparr> w)
      \<lparr>work_obj := k, worklist := worklist w @ [n]\<rparr>" by blast
  then show ?thesis using None
    by (auto simp: worker_grows_def is_resolved_def blocked_def waits_unfold waits_fresh dest: sym)
qed (simp add: add_known [OF assms(1)])

lemma add_winv:
  assumes "winv N cur w" "seed_ok wk" "n \<in> N"
  shows "winv N cur (add wk n w) \<and> (\<exists>s. states (add wk n w) n = Some s)"
proof (cases "states w n")
  case None
  from add_new [OF assms(2) None] obtain k x where
    e: "add wk n w = (put_state n \<lparr>kind = Active, blocked_on_count = 0, dependents = [], derived = x\<rparr> w)
      \<lparr>work_obj := k, worklist := worklist w @ [n]\<rparr>" by blast
  let ?s = "\<lparr>kind = Active, blocked_on_count = 0, dependents = [], derived = x\<rparr>"
  have ok: "node_ok (put_state n ?s w) m t" if "node_ok w m t" for m t
    using that None by (auto simp: node_ok_def waits_fresh)
  have cur: "n \<notin> set_option cur" using assms(1) None by (auto simp: winv_def)
  have l: "set (worklist w) = {m. \<exists>s. states w m = Some s \<and> kind s = Active} - set_option cur" by (rule winvD(5) [OF assms(1)])
  have "n \<notin> set (worklist w)" unfolding l using None by simp
  then have "distinct (worklist w @ [n])" using winvD(3) [OF assms(1)] by simp
  moreover have "set (worklist w @ [n]) = {m. \<exists>s. states (put_state n ?s w) m = Some s \<and> kind s = Active} - set_option cur"
    using l cur None by auto
  moreover have "node_ok (put_state n ?s w) m t" if "states (put_state n ?s w) m = Some t" for m t
    using that ok winvD(6) [OF assms(1), of m t] by (auto simp: node_ok_def split: if_splits)
  moreover have "\<exists>s. states (put_state n ?s w) m = Some s \<and> kind s \<noteq> Resolved" if "cur = Some m" for m
    using assms(1) cur that by (auto simp: winv_def)
  ultimately show ?thesis using winvD(1,2) [OF assms(1)] assms(3) unfolding e winv_def by (simp add: node_ok_unfold)
qed (use assms(1) add_known [OF assms(1)] in simp)

lemma block_on_spec:
  assumes "winv N (Some cur) w" "seed_ok wk" "n \<in> N"
  shows "\<exists>b w'. block_on wk cur n w = Some (b, w') \<and> winv N (Some cur) w' \<and> worker_grows w w' \<and>
    (b \<longrightarrow> n \<in> waits w' cur \<and> blocked w' cur)"
proof -
  define w1 where "w1 = add wk n w"
  have inv: "winv N (Some cur) w1" and "\<exists>s. states w1 n = Some s"
    using add_winv [OF assms] by (simp_all add: w1_def)
  then obtain so where so: "states w1 n = Some so" by blast
  have g: "worker_grows w w1" unfolding w1_def by (rule add_grows [OF assms(1,2)])
  show ?thesis
  proof (cases "is_resolved w1 n")
    case True
    then have "block_on wk cur n w = Some (False, w1)" by (simp add: block_on_def w1_def [symmetric])
    then show ?thesis using inv g by blast
  next
    case False
    define w2 where "w2 = put_state n (so\<lparr>dependents := List.insert cur (dependents so)\<rparr>) w1"
    obtain sc where sc: "states w1 cur = Some sc" "kind sc \<noteq> Resolved" using inv by (auto simp: winv_def)
    obtain sd where sd: "states w2 cur = Some sd" "kind sd = kind sc" "blocked_on_count sd = blocked_on_count sc"
        "dependents sd = (if cur = n then List.insert cur (dependents so) else dependents sc)"
      using sc so by (cases "cur = n") (auto simp: w2_def)
    define w3 where "w3 = put_state cur (sd\<lparr>kind := Blocked\<rparr>) w2"
    have nr: "kind so \<noteq> Resolved" using False so by (simp add: is_resolved_def)
    have wt: "waits w3 d = (if d = cur then insert n (waits w1 d) else waits w1 d)" for d
      using so sc sd by (auto simp: waits_def w3_def w2_def split: if_splits)
    have dm: "dom (states w3) = dom (states w1)" using so sc sd by (auto simp: w3_def w2_def)
    have wl: "worklist w3 = worklist w1" by (simp add: w3_def w2_def)
    have st: "states w3 m = (if m = cur then Some (sd\<lparr>kind := Blocked\<rparr>)
        else if m = n then Some (so\<lparr>dependents := List.insert cur (dependents so)\<rparr>) else states w1 m)" for m
      by (simp add: w3_def w2_def)
    have okn: "node_ok w1 n so" and okc: "node_ok w1 cur sc" using winvD(6) [OF inv] so sc by blast+
    have curdom: "cur \<in> dom (states w1)" using sc by blast
    have fin: "finite (waits w1 cur)" by (rule finite_waits [OF inv])
    have "node_ok w3 m t" if "states w3 m = Some t" for m t
    proof (cases "m = cur")
      case True
      have "blocked_on_count sc < card (insert n (waits w1 cur))"
      proof (cases "kind sc = Active")
        case True
        then show ?thesis using okc fin by (simp add: node_ok_def card_gt_0_iff)
      next
        case False
        then have "kind sc = Blocked" using okc sc(2) by (cases "kind sc") (auto simp: node_ok_def)
        then have "blocked_on_count sc < card (waits w1 cur)" using okc by (simp add: node_ok_def)
        also have "\<dots> \<le> card (insert n (waits w1 cur))" using fin by (intro card_mono) auto
        finally show ?thesis .
      qed
      moreover have "t = sd\<lparr>kind := Blocked\<rparr>" using that True by (simp add: st)
      moreover have "distinct (dependents sd) \<and> set (dependents sd) \<subseteq> dom (states w1)"
        using okn okc curdom unfolding sd(4) by (auto simp: node_ok_def)
      ultimately show ?thesis using True sd(3) by (simp add: node_ok_def wt dm)
    next
      case False
      show ?thesis
      proof (cases "m = n")
        case True
        then have "t = so\<lparr>dependents := List.insert cur (dependents so)\<rparr>" using that False by (simp add: st)
        then show ?thesis using okn curdom nr False True by (simp add: node_ok_def wt dm)
      next
        case False
        then have "states w1 m = Some t" using that \<open>m \<noteq> cur\<close> by (simp add: st)
        from winvD(6) [OF inv this] show ?thesis using \<open>m \<noteq> cur\<close> by (simp add: node_ok_def wt dm)
      qed
    qed
    moreover have "set (worklist w3) = {m. \<exists>s. states w3 m = Some s \<and> kind s = Active} - {cur}"
      using winvD(5) [OF inv] so by (auto simp: wl st split: if_splits)
    ultimately have i3: "winv N (Some cur) w3"
      using winvD(1,2,3) [OF inv] by (simp add: winv_def dm wl st)
    have r3: "is_resolved w3 m = is_resolved w1 m" for m
      using so sc nr by (auto simp: is_resolved_def st)
    have g3: "worker_grows w1 w3" using sc so by (auto simp: worker_grows_def dm wl wt r3 blocked_def st split: if_splits)
    have "block_on wk cur n w = Some (True, w3)"
      using False so sd(1) by (simp add: block_on_def Let_def w1_def [symmetric] state_def w2_def [symmetric] w3_def)
    moreover have "n \<in> waits w3 cur \<and> blocked w3 cur" by (simp add: wt blocked_def st)
    ultimately show ?thesis using i3 worker_grows_trans [OF g g3] by blast
  qed
qed

lemma block_each_spec:
  assumes "winv N (Some cur) w" "seed_ok wk" "set ns \<subseteq> N" "distinct ns \<or> \<not> strict"
  shows "\<exists>c w'. block_each wk cur ns k w = Some (c, w') \<and> winv N (Some cur) w' \<and> worker_grows w w' \<and> k \<le> c \<and>
    (k < c \<longrightarrow> blocked w' cur) \<and> (strict \<longrightarrow> (\<exists>S. S \<subseteq> waits w' cur \<and> S \<subseteq> set ns \<and> card S = c - k))"
  using assms(1,3,4)
proof (induction ns arbitrary: w k)
  case Nil
  then show ?case by auto
next
  case (Cons n ns)
  have "n \<in> N" using Cons.prems(2) by simp
  from block_on_spec [OF Cons.prems(1) assms(2) this] obtain b w1 where
    b: "block_on wk cur n w = Some (b, w1)" "winv N (Some cur) w1" "worker_grows w w1"
      "b \<longrightarrow> n \<in> waits w1 cur \<and> blocked w1 cur" by blast
  let ?k = "if b then k + 1 else k"
  have "set ns \<subseteq> N" "distinct ns \<or> \<not> strict" using Cons.prems by auto
  from Cons.IH [OF b(2) this, of ?k] obtain c w' where
    c: "block_each wk cur ns ?k w1 = Some (c, w')" "winv N (Some cur) w'" "worker_grows w1 w'" "?k \<le> c"
      "?k < c \<longrightarrow> blocked w' cur" "strict \<longrightarrow> (\<exists>S. S \<subseteq> waits w' cur \<and> S \<subseteq> set ns \<and> card S = c - ?k)" by blast
  have "blocked w' cur" if "k < c" using that b(4) c(3,5) by (auto simp: worker_grows_def split: if_splits)
  moreover have "\<exists>S. S \<subseteq> waits w' cur \<and> S \<subseteq> set (n # ns) \<and> card S = c - k" if "strict"
  proof -
    from c(6) that obtain S where S: "S \<subseteq> waits w' cur" "S \<subseteq> set ns" "card S = c - ?k" by blast
    show ?thesis
    proof (cases b)
      case True
      have "n \<notin> S" "finite S" using S(2) Cons.prems(3) that by (auto intro: finite_subset)
      then have "card (insert n S) = c - k" using S(3) c(4) True by simp
      moreover have "n \<in> waits w' cur" using b(4) True c(3) by (auto simp: worker_grows_def)
      ultimately show ?thesis using S by (intro exI [of _ "insert n S"]) auto
    qed (use S in \<open>auto intro!: exI [of _ S]\<close>)
  qed
  moreover have "k \<le> c" using c(4) by (simp split: if_splits)
  ultimately show ?case using b c worker_grows_trans [OF b(3) c(3)] by simp
qed

lemma worker_grows_put:
  assumes "states w n = Some s0" "dependents s = dependents s0" "kind s = kind s0"
  shows "worker_grows w (put_state n s w)"
  using assms by (auto simp: worker_grows_def is_resolved_def blocked_def waits_put_same [OF assms(1,2)] domI)

lemma block_on_all_spec:
  assumes "winv N (Some cur) w" "seed_ok wk" "set ns \<subseteq> N" "distinct ns"
  shows "\<exists>b w'. block_on_all wk cur ns w = Some (b, w') \<and> winv N (Some cur) w' \<and> worker_grows w w' \<and> (b \<longrightarrow> blocked w' cur)"
proof -
  from block_each_spec [OF assms(1-3), of True 0] assms(4) obtain c w1 S where
    c: "block_each wk cur ns 0 w = Some (c, w1)" "winv N (Some cur) w1" "worker_grows w w1"
      "0 < c \<longrightarrow> blocked w1 cur" "S \<subseteq> waits w1 cur" "card S = c" by auto
  show ?thesis
  proof (cases "c = 0")
    case False
    then obtain s where s: "states w1 cur = Some s" "kind s = Blocked" using c(4) by (auto simp: blocked_def)
    let ?m = "if blocked_on_count s = 0 then c - 1 else min (blocked_on_count s) (c - 1)"
    let ?s = "s\<lparr>blocked_on_count := ?m\<rparr>"
    have "card S \<le> card (waits w1 cur)" by (rule card_mono [OF finite_waits [OF c(2)] c(5)])
    then have "?m < card (waits w1 cur)" using False c(6) by auto
    then have ok: "node_ok w1 cur ?s" using winvD(6) [OF c(2) s(1)] s(2) by (auto simp: node_ok_def)
    have "winv N (Some cur) (put_state cur ?s w1)" by (rule winv_put [OF c(2) s(1) _ _ ok]) simp_all
    moreover have "worker_grows w (put_state cur ?s w1)" by (rule worker_grows_trans [OF c(3) worker_grows_put [OF s(1)]]) simp_all
    moreover have "blocked (put_state cur ?s w1) cur" using s(2) by (simp add: blocked_def)
    moreover have "block_on_all wk cur ns w = Some (True, put_state cur ?s w1)"
      using c(1) s(1) False by (simp add: block_on_all_def state_def)
    ultimately show ?thesis by blast
  next
    case True
    then have "block_on_all wk cur ns w = Some (False, w1)" using c(1) by (simp add: block_on_all_def)
    then show ?thesis using c(2,3) by blast
  qed
qed

lemma block_on_any_spec:
  assumes "winv N (Some cur) w" "seed_ok wk" "set ns \<subseteq> N"
  shows "\<exists>b w'. block_on_any wk cur ns w = Some (b, w') \<and> winv N (Some cur) w' \<and> worker_grows w w' \<and> (b \<longrightarrow> blocked w' cur)"
proof -
  from block_each_spec [OF assms, of False 0] obtain c w1 where
    c: "block_each wk cur ns 0 w = Some (c, w1)" "winv N (Some cur) w1" "worker_grows w w1" "0 < c \<longrightarrow> blocked w1 cur" by auto
  from c(2) obtain s where s: "states w1 cur = Some s" by (auto simp: winv_def)
  let ?s = "s\<lparr>blocked_on_count := 0\<rparr>"
  have "node_ok w1 cur ?s" using winvD(6) [OF c(2) s] by (auto simp: node_ok_def)
  then have "winv N (Some cur) (put_state cur ?s w1)" by (intro winv_put [OF c(2) s]) simp_all
  moreover have "worker_grows w (put_state cur ?s w1)" by (rule worker_grows_trans [OF c(3) worker_grows_put [OF s]]) simp_all
  moreover have "0 < c \<longrightarrow> blocked (put_state cur ?s w1) cur" using c(4) s by (simp add: blocked_def)
  moreover have "block_on_any wk cur ns w = Some (c \<noteq> 0, put_state cur ?s w1)"
    using c(1) s by (simp add: block_on_any_def state_def)
  ultimately show ?thesis by simp
qed

lemma worker_steps_spec:
  assumes "worker_steps wk N cur w w'" "winv N (Some cur) w" "seed_ok wk"
  shows "winv N (Some cur) w' \<and> worker_grows w w'"
  using assms
proof (induction rule: worker_steps.induct)
  case (adds w w1 n)
  then show ?case using add_winv [of N "Some cur" w1 wk n] add_grows [of N "Some cur" w1 wk n] worker_grows_trans by blast
next
  case (blocks_on w w1 n b w2)
  with block_on_spec [of N cur w1 wk n] show ?case using worker_grows_trans by fastforce
next
  case (blocks_on_all w w1 ns b w2)
  with block_on_all_spec [of N cur w1 wk ns] show ?case using worker_grows_trans by fastforce
next
  case (blocks_on_any w w1 ns b w2)
  with block_on_any_spec [of N cur w1 wk ns] show ?case using worker_grows_trans by fastforce
next
  case (changes w w1 n s x)
  then have i: "winv N (Some cur) w1" and g: "worker_grows w w1" by auto
  from winvD(6) [OF i changes.hyps(2)] have "node_ok w1 n (s\<lparr>derived := x\<rparr>)" by (simp add: node_ok_def)
  with i changes.hyps(2) have "winv N (Some cur) (put_state n (s\<lparr>derived := x\<rparr>) w1)" by (intro winv_put) simp_all
  moreover have "worker_grows w1 (put_state n (s\<lparr>derived := x\<rparr>) w1)" by (rule worker_grows_put [OF changes.hyps(2)]) simp_all
  ultimately show ?case using worker_grows_trans [OF g] by blast
next
  case (changes_own w w1 k)
  then have "worker_grows w1 (w1\<lparr>work_obj := k\<rparr>)" by (simp add: worker_grows_def is_resolved_def blocked_def waits_unfold)
  moreover have "winv N (Some cur) (w1\<lparr>work_obj := k\<rparr>)" using changes_own by (intro winv_own) simp
  moreover have "worker_grows w w1" using changes_own by simp
  ultimately show ?case using worker_grows_trans by blast
qed simp

subsection \<open>Waking the dependents\<close>

definition wake :: "('n, 'x) node_state \<Rightarrow> ('n, 'x) node_state" where
  "wake s = (if kind s \<noteq> Blocked then s
     else if 0 < blocked_on_count s then s\<lparr>blocked_on_count := blocked_on_count s - 1\<rparr>
     else s\<lparr>kind := Active\<rparr>)"

definition wakes_up :: "('n, 'x, 'w) worker \<Rightarrow> 'n \<Rightarrow> bool" where
  "wakes_up w d \<longleftrightarrow> (\<exists>s. states w d = Some s \<and> kind s = Blocked \<and> blocked_on_count s = 0)"

lemma wake_dependents [simp]: "dependents (wake s) = dependents s"
  by (simp add: wake_def)

lemma wake_all_spec:
  assumes "distinct ds" "set ds \<subseteq> dom (states w)"
  shows "wake_all ds w = Some (w\<lparr>states := (\<lambda>n. if n \<in> set ds then map_option wake (states w n) else states w n),
    worklist := worklist w @ filter (wakes_up w) ds\<rparr>)"
  using assms
proof (induction ds arbitrary: w)
  case (Cons d ds)
  then obtain s where s: "states w d = Some s" by auto
  let ?w = "(put_state d (wake s) w)\<lparr>worklist := worklist w @ filter (wakes_up w) [d]\<rparr>"
  have "wake_all (d # ds) w = wake_all ds ?w"
    using s by (auto simp: state_def wake_def wakes_up_def put_state_def fun_upd_idem)
  also have "\<dots> = Some (?w\<lparr>states := (\<lambda>n. if n \<in> set ds then map_option wake (states ?w n) else states ?w n),
      worklist := worklist ?w @ filter (wakes_up ?w) ds\<rparr>)"
    using Cons.prems by (intro Cons.IH) auto
  also have "filter (wakes_up ?w) ds = filter (wakes_up w) ds"
    using Cons.prems(1) by (intro filter_cong refl) (auto simp: wakes_up_def)
  finally show ?case using s Cons.prems(1) by (auto simp: put_state_def fun_eq_iff)
qed simp

definition enum_ok :: "('n list \<Rightarrow> 'n list) \<Rightarrow> bool" where
  "enum_ok enum \<longleftrightarrow> (\<forall>xs. distinct xs \<longrightarrow> distinct (enum xs) \<and> set (enum xs) = set xs)"

lemma waits_dependents: "n \<in> waits w d \<longleftrightarrow> (\<exists>l. map_option dependents (states w n) = Some l \<and> d \<in> set l)"
  by (auto simp: waits_def)

text \<open>The current node resolves: its dependents are signalled and forgotten.\<close>

lemma resolve_spec:
  assumes inv: "winv N (Some cur) w" and enum: "enum_ok enum" and sc: "states w cur = Some sc"
  shows "\<exists>w'. unblock_dependents enum cur (put_state cur (sc\<lparr>kind := Resolved\<rparr>) w) = Some w' \<and> winv N None w' \<and>
    dom (states w') = dom (states w) \<and> (\<forall>n. is_resolved w' n \<longleftrightarrow> is_resolved w n \<or> n = cur)"
proof -
  define w1 where "w1 = put_state cur (sc\<lparr>kind := Resolved\<rparr>) w"
  define ds where "ds = enum (dependents sc)"
  define st where "st = (\<lambda>n. if n = cur then Some (sc\<lparr>kind := Resolved, dependents := []\<rparr>)
    else if n \<in> set ds then map_option wake (states w n) else states w n)"
  define w' where "w' = w\<lparr>states := st, worklist := worklist w @ filter (wakes_up w1) ds\<rparr>"
  have okc: "node_ok w cur sc" by (rule winvD(6) [OF inv sc])
  then have ds: "distinct ds" "set ds = set (dependents sc)" "set ds \<subseteq> dom (states w)"
    using enum by (auto simp: ds_def enum_ok_def node_ok_def)
  have dom1: "dom (states w1) = dom (states w)" using sc by (auto simp: w1_def)
  have "unblock_dependents enum cur w1 = Some w'"
  proof (cases "dependents sc = []")
    case True
    then have "ds = []" using ds(2) by simp
    then have "w' = w1" using True by (simp add: w'_def w1_def st_def put_state_def fun_eq_iff)
    then show ?thesis using True by (simp add: unblock_dependents_def state_def w1_def)
  next
    case False
    from wake_all_spec [OF ds(1), of w1] ds(3) dom1
    have wa: "wake_all ds w1 = Some (w1\<lparr>states := (\<lambda>n. if n \<in> set ds then map_option wake (states w1 n) else states w1 n),
        worklist := worklist w1 @ filter (wakes_up w1) ds\<rparr>)" by simp
    have "wake (sc\<lparr>kind := Resolved\<rparr>) = sc\<lparr>kind := Resolved\<rparr>" by (simp add: wake_def)
    then show ?thesis using False wa
      by (auto simp: unblock_dependents_def state_def w1_def ds_def [symmetric] w'_def st_def put_state_def fun_eq_iff)
  qed
  moreover have domst: "dom st = dom (states w)" using sc ds(3) by (auto simp: st_def split: if_splits)
  moreover have "is_resolved w' n \<longleftrightarrow> is_resolved w n \<or> n = cur" for n
    by (cases "states w n") (auto simp: is_resolved_def w'_def st_def wake_def)
  moreover have "winv N None w'"
  proof -
    have dep: "map_option dependents (states w' n) = (if n = cur then Some [] else map_option dependents (states w n))" for n
      by (cases "states w n") (simp_all add: w'_def st_def)
    have wt: "waits w' d = waits w d - (if d \<in> set ds then {cur} else {})" for d
    proof (rule set_eqI)
      fix n show "n \<in> waits w' d \<longleftrightarrow> n \<in> waits w d - (if d \<in> set ds then {cur} else {})"
        using sc ds(2) by (cases "n = cur") (simp_all add: waits_dependents dep)
    qed
    have ok: "node_ok w' n t" if t: "states w' n = Some t" for n t
    proof (cases "n = cur")
      case True
      then have "t = sc\<lparr>kind := Resolved, dependents := []\<rparr>" using that by (simp add: w'_def st_def)
      then show ?thesis by (simp add: node_ok_def)
    next
      case False
      then obtain s where s: "states w n = Some s" "t = (if n \<in> set ds then wake s else s)"
        using t by (auto simp: w'_def st_def split: if_splits)
      have o1: "node_ok w n s" by (rule winvD(6) [OF inv s(1)])
      have c: "card (waits w' n) = card (waits w n) - 1" if "n \<in> set ds"
        using that sc ds(2) finite_waits [OF inv] by (subst wt) (auto simp: waits_def card_Diff_singleton_if)
      have c': "waits w' n = waits w n" if "n \<notin> set ds" using that by (subst wt) simp
      have d: "dom (states w') = dom (states w)" using domst by (simp add: w'_def)
      show ?thesis
      proof (cases "n \<in> set ds")
        case True
        then show ?thesis using o1 s(2) c d by (auto simp: node_ok_def wake_def)
      next
        case False
        then show ?thesis using o1 s(2) c' d by (simp add: node_ok_def)
      qed
    qed
    have ne: "wakes_up w1 d \<longleftrightarrow> d \<noteq> cur \<and> (\<exists>s. states w d = Some s \<and> kind s = Blocked \<and> blocked_on_count s = 0)" for d
      by (auto simp: wakes_up_def w1_def)
    have l: "set (worklist w) = {n. \<exists>s. states w n = Some s \<and> kind s = Active} - {cur}" using winvD(5) [OF inv] by simp
    have disj: "set (worklist w) \<inter> set (filter (wakes_up w1) ds) = {}" unfolding l by (auto simp: ne)
    have act: "set (worklist w) \<union> set (filter (wakes_up w1) ds) = {n. \<exists>s. states w' n = Some s \<and> kind s = Active}"
    proof -
      have "(\<exists>s. states w' n = Some s \<and> kind s = Active) \<longleftrightarrow> n \<noteq> cur \<and>
          ((\<exists>s. states w n = Some s \<and> kind s = Active) \<or> n \<in> set ds \<and> wakes_up w1 n)" for n
        by (cases "states w n") (auto simp: ne w'_def st_def wake_def)
      then show ?thesis unfolding l by (auto simp: ne)
    qed
    have wl: "worklist w' = worklist w @ filter (wakes_up w1) ds" by (simp add: w'_def)
    have dm: "dom (states w') = dom (states w)" using domst by (simp add: w'_def)
    show ?thesis unfolding winv_def
      using winvD(1,2,3) [OF inv] ds(1) disj act ok by (simp add: wl dm)
  qed
  ultimately show ?thesis by (auto simp: w1_def w'_def)
qed

subsection \<open>The loop\<close>

text \<open>A work that keeps to the usage the header describes: \<open>process\<close> acts through the worker on the
  nodes \<open>N\<close>, and a node that it does not resolve it has blocked.\<close>

definition work_ok :: "'n set \<Rightarrow> ('n, 'x, 'w) work \<Rightarrow> bool" where
  "work_ok N wk \<longleftrightarrow> seed_ok wk \<and>
     (\<forall>cur w s. winv N (Some cur) w \<and> states w cur = Some s \<and> kind s = Active \<longrightarrow>
        (\<exists>done w'. process wk cur w = Some (done, w') \<and> worker_steps wk N cur w w' \<and> (\<not> done \<longrightarrow> blocked w' cur)))"

definition unresolved :: "'n set \<Rightarrow> ('n, 'x, 'w) worker \<Rightarrow> nat" where
  "unresolved N w = card {n \<in> N. \<not> is_resolved w n}"

definition run_rel :: "'n set \<Rightarrow> (('n, 'x, 'w) worker \<times> ('n, 'x, 'w) worker) set" where
  "run_rel N = measures [unresolved N, \<lambda>w. card (N - dom (states w)), \<lambda>w. length (worklist w)]"

lemma run_step_spec:
  assumes inv: "winv N None w" and ne: "worklist w \<noteq> []" and wk: "work_ok N wk" and enum: "enum_ok enum"
  shows "\<exists>w'. run_step enum wk w = Some w' \<and> winv N None w' \<and> (w', w) \<in> run_rel N \<and> dom (states w) \<subseteq> dom (states w')"
proof -
  obtain cur rest where wl: "worklist w = cur # rest" using ne by (cases "worklist w") auto
  define w0 where "w0 = w\<lparr>worklist := rest\<rparr>"
  have set: "set (worklist w) = {n. \<exists>s. states w n = Some s \<and> kind s = Active}" using winvD(5) [OF inv] by simp
  then have "cur \<in> {n. \<exists>s. states w n = Some s \<and> kind s = Active}" using wl by auto
  then obtain s where s: "states w cur = Some s" "kind s = Active" by blast
  have "distinct (cur # rest)" "set (cur # rest) = {n. \<exists>s. states w n = Some s \<and> kind s = Active}"
    using winvD(3) [OF inv] set wl by simp_all
  then have inv0: "winv N (Some cur) w0"
    using inv s wl by (auto simp: winv_def w0_def node_ok_unfold)
  have s0: "states w0 cur = Some s" using s by (simp add: w0_def)
  from wk inv0 s0 s(2) obtain b w1 where p: "process wk cur w0 = Some (b, w1)" "worker_steps wk N cur w0 w1"
    "\<not> b \<longrightarrow> blocked w1 cur" unfolding work_ok_def by blast
  from worker_steps_spec [OF p(2) inv0] wk have inv1: "winv N (Some cur) w1" and g: "worker_grows w0 w1" by (simp_all add: work_ok_def)
  have r: "is_resolved w1 n = is_resolved w n" for n using g by (simp add: worker_grows_def) (simp add: is_resolved_def w0_def)
  have d: "dom (states w) \<subseteq> dom (states w1)" using g by (simp add: worker_grows_def w0_def)
  have fin: "finite N" by (rule winvD(1) [OF inv])
  have curN: "cur \<in> N" "\<not> is_resolved w cur" using winvD(2) [OF inv] s by (auto simp: is_resolved_def)
  show ?thesis
  proof (cases b)
    case True
    from inv1 obtain sc where sc: "states w1 cur = Some sc" by (auto simp: winv_def)
    from resolve_spec [OF inv1 enum sc] obtain w' where
      w': "unblock_dependents enum cur (put_state cur (sc\<lparr>kind := Resolved\<rparr>) w1) = Some w'" "winv N None w'"
        "dom (states w') = dom (states w1)" "\<forall>n. is_resolved w' n \<longleftrightarrow> is_resolved w1 n \<or> n = cur" by blast
    have e: "{n \<in> N. \<not> is_resolved w' n} = {n \<in> N. \<not> is_resolved w n} - {cur}"
      by (rule set_eqI) (simp only: w'(4) [rule_format] r mem_Collect_eq Diff_iff singleton_iff, blast)
    have "unresolved N w' < unresolved N w"
      unfolding unresolved_def e by (rule card_Diff1_less) (use fin curN in simp_all)
    then have "(w', w) \<in> run_rel N" by (simp add: run_rel_def)
    moreover have "run_step enum wk w = Some w'"
      using wl s0 s(2) p(1) sc w'(1) True by (simp add: run_step_def state_def w0_def)
    ultimately show ?thesis using w'(2,3) d by simp
  next
    case False
    have bl: "blocked w1 cur" using p(3) False by simp
    have "set (worklist w1) = {n. \<exists>s. states w1 n = Some s \<and> kind s = Active}"
    proof -
      have "cur \<notin> {n. \<exists>s. states w1 n = Some s \<and> kind s = Active}" using bl by (auto simp: blocked_def)
      then show ?thesis using winvD(5) [OF inv1] by simp
    qed
    then have "winv N None w1" using inv1 by (simp add: winv_def)
    moreover have "(w1, w) \<in> run_rel N"
    proof (cases "dom (states w1) = dom (states w)")
      case True
      then have "worklist w1 = rest" using g by (simp add: worker_grows_def w0_def)
      then show ?thesis using True wl r by (simp add: run_rel_def unresolved_def)
    next
      case False
      then have "N - dom (states w1) \<subset> N - dom (states w)" using d winvD(2) [OF inv1] by blast
      then have "card (N - dom (states w1)) < card (N - dom (states w))" using fin by (intro psubset_card_mono) simp_all
      then show ?thesis using r by (simp add: run_rel_def unresolved_def)
    qed
    moreover have "run_step enum wk w = Some w1"
      using wl s0 s(2) p(1) False by (simp add: run_step_def state_def w0_def)
    ultimately show ?thesis using d by blast
  qed
qed

lemma run_spec:
  assumes "winv N None w" "work_ok N wk" "enum_ok enum"
  shows "\<exists>w'. run enum wk w = Some w' \<and> winv N None w' \<and> worklist w' = [] \<and> dom (states w) \<subseteq> dom (states w')"
proof -
  have "wf (run_rel N :: (('a, 'b, 'c) worker \<times> ('a, 'b, 'c) worker) set)" by (simp add: run_rel_def)
  then show ?thesis using assms(1)
  proof (induction w rule: wf_induct_rule)
    case (less w)
    show ?case
    proof (cases "worklist w = []")
      case True
      then show ?thesis using less.prems by (subst run.simps) simp
    next
      case False
      from run_step_spec [OF less.prems False assms(2,3)] obtain w1 where
        w1: "run_step enum wk w = Some w1" "winv N None w1" "(w1, w) \<in> run_rel N" "dom (states w) \<subseteq> dom (states w1)" by blast
      from less.IH [OF w1(3,2)] obtain w' where
        "run enum wk w1 = Some w'" "winv N None w'" "worklist w' = []" "dom (states w1) \<subseteq> dom (states w')" by blast
      then show ?thesis using w1 False by (subst run.simps) (auto dest: subset_trans)
    qed
  qed
qed

text \<open>A worker to which the roots have been added.\<close>

definition started :: "('n, 'x, 'w) work \<Rightarrow> 'w \<Rightarrow> 'n list \<Rightarrow> ('n, 'x, 'w) worker" where
  "started wk k roots = foldl (\<lambda>w n. add wk n w) (make_worker k) roots"

lemma started_spec:
  assumes "work_ok N wk" "finite N" "set roots \<subseteq> N"
  shows "winv N None (started wk k roots) \<and> set roots \<subseteq> dom (states (started wk k roots))"
proof -
  have "winv N None (make_worker k :: ('a, 'b, 'c) worker)" using assms(2) by (simp add: winv_def make_worker_def)
  moreover have "winv N None w \<Longrightarrow> set roots \<subseteq> N \<Longrightarrow> winv N None (foldl (\<lambda>w n. add wk n w) w roots) \<and>
      set roots \<union> dom (states w) \<subseteq> dom (states (foldl (\<lambda>w n. add wk n w) w roots))" for w
  proof (induction roots arbitrary: w)
    case (Cons n roots)
    have so: "seed_ok wk" using assms(1) by (simp add: work_ok_def)
    have n: "n \<in> N" "set roots \<subseteq> N" using Cons.prems(2) by auto
    from add_winv [OF Cons.prems(1) so n(1)] have a: "winv N None (add wk n w)" "n \<in> dom (states (add wk n w))" by auto
    moreover have "dom (states w) \<subseteq> dom (states (add wk n w))" using add_grows [OF Cons.prems(1) so] by (simp add: worker_grows_def)
    ultimately show ?case using Cons.IH [OF a(1) n(2)] by (simp, blast)
  qed simp
  ultimately show ?thesis using assms(3) by (simp add: started_def)
qed

subsection \<open>The example of the header\<close>

text \<open>The work that the header's comment gives as its example: a node blocks on all its children
  once, and resolves when they have. Its \<open>State\<close> adds the flag \<open>children_added\<close>.\<close>

definition child_process :: "('n \<Rightarrow> 'n list) \<Rightarrow> ('n, bool, unit) work \<Rightarrow> 'n \<Rightarrow> ('n, bool, unit) worker \<Rightarrow>
    (bool \<times> ('n, bool, unit) worker) option" where
  "child_process children wk n w =
     (case state w n of
        None \<Rightarrow> None
      | Some s \<Rightarrow>
          if \<not> derived s \<and> children n \<noteq> [] then
            (case block_on_all wk n (children n) w of
               None \<Rightarrow> None
             | Some (b, w) \<Rightarrow>
                 if b then
                   (case state w n of
                      None \<Rightarrow> None
                    | Some s \<Rightarrow> Some (False, put_state n (s\<lparr>derived := True\<rparr>) w))
                 else Some (True, w))
          else Some (True, w))"

definition seed_only :: "('n, bool, unit) work" where
  "seed_only = \<lparr>init = False, seed = (\<lambda>n. id), process = (\<lambda>n w. None)\<rparr>"

definition child_work :: "('n \<Rightarrow> 'n list) \<Rightarrow> ('n, bool, unit) work" where
  "child_work children = seed_only\<lparr>process := child_process children seed_only\<rparr>"

lemma add_seed_only: "add (child_work children) = add seed_only"
  by (rule ext)+ (simp add: add_def child_work_def fresh_state_def cong: if_cong option.case_cong)

lemma block_on_seed_only: "block_on (child_work children) = block_on seed_only"
  by (rule ext)+ (simp add: block_on_def add_seed_only)

lemma block_each_seed_only: "block_each (child_work children) d ns k w = block_each seed_only d ns k w"
  by (induction ns arbitrary: k w) (simp_all add: block_on_seed_only split: option.split)

lemma block_on_all_seed_only: "block_on_all (child_work children) = block_on_all seed_only"
  by (rule ext)+ (simp add: block_on_all_def block_each_seed_only)

lemma child_work_ok:
  assumes "finite N" "\<And>n. n \<in> N \<Longrightarrow> set (children n) \<subseteq> N \<and> distinct (children n)"
  shows "work_ok N (child_work children)"
proof -
  let ?wk = "child_work children"
  have so: "seed_ok ?wk" by (simp add: seed_ok_def child_work_def seed_only_def)
  have c: "\<exists>b w'. process ?wk cur w = Some (b, w') \<and> worker_steps ?wk N cur w w' \<and> (\<not> b \<longrightarrow> blocked w' cur)"
    if inv: "winv N (Some cur) w" and s: "states w cur = Some s" "kind s = Active" for cur w s
  proof -
    have p: "process ?wk cur w = child_process children ?wk cur w"
      unfolding child_process_def block_on_all_seed_only by (simp add: child_work_def child_process_def)
    show ?thesis
    proof (cases "\<not> derived s \<and> children cur \<noteq> []")
      case True
      have "cur \<in> N" using winvD(2) [OF inv] s(1) by auto
      with assms(2) have c: "set (children cur) \<subseteq> N" "distinct (children cur)" by blast+
      from block_on_all_spec [OF inv so c] obtain b w1 where
        b: "block_on_all ?wk cur (children cur) w = Some (b, w1)" "b \<longrightarrow> blocked w1 cur" by blast
      have st: "worker_steps ?wk N cur w w1" by (rule worker_steps.blocks_on_all [OF worker_steps.begin_process c b(1)])
      show ?thesis
      proof (cases b)
        case True
        with b(2) obtain t where t: "states w1 cur = Some t" "kind t = Blocked" by (auto simp: blocked_def)
        have "process ?wk cur w = Some (False, put_state cur (t\<lparr>derived := True\<rparr>) w1)"
          using \<open>\<not> derived s \<and> children cur \<noteq> []\<close> True b(1) s(1) t(1) unfolding p by (simp add: child_process_def state_def)
        moreover have "worker_steps ?wk N cur w (put_state cur (t\<lparr>derived := True\<rparr>) w1)"
          by (rule worker_steps.changes [OF st t(1)])
        moreover have "blocked (put_state cur (t\<lparr>derived := True\<rparr>) w1) cur" using t(2) by (simp add: blocked_def)
        ultimately show ?thesis by blast
      next
        case False
        then have "process ?wk cur w = Some (True, w1)"
          using \<open>\<not> derived s \<and> children cur \<noteq> []\<close> b(1) s(1) unfolding p by (simp add: child_process_def state_def)
        with st show ?thesis by blast
      qed
    next
      case False
      then have "process ?wk cur w = Some (True, w)" using s(1) unfolding p by (auto simp: child_process_def state_def)
      then show ?thesis using worker_steps.begin_process [of ?wk N cur w] by (intro exI [of _ True] exI [of _ w]) simp
    qed
  qed
  show ?thesis unfolding work_ok_def
    by (rule conjI [OF so], intro allI impI) (elim conjE, rule c)
qed

subsection \<open>Properties\<close>

text \<open>C20: with a work that keeps to the described usage over finitely many nodes, and never names an
  origin twice in one \<open>block_on_all\<close>, \<open>run\<close> returns:
  no access to an unknown node, no failing assertion and no endless loop, in whichever order the
  sets of dependents are enumerated.\<close>

theorem worker_run_returns:
  assumes "work_ok N wk" "finite N" "set roots \<subseteq> N" "enum_ok enum"
  shows "\<exists>w. run enum wk (started wk k roots) = Some w \<and> worklist w = [] \<and> set roots \<subseteq> dom (states w)"
proof -
  from started_spec [OF assms(1-3)] have s: "winv N None (started wk k roots)" "set roots \<subseteq> dom (states (started wk k roots))" by auto
  from run_spec [OF s(1) assms(1,4)] s(2) show ?thesis by blast
qed

theorem worker_run_returns_witness:
  "\<exists>w. run rev (child_work (\<lambda>n :: nat. if n = 0 then [1, 2] else [])) (started (child_work (\<lambda>n. if n = 0 then [1, 2] else [])) () [0])
     = Some w \<and> worklist w = [] \<and> set [0] \<subseteq> dom (states w)"
  by (rule worker_run_returns [where N = "{0, 1, 2}"], rule child_work_ok) (auto simp: enum_ok_def)

text \<open>C19: no wake-up is lost, with a work that keeps to the described usage over finitely many nodes and never names
  an origin twice in one \<open>block_on_all\<close> (\<open>block_on_all_repeated_origin\<close> shows that the wake-up is lost where it
  does). When \<open>run\<close> has returned, every node it has seen is resolved, or it is blocked and registered with a node
  that is itself blocked; so nodes stay blocked only along a cycle of dependencies.\<close>

theorem no_lost_wakeup:
  assumes "work_ok N wk" "finite N" "set roots \<subseteq> N" "enum_ok enum"
    and "run enum wk (started wk k roots) = Some w" "states w n = Some s"
  shows "kind s = Resolved \<or> kind s = Blocked \<and>
    (\<exists>origin t. states w origin = Some t \<and> kind t = Blocked \<and> n \<in> set (dependents t))"
proof -
  from started_spec [OF assms(1-3)] have "winv N None (started wk k roots)" by blast
  from run_spec [OF this assms(1,4)] assms(5) have inv: "winv N None w" "worklist w = []" by auto
  have na: "kind t = Resolved \<or> kind t = Blocked" if "states w m = Some t" for m t
    using winvD(5) [OF inv(1)] inv(2) winvD(6) [OF inv(1) that] that by (cases "kind t") (auto simp: node_ok_def)
  show ?thesis
  proof (cases "kind s = Blocked")
    case True
    then have "0 < card (waits w n)" using winvD(6) [OF inv(1) assms(6)] by (auto simp: node_ok_def)
    then obtain origin t where t: "states w origin = Some t" "n \<in> set (dependents t)"
      by (fastforce simp: waits_def card_gt_0_iff)
    then have "kind t \<noteq> Resolved" using winvD(6) [OF inv(1) t(1)] by (auto simp: node_ok_def)
    then show ?thesis using True t na [OF t(1)] by blast
  qed (use na [OF assms(6)] in blast)
qed

theorem no_lost_wakeup_witness:
  "\<exists>w. run id (child_work (\<lambda>n :: nat. if n = 0 then [1] else [])) (started (child_work (\<lambda>n. if n = 0 then [1] else [])) () [0])
     = Some w \<and> (\<nexists>s. states w 0 = Some s \<and> kind s = Active)"
proof -
  let ?wk = "child_work (\<lambda>n :: nat. if n = 0 then [1] else [])"
  have ok: "work_ok {0, 1} ?wk" "finite {0 :: nat, 1}" "set [0] \<subseteq> {0 :: nat, 1}" "enum_ok (id :: nat list \<Rightarrow> nat list)"
    by (rule child_work_ok) (auto simp: enum_ok_def)
  from started_spec [OF ok(1-3)] run_spec [OF _ ok(1,4)] obtain w where w: "run id ?wk (started ?wk () [0]) = Some w" by blast
  have "kind s \<noteq> Active" if "states w 0 = Some s" for s using no_lost_wakeup [OF ok w that] by auto
  with w show ?thesis by blast
qed

text \<open>Bounded execution of \<open>run\<close>, to evaluate it.\<close>

fun run_iter :: "('n list \<Rightarrow> 'n list) \<Rightarrow> ('n, 'x, 'w) work \<Rightarrow> nat \<Rightarrow> ('n, 'x, 'w) worker \<Rightarrow> ('n, 'x, 'w) worker option" where
  "run_iter enum wk 0 w = None"
| "run_iter enum wk (Suc n) w =
     (if worklist w = [] then Some w
      else (case run_step enum wk w of None \<Rightarrow> None | Some w \<Rightarrow> run_iter enum wk n w))"

lemma run_iter_run: "run_iter enum wk n w = Some w' \<Longrightarrow> run enum wk w = Some w'"
  by (induction n arbitrary: w) (auto simp: run.simps split: if_splits option.splits)

text \<open>\<open>block_on_all\<close> counts an origin that occurs twice twice, but registers with it once: the
  node stays blocked although everything it waits for has resolved.\<close>

theorem block_on_all_repeated_origin:
  "map_option (\<lambda>w. (worklist w, map (\<lambda>n. map_option kind (states w n)) [0, 1]))
      (run id (child_work (\<lambda>n :: nat. if n = 0 then [1, 1] else []))
        (started (child_work (\<lambda>n. if n = 0 then [1, 1] else [])) () [0])) =
    Some ([], [Some Blocked, Some Resolved])"
proof -
  let ?wk = "child_work (\<lambda>n :: nat. if n = 0 then [1, 1] else [])"
  have "map_option (\<lambda>w. (worklist w, map (\<lambda>n. map_option kind (states w n)) [0, 1]))
      (run_iter id ?wk 3 (started ?wk () [0])) = Some ([], [Some Blocked, Some Resolved])"
    by code_simp
  then obtain w where "run_iter id ?wk 3 (started ?wk () [0]) = Some w"
    "(worklist w, map (\<lambda>n. map_option kind (states w n)) [0, 1]) = ([], [Some Blocked, Some Resolved])" by auto
  with run_iter_run show ?thesis by fastforce
qed

text \<open>A work in which node 0 first waits for one of 1 and 2, then for both of 3 and 4, and then
  records whether 4 has resolved; 2 waits for 5, and 4 for 6.\<close>

definition staged_process :: "nat \<Rightarrow> (nat, nat, bool list) work \<Rightarrow> (nat, nat, bool list) worker \<Rightarrow>
    (bool \<times> (nat, nat, bool list) worker) option" where
  "staged_process n wk w =
     (case state w n of
        None \<Rightarrow> None
      | Some s \<Rightarrow>
          let w = put_state n (s\<lparr>derived := derived s + 1\<rparr>) w
          in if n = 0 then
               (if derived s = 0 then map_option (\<lambda>(b, w). (\<not> b, w)) (block_on_any wk 0 [1, 2] w)
                else if derived s = 1 then map_option (\<lambda>(b, w). (\<not> b, w)) (block_on_all wk 0 [3, 4] w)
                else Some (True, w\<lparr>work_obj := is_resolved w 4 # work_obj w\<rparr>))
             else if (n = 2 \<or> n = 4) \<and> derived s = 0 then
               map_option (\<lambda>(b, w). (\<not> b, w)) (block_on wk n (if n = 2 then 5 else 6) w)
             else Some (True, w))"

definition staged_seed :: "(nat, nat, bool list) work" where
  "staged_seed = \<lparr>init = 0, seed = (\<lambda>n. id), process = (\<lambda>n w. None)\<rparr>"

definition staged_work :: "(nat, nat, bool list) work" where
  "staged_work = staged_seed\<lparr>process := (\<lambda>n w. staged_process n staged_seed w)\<rparr>"

text \<open>A node that \<open>block_on_all\<close> blocks may be woken before all origins have resolved: an origin
  of an earlier \<open>block_on_any\<close> that resolves late is still registered, and its signal is counted.\<close>

theorem block_on_all_wakes_early:
  "map_option work_obj (run id staged_work (started staged_work [] [0])) = Some [False]"
proof -
  have "map_option work_obj (run_iter id staged_work 14 (started staged_work [] [0])) = Some [False]"
    by code_simp
  then obtain w where "run_iter id staged_work 14 (started staged_work [] [0]) = Some w" "work_obj w = [False]" by auto
  with run_iter_run show ?thesis by fastforce
qed

end
