(* ===== verification/Spec2Isabelle.thy ===== *)
theory Spec2Isabelle
  imports IntrusivePtr CaptureBounds MatchCaptures MatchEnds JsonText AstClone AstSymbols Utf8 RuneClass RegexParser RegexNfa RegexClosure RegexMatch RegexCapture RegexSearch RegexRange RegexConstruct Xoroshiro Source NodeWorker
begin

text \<open>
  A verification library for Trieste, a C++ library for writing parsers and multi-pass term
  rewriting tools (\<open>include/trieste\<close>), and for the JSON front end built on it (\<open>parsers/json\<close>).

  \<^bold>\<open>The program.\<close> Text is read into a \<open>Source\<close>, whose lines are indexed; tokens of it are
  \<open>Location\<close>s. A lexer is a set of regular expressions, which the engine of
  \<open>regex_engine.h\<close> compiles to automata and matches over UTF-8 text decoded by \<open>utf8.h\<close>. The tokens
  become a tree of \<open>NodeDef\<close>s, which passes rewrite: a \<open>PassDef\<close> files its rules, pairs of a pattern
  (\<open>rewrite.h\<close>) and an effect, in a table by the tokens of their summaries, tries at each position those that the
  table lists, and goes round until nothing changes. \<open>nodeworker.h\<close> drives passes whose nodes wait for
  one another, and \<open>xoroshiro.h\<close> supplies the random numbers of the tree generator.

  \<^bold>\<open>Theories and sources.\<close>
  \<^item> \<open>Prelude\<close>: byte strings, words, results of calls that may throw, the arithmetic of \<open>size_t\<close>.
  \<^item> \<open>Utf8\<close> (\<open>utf8.h\<close>): encoding, decoding, escapes, sanitising, reading of encoded files.
  \<^item> \<open>RuneClass\<close> (\<open>regex_engine.h\<close>, constants and \<open>RuneClass\<close>): sets of runes with their ASCII bitmap.
  \<^item> \<open>RegexParser\<close> (\<open>PostfixBuilder\<close>, \<open>regexp_to_postfix_runes\<close>): patterns to postfix tokens.
  \<^item> \<open>RegexNfa\<close> (\<open>State\<close>, \<open>Fragment\<close>, \<open>postfix_to_nfa\<close>): tokens to an automaton; a pointer is an index.
  \<^item> \<open>RegexClosure\<close> (the epsilon closure cache, \<open>first_char_info\<close>, the constructor).
  \<^item> \<open>RegexMatch\<close>, \<open>RegexCapture\<close>, \<open>CaptureBounds\<close> (\<open>MatchContext\<close>, \<open>match\<close>, \<open>find_prefix\<close>, \<open>search\<close>).
  \<^item> \<open>RegexSearch\<close>, \<open>RegexRange\<close>, \<open>RegexConstruct\<close>: the language of a token stream, and what the
    parser, the construction and the matching show about it.
  \<^item> \<open>IntrusivePtr\<close> (\<open>intrusive_ptr.h\<close>): counted pointers, variables of the code or members of objects, and
    the pointers that \<open>release\<close> has handed out; a sequence of operations is run on an explicit heap.
  \<^item> \<open>Token\<close> (\<open>token.h\<close>, \<open>defaultmap.h\<close>): tokens, their registration, the map from tokens to rules.
  \<^item> \<open>Ast\<close> (\<open>ast.h\<close>): nodes as indices in a list; \<open>AstForest\<close>: adding and removing children keeps a
    forest; \<open>AstOrder\<close>: walks, errors, order of nodes; \<open>AstSymbols\<close>: scopes, binding and lookup;
    \<open>AstClone\<close>: copies of trees.
  \<^item> \<open>Pattern\<close> (\<open>rewrite.h\<close>, \<open>Match\<close> and the classes derived from \<open>PatternDef\<close>) with its \<open>match\<close>; \<open>FastPattern\<close>
    (\<open>rewrite.h\<close>): the operators that make patterns and the summaries they keep; \<open>MatchCaptures\<close>: the frames of
    captures implement a map; \<open>MatchEnds\<close>: when a match ends.
  \<^item> \<open>PassDef\<close> (\<open>pass.h\<close>): the table of rules, replacing, the rounds of a pass and lifting; \<open>PassRules\<close>: the table
    misses no rule, and a run ends in a normal form.
  \<^item> \<open>JsonText\<close> (\<open>parsers/json/json.cc\<close>): escapes of JSON strings, and JSON pointers.
  \<^item> \<open>Source\<close> (\<open>source.h\<close>), \<open>NodeWorker\<close> (\<open>nodeworker.h\<close>), \<open>Xoroshiro\<close> (\<open>xoroshiro.h\<close>).
  \<^item> this theory: the regular expression engine end to end.

  \<^bold>\<open>Bounds and conditions.\<close> Constructing an engine is shown to succeed for patterns of at most 170 postfix
  tokens, which keeps the number of automaton states within the engine's limit. Matches with captures are
  equal to matches without, and \<open>search\<close> finds the leftmost match, under \<open>arena_room\<close>: a bound on the size of the input
  from which on the code may run out of capture frames and drop threads; that captures stay within the match needs
  no such bound. The statements about the first byte of a match, and so those about \<open>search\<close>, exclude overlong
  encodings (\<open>no_overlong\<close>), for which the code errs. A default map is shown to keep tokens apart in a program
  with at most 128 of them, the size of its table. The statements about summaries and the table of rules exclude \<open>~\<close>
  and \<open>++\<close> of a pattern that may start with any token and is bound to parents, for which the code errs; those about
  captures exclude captures inside an \<open>Action\<close>; a match is shown to return where repetitions and the left sides of
  \<open><<\<close> consume a node. A work of \<open>NodeWorker\<close> names no origin twice in one \<open>block_on_all\<close>. That such
  a condition is needed is shown by lemmas: \<open>first_char_overlong\<close>, \<open>specific_update_leaks\<close>, \<open>opt_keeps_parents\<close>,
  \<open>action_leaks_capture\<close>, \<open>rep_of_opt_diverges\<close>, \<open>children_of_end\<close> and \<open>block_on_all_repeated_origin\<close>; the
  bounds of 170 tokens and of \<open>arena_room\<close> are sufficient, not exact. Walks along parents take at most as many steps as there are nodes,
  which a forest never exceeds; \<open>clone\<close> recurses as deep as the tree is high. Loops of the code are structural
  recursions, \<open>function\<close>s with a measure, or, where they need not end (a walk whose actions change the tree, the
  repetition of a pattern, a pass), \<open>partial_function\<close>s, where \<open>None\<close> is a run without end and termination is a
  property of its own.

  \<^bold>\<open>Not modelled.\<close> The Unicode tables are generated data: the lookup of a category is a parameter of
  the pattern parser. Printing and hashing of trees and \<open>lookup_replace\<close> are left out, and the pointers between
  nodes are not counted in \<open>Ast\<close>, since \<open>IntrusivePtr\<close> shows what counting does. Of \<open>rewrite.h\<close> the reification of
  patterns and the operators by which effects build nodes are left out, of \<open>regex.h\<close> all but \<open>FullMatch\<close>. Effects, hooks and
  conditions of a pass are supplied by its user and are parameters. The well-formedness definitions (\<open>wf.h\<close>) with
  the generation of trees from them (\<open>gen.h\<close>), the parsing driver (\<open>parse.h\<close>, \<open>reader.h\<close>), the drivers that run passes in
  order (\<open>rewriter.h\<close>, \<open>passes.h\<close>), the writers, the checker and the fuzzer are not modelled. Of the JSON front end only
  its text functions and pointers are; its parser and writer, the operations and patches on documents, and the
  YAML front end, which are sets of rewriting rules, are not. Command line, logging and file output are
  input and output around them; the samples and tests are no part of the library.
\<close>

section \<open>The regular expression engine, end to end\<close>

definition pattern_tokens :: "categories \<Rightarrow> bytes \<Rightarrow> SyntaxMode \<Rightarrow> rune list" where
  "pattern_tokens fc pattern mode = snd (parse_pattern fc pattern (init_engine mode))"

lemmas constructed_inv = RegexEngine_inv [folded pattern_tokens_def]

lemma longest_whole:
  assumes "\<forall>j \<in> L. j \<le> length (input_runes s)"
  shows "longest s L = Some (length s) \<longleftrightarrow> length (input_runes s) \<in> L"
proof (cases "L = {}")
  case False
  have "finite L" using assms finite_nat_set_iff_bounded_le by blast
  then have m: "Max L \<in> L" using False by simp
  then have "Max L \<le> length (input_runes s)" using assms by blast
  then have "offset s (Max L) = length s \<longleftrightarrow> Max L = length (input_runes s)" by (rule offset_end_iff)
  moreover have "Max L = length (input_runes s) \<longleftrightarrow> length (input_runes s) \<in> L"
    using m assms \<open>finite L\<close> by (metis Max_ge antisym)
  ultimately show ?thesis using False by (simp add: longest_def)
qed (simp add: longest_def)

lemma unat_of_nat_closure_le: "p \<le> n \<Longrightarrow> unat (of_nat p :: u64) \<le> n"
  by (metis le_trans mod_less_eq_dividend unat_of_nat)

subsection \<open>A worked pattern\<close>

lemmas parser_eval = dispatch_def on_open_group_def on_close_group_def on_star_def on_quantifier_def on_literal_def
  emit_atom_def push_postfix_def begin_atom_def push_concat_def parse_quantifier_suffix_def finalize_builder_def
  lacks_quantifiable_atom_def has_unmatched_close_paren_def is_noncapturing_group_prefix_def allow_capturing_groups_def
  allow_noncapturing_groups_def allow_lazy_quantifiers_def is_extended_mode_def builder_set_error_def builder_ok_def
  has_pending_concat_to_undo_def

lemma parse_loop_end: "length pattern \<le> pos \<Longrightarrow> parse_loop fc pattern pos b = (b, True)"
  by (simp add: parse_loop.simps)

lemma parse_loop_next:
  "pos < length pattern \<Longrightarrow> parse_loop fc pattern pos b =
     (let (rune, consumed) = utf8_decode (drop pos pattern);
          (b, pos, okay) = dispatch fc rune pattern (pos + length consumed) b
      in if okay then parse_loop fc pattern pos b else (b, False))"
  by (simp add: parse_loop.simps)

abbreviation no_categories :: categories where "no_categories \<equiv> \<lambda>name. None"

text \<open>The pattern \<open>(a)*\<close>, and the engine built from it.\<close>

abbreviation sample_pattern :: bytes where "sample_pattern \<equiv> [0x28, 0x61, 0x29, 0x2A]"

abbreviation sample_engine :: engine where
  "sample_engine \<equiv> RegexEngine no_categories sample_pattern Extended"

lemma sample_parse: "\<exists>b. regexp_to_postfix_runes no_categories Extended sample_pattern = (b, True) \<and>
    postfix b = [0x61, CaptureGroup, ZeroOrMore] \<and> error_code b = NoError \<and> num_captures b = 1"
  by (simp add: regexp_to_postfix_runes_def init_builder_def parse_loop_next parse_loop_end utf8_decode_def
      parser_eval Let_def)

lemma no_categories_ok: "categories_ok no_categories"
  by (simp add: categories_ok_def)

lemma sample_ok: "engine_ok sample_engine"
  "pattern_tokens no_categories sample_pattern Extended = [0x61, CaptureGroup, ZeroOrMore]"
  "arena_room sample_engine [0x61, 0x61, 0x62]"
proof -
  obtain b where b: "regexp_to_postfix_runes no_categories Extended sample_pattern = (b, True)"
    "postfix b = [0x61, CaptureGroup, ZeroOrMore]" "error_code b = NoError" "num_captures b = 1" using sample_parse by blast
  have ast: "postfix_ast (postfix b) \<noteq> None" unfolding b(2) by (simp add: postfix_ast_def ast_step_def)
  have size: "length (owned_states sample_engine) \<le> 7" "eng_num_captures sample_engine = 1"
    using RegexEngine_size [OF b(1)] ast b(2,4) by simp_all
  show "arena_room sample_engine [0x61, 0x61, 0x62]"
  proof -
    have "length (owned_states sample_engine) * 4 \<le> 28" using size(1) by simp
    with size(2) show ?thesis by (simp add: arena_room_def)
  qed
  from ast RegexEngine_success [OF b(1)] b(2)
  show "engine_ok sample_engine" "pattern_tokens no_categories sample_pattern Extended = [0x61, CaptureGroup, ZeroOrMore]"
    by (simp_all add: pattern_tokens_def)
qed

subsection \<open>Properties\<close>

text \<open>C1: a pattern that constructs without an error, searched with any context that was used
  before (even by another engine): \<open>find_prefix\<close> returns the byte length of the longest prefix
  that the parsed expression matches, and \<open>npos\<close> exactly when it matches none.\<close>

theorem find_prefix_longest:
  assumes "categories_ok fc" "engine_ok (RegexEngine fc pat mode)" "ctx_ok ctx"
    and "find_prefix (RegexEngine fc pat mode) this s ctx at_start = (ctx', res)"
  shows "ctx_ok ctx' \<and>
    res = longest s (prefix_ends (eng_classes (RegexEngine fc pat mode)) (pattern_tokens fc pat mode) s at_start False)"
  using find_prefix_noncapturing_longest [OF constructed_inv [OF assms(1) refl assms(2)] assms(2,3)] assms(4)
  by (simp add: find_prefix_def)

theorem find_prefix_longest_witness:
  "case find_prefix sample_engine 1 [0x61, 0x61, 0x62] new_context True of (ctx', res) \<Rightarrow> ctx_ok ctx' \<and>
    res = longest [0x61, 0x61, 0x62] (prefix_ends (eng_classes sample_engine)
      (pattern_tokens no_categories sample_pattern Extended) [0x61, 0x61, 0x62] True False)"
  using find_prefix_longest [OF no_categories_ok sample_ok(1) new_context_ok]
  by (auto split: prod.splits)

text \<open>C2: \<open>match\<close> accepts a string exactly when the whole of it, decoded to runes, is in the
  language of the parsed expression.\<close>

theorem match_iff_language:
  assumes "categories_ok fc" "engine_ok (RegexEngine fc pat mode)" "ctx_ok ctx"
  shows "snd (regex_match (RegexEngine fc pat mode) this s ctx) \<longleftrightarrow>
    length (input_runes s) \<in> prefix_ends (eng_classes (RegexEngine fc pat mode)) (pattern_tokens fc pat mode) s True False"
proof -
  let ?e = "RegexEngine fc pat mode"
  let ?L = "prefix_ends (eng_classes ?e) (pattern_tokens fc pat mode) s True False"
  note inv = constructed_inv [OF assms(1) refl assms(2)]
  obtain c r where f: "find_prefix_noncapturing_with_context ?e this s ctx True False = (c, r)" by fastforce
  have r: "r = longest s ?L" using find_prefix_noncapturing_longest [OF inv assms(2,3) f] by simp
  have b: "\<forall>j \<in> ?L. j \<le> length (input_runes s)" using prefix_ends_bound [OF inv] by blast
  have "longest s ?L = Some (length s) \<longleftrightarrow> length (input_runes s) \<in> ?L" by (rule longest_whole [OF b])
  with r f show ?thesis by (simp add: regex_match_def find_prefix_def)
qed

theorem match_iff_language_witness:
  "snd (regex_match sample_engine 1 [0x61, 0x61] new_context) \<longleftrightarrow>
    length (input_runes [0x61, 0x61]) \<in> prefix_ends (eng_classes sample_engine)
      (pattern_tokens no_categories sample_pattern Extended) [0x61, 0x61] True False"
  by (rule match_iff_language [OF no_categories_ok sample_ok(1) new_context_ok])

text \<open>C6: capturing groups do not change where a match ends: in a search that has room for its
  capture frames, \<open>find_prefix\<close> with captures returns the same length as without, whatever
  contexts the two calls use.\<close>

theorem capturing_same_length:
  assumes "categories_ok fc" "engine_ok (RegexEngine fc pat mode)" "ctx_ok ctx" "ctx_ok ctx'"
    and "arena_room (RegexEngine fc pat mode) s"
  shows "snd (snd (find_prefix_captures (RegexEngine fc pat mode) this s ctx at_start)) =
    snd (find_prefix (RegexEngine fc pat mode) this' s ctx' at_start)"
proof -
  let ?e = "RegexEngine fc pat mode"
  note inv = constructed_inv [OF assms(1) refl assms(2)]
  obtain c caps r where f: "find_prefix_with_context ?e this s ctx at_start False = (c, caps, r)" by (metis prod_cases3)
  obtain c' r' where g: "find_prefix_noncapturing_with_context ?e this' s ctx' at_start False = (c', r')" by fastforce
  have "2 * eng_num_captures ?e * (1 + length (owned_states ?e) * (1 + length (input_runes s))) \<le> MaxCaptureFrameEntries"
    using arena_room_suffix [OF assms(5), of 0] by simp
  from find_prefix_capturing_longest [OF inv assms(2,3) this f] find_prefix_noncapturing_longest [OF inv assms(2,4) g] f g
  show ?thesis by (simp add: find_prefix_captures_def find_prefix_def)
qed

theorem capturing_same_length_witness:
  "snd (snd (find_prefix_captures sample_engine 1 [0x61, 0x61, 0x62] new_context True)) =
    snd (find_prefix sample_engine 2 [0x61, 0x61, 0x62] new_context True)"
  by (rule capturing_same_length [OF no_categories_ok sample_ok(1) new_context_ok new_context_ok sample_ok(3)])


lemma sample_captures: "\<exists>ctx' caps len.
    find_prefix_captures sample_engine 1 [0x61, 0x61, 0x62] new_context True = (ctx', caps, Some len)"
proof -
  let ?e = sample_engine and ?s = "[0x61, 0x61, 0x62] :: bytes"
  note inv = constructed_inv [OF no_categories_ok refl sample_ok(1)]
  obtain c caps r where f: "find_prefix_with_context ?e 1 ?s new_context True False = (c, caps, r)" by (metis prod_cases3)
  have "2 * eng_num_captures ?e * (1 + length (owned_states ?e) * (1 + length (input_runes ?s))) \<le> MaxCaptureFrameEntries"
    using arena_room_suffix [OF sample_ok(3), of 0] by simp
  note l = find_prefix_capturing_longest [OF inv sample_ok(1) new_context_ok this f]
  have "0 \<in> prefix_ends (eng_classes ?e) (pattern_tokens no_categories sample_pattern Extended) ?s True False"
    unfolding sample_ok(2) by (simp add: prefix_ends_def tokens_rel_def postfix_ast_def ast_step_def)
  then have "longest ?s (prefix_ends (eng_classes ?e) (pattern_tokens no_categories sample_pattern Extended) ?s True False) \<noteq> None"
    unfolding longest_def by (metis empty_iff option.distinct(1))
  with l obtain len where "r = Some len" by blast
  with f show ?thesis by (simp add: find_prefix_captures_def)
qed


text \<open>C5: \<open>search\<close> finds the leftmost position of the string, from where it is told to begin, where the
  expression matches, and the longest match there. This is shown for inputs for which the arena of capture frames
  has room, a start on a rune boundary, and inputs without overlong encodings of ASCII, before which
  \<open>first_char_info\<close> may reject a match. Matches are those of the whole string: a word boundary compares
  the runes on both sides of a position and the anchors hold at the two ends of the string only.\<close>

theorem search_leftmost:
  assumes "categories_ok fc" "engine_ok (RegexEngine fc pat mode)" "ctx_ok ctx"
    and "arena_room (RegexEngine fc pat mode) s" "no_overlong s" "i \<le> length (input_runes s)"
    and "search (RegexEngine fc pat mode) this s caps ctx (offset s i) = (ctx', caps', res)"
  shows "ctx_ok ctx' \<and>
    leftmost_longest (eng_classes (RegexEngine fc pat mode)) (pattern_tokens fc pat mode) s i res"
proof -
  note inv = constructed_inv [OF assms(1) refl assms(2)]
  have "search_loop (RegexEngine fc pat mode) this s (offset s i) caps ctx = (ctx', caps', res)"
    using assms(2,7) by (simp add: search_def)
  from search_loop_leftmost [OF inv assms(2,4,6,3) this] leftmost_whole [OF inv assms(5)] show ?thesis by blast
qed

theorem search_leftmost_witness:
  "\<exists>ctx' caps' res. search sample_engine 1 [0x61, 0x61, 0x62] [] new_context 0 = (ctx', caps', res) \<and>
    leftmost_longest (eng_classes sample_engine) (pattern_tokens no_categories sample_pattern Extended) [0x61, 0x61, 0x62] 0 res"
proof -
  obtain c cs r where s: "search sample_engine 1 [0x61, 0x61, 0x62] [] new_context (offset [0x61, 0x61, 0x62] 0) = (c, cs, r)"
    by (metis prod_cases3)
  have n: "no_overlong [0x61, 0x61, 0x62]"
    by (simp add: no_overlong_def input_runes_def decode_from.simps rune_at_def decode_rune_def is_ascii_def)
  from search_leftmost [OF no_categories_ok sample_ok(1) new_context_ok sample_ok(3) n _ s] s show ?thesis by simp
qed

text \<open>The result of a match does not depend on the context, nor on the engine it served
  before: two contexts in the state that earlier calls leave give the same answer.\<close>

theorem context_independent:
  assumes "categories_ok fc" "engine_ok (RegexEngine fc pat mode)" "ctx_ok c1" "ctx_ok c2"
  shows "snd (find_prefix (RegexEngine fc pat mode) this1 s c1 at_start) =
      snd (find_prefix (RegexEngine fc pat mode) this2 s c2 at_start) \<and>
    ctx_ok (fst (find_prefix (RegexEngine fc pat mode) this1 s c1 at_start))"
proof -
  let ?e = "RegexEngine fc pat mode"
  obtain a r b r' where f: "find_prefix_noncapturing_with_context ?e this1 s c1 at_start False = (a, r)"
    "find_prefix_noncapturing_with_context ?e this2 s c2 at_start False = (b, r')" by fastforce
  note inv = constructed_inv [OF assms(1) refl assms(2)]
  from find_prefix_noncapturing_longest [OF inv assms(2,3) f(1)] find_prefix_noncapturing_longest [OF inv assms(2,4) f(2)] f
  show ?thesis by (simp add: find_prefix_def)
qed

theorem context_independent_witness:
  "snd (find_prefix sample_engine 1 [0x61] (new_context\<lparr>visited_states := [3, 7], epoch_counter := 7\<rparr>) True) =
    snd (find_prefix sample_engine 2 [0x61] new_context True)"
  using context_independent [OF no_categories_ok sample_ok(1) _ new_context_ok,
      of "new_context\<lparr>visited_states := [3, 7], epoch_counter := 7\<rparr>"] by (simp add: ctx_ok_def)

subsection \<open>Construction\<close>

text \<open>C8: a pattern of at most 170 postfix tokens constructs exactly when it parses and its
  tokens form one expression (or there are none); then nothing else can fail.\<close>

theorem construction_iff:
  assumes "categories_ok fc" "regexp_to_postfix_runes fc mode pat = (b, okay)" "length (postfix b) \<le> 170"
  shows "engine_ok (RegexEngine fc pat mode) \<longleftrightarrow> okay \<and> (postfix b = [] \<or> postfix_ast (postfix b) \<noteq> None)"
proof (cases okay)
  case True
  then have p: "regexp_to_postfix_runes fc mode pat = (b, True)" using assms(2) by simp
  show ?thesis
    using RegexEngine_success(1) [OF p _ assms(3)] RegexEngine_malformed [OF p] True by auto
next
  case False
  then have "regexp_to_postfix_runes fc mode pat = (b, False)" using assms(2) by simp
  from RegexEngine_parse_error [OF this assms(1)] False show ?thesis by (simp add: engine_ok_def)
qed

theorem construction_iff_witness: "engine_ok (RegexEngine no_categories sample_pattern Extended)"
proof -
  obtain b where b: "regexp_to_postfix_runes no_categories Extended sample_pattern = (b, True)"
    "postfix b = [0x61, CaptureGroup, ZeroOrMore]" using sample_parse by blast
  have "postfix_ast (postfix b) \<noteq> None" unfolding b(2) by (simp add: postfix_ast_def ast_step_def)
  with construction_iff [OF no_categories_ok b(1)] b(2) show ?thesis by simp
qed

text \<open>C9: when the pattern does not parse, the engine reports the error code of the parser (and
  its argument, cut to 100 bytes), and every way of matching, \<open>find_prefix\<close> with and without captures, \<open>match\<close>
  and \<open>search\<close>, fails without a match and without captures.\<close>

theorem construction_error:
  assumes "categories_ok fc" "regexp_to_postfix_runes fc mode pat = (b, False)"
  shows "eng_error_code (RegexEngine fc pat mode) = error_code b \<and> error_code b \<noteq> NoError \<and>
    eng_error_arg (RegexEngine fc pat mode) = take 100 (error_arg b) \<and>
    snd (find_prefix (RegexEngine fc pat mode) this s ctx at_start) = None \<and>
    snd (find_prefix_captures (RegexEngine fc pat mode) this s ctx at_start) = ([], None) \<and>
    \<not> snd (regex_match (RegexEngine fc pat mode) this s ctx) \<and>
    snd (snd (search (RegexEngine fc pat mode) this s caps ctx p)) = None"
proof -
  have e: "eng_error_code (RegexEngine fc pat mode) = error_code b \<and>
      eng_error_arg (RegexEngine fc pat mode) = take 100 (error_arg b) \<and> error_code b \<noteq> NoError"
    by (rule RegexEngine_parse_error [OF assms(2,1)])
  then have "\<not> engine_ok (RegexEngine fc pat mode)" by (simp add: engine_ok_def)
  with e find_prefix_not_ok find_prefix_captures_not_ok match_not_ok search_not_ok show ?thesis by blast
qed

lemma unclosed_parse: "\<exists>b. regexp_to_postfix_runes no_categories Extended [0x28, 0x61] = (b, False) \<and>
    error_code b = ErrorMissingParen"
  by (simp add: regexp_to_postfix_runes_def init_builder_def parse_loop_next parse_loop_end utf8_decode_def
      parser_eval Let_def)

theorem construction_error_witness:
  "eng_error_code (RegexEngine no_categories [0x28, 0x61] Extended) = ErrorMissingParen"
proof -
  obtain b where b: "regexp_to_postfix_runes no_categories Extended [0x28, 0x61] = (b, False)"
    "error_code b = ErrorMissingParen" using unclosed_parse by blast
  from construction_error [OF no_categories_ok b(1)] b(2) show ?thesis by simp
qed

subsection \<open>First bytes\<close>

lemma compute_first_char_info_upd:
  "compute_first_char_info (e\<lparr>first_char_info := x\<rparr>) = compute_first_char_info e"
proof -
  have a: "first_char_add (e\<lparr>first_char_info := x\<rparr>) = first_char_add e"
    by (intro ext) (simp add: first_char_add_def Let_def)
  have c: "combo_closure (e\<lparr>first_char_info := x\<rparr>) = combo_closure e"
    by (intro ext) (simp add: combo_closure_def epsilon_closure_cached_def Let_def)
  show ?thesis by (simp add: compute_first_char_info_def a c engine_ok_def num_flag_combos_def)
qed

lemma first_char_info_stored:
  "first_char_info (RegexEngine fc pat mode) = compute_first_char_info (RegexEngine fc pat mode)"
  by (simp add: RegexEngine_def Let_def compute_first_char_info_upd split: prod.splits)

text \<open>C13: \<open>first_char_info\<close> never rejects a match of an input whose first byte is ASCII exactly
  when the rune it begins decodes to ASCII: an empty match is announced, and a non-empty one
  begins with a byte that passes the test.\<close>

theorem first_char_sound:
  assumes "categories_ok fc" "engine_ok (RegexEngine fc pat mode)" "ctx_ok ctx" "first_rune_consistent s"
    and "find_prefix (RegexEngine fc pat mode) this s ctx at_start = (ctx', Some n)"
  shows "if n = 0 then can_match_empty (first_char_info (RegexEngine fc pat mode))
    else s \<noteq> [] \<and> fc_test (first_char_info (RegexEngine fc pat mode)) (hd s)"
proof -
  let ?e = "RegexEngine fc pat mode"
  let ?L = "prefix_ends (eng_classes ?e) (pattern_tokens fc pat mode) s at_start False"
  note inv = constructed_inv [OF assms(1) refl assms(2)]
  have l: "longest s ?L = Some n"
    using find_prefix_noncapturing_longest [OF inv assms(2,3)] assms(5) by (simp add: find_prefix_def)
  have b: "\<forall>j \<in> ?L. j \<le> length (input_runes s)" using prefix_ends_bound [OF inv] by blast
  then have "finite ?L" using finite_nat_set_iff_bounded_le by blast
  with l have m: "Max ?L \<in> ?L" "n = offset s (Max ?L)" by (auto simp: longest_def split: if_splits)
  have "n = 0 \<longleftrightarrow> Max ?L = 0" using m b offset_strict [of 0 "Max ?L" s] by (cases "Max ?L = 0") auto
  with first_char_sound_inv [OF inv assms(2) m(1) assms(4)] first_char_info_stored
  show ?thesis by simp
qed

lemma sample_find: "\<exists>ctx' n. find_prefix sample_engine 1 [0x61, 0x61, 0x62] new_context True = (ctx', Some n)"
proof -
  obtain ctx' caps len where f: "find_prefix_captures sample_engine 1 [0x61, 0x61, 0x62] new_context True = (ctx', caps, Some len)"
    using sample_captures by blast
  note inv = constructed_inv [OF no_categories_ok refl sample_ok(1)]
  have "2 * eng_num_captures sample_engine * (1 + length (owned_states sample_engine) * (1 + length (input_runes [0x61, 0x61, 0x62])))
      \<le> MaxCaptureFrameEntries"
    using arena_room_suffix [OF sample_ok(3), of 0] by simp
  note a = find_prefix_capturing_longest [OF inv sample_ok(1) new_context_ok this f [unfolded find_prefix_captures_def]]
  obtain c r where g: "find_prefix_noncapturing_with_context sample_engine 1 [0x61, 0x61, 0x62] new_context True False = (c, r)"
    by fastforce
  have "r = Some len" using a find_prefix_noncapturing_longest [OF inv sample_ok(1) new_context_ok g] by simp
  with g show ?thesis by (simp add: find_prefix_def)
qed

theorem first_char_sound_witness:
  "fc_test (first_char_info sample_engine) 0x61 \<or> can_match_empty (first_char_info sample_engine)"
proof -
  obtain ctx' n where f: "find_prefix sample_engine 1 [0x61, 0x61, 0x62] new_context True = (ctx', Some n)"
    using sample_find by blast
  have "first_rune_consistent [0x61, 0x61, 0x62]"
    by (simp add: first_rune_consistent_def decode_rune_def is_ascii_def)
  from first_char_sound [OF no_categories_ok sample_ok(1) new_context_ok this f] show ?thesis
    by (simp split: if_splits)
qed

subsection \<open>Syntax\<close>

text \<open>Laziness changes which match the engine prefers, never the language: replacing every
  lazy quantifier by its greedy form leaves the meaning of a token stream as it is.\<close>

theorem lazy_same_language:
  "tokens_rel acc cond (map greedy ts) = tokens_rel acc cond ts"
  by (simp add: tokens_rel_def postfix_ast_greedy rel_greedy split: option.splits)

text \<open>Strict mode, documented as having no anchors, parses \<open>^a$\<close> into start and end
  anchors.\<close>

theorem strict_accepts_anchors:
  "\<exists>b. regexp_to_postfix_runes fc IregexpStrict [0x5E, 0x61, 0x24] = (b, True) \<and>
     postfix b = [StartAnchor, 0x61, Catenation, EndAnchor, Catenation]"
  by (simp add: regexp_to_postfix_runes_def init_builder_def parse_loop_next parse_loop_end utf8_decode_def
      parser_eval on_start_anchor_def on_end_anchor_def Let_def)

text \<open>The repetition limit can be passed by: the count \<open>18446744073709551617\<close> wraps
  around \<open>size_t\<close> to 1, so the quantifier is accepted and means one repetition.\<close>

theorem repetition_overflow:
  "\<exists>b. regexp_to_postfix_runes fc Extended (lit ''a{18446744073709551617}'') = (b, True) \<and>
     postfix b = [0x61] \<and> error_code b = NoError"
  by (simp add: regexp_to_postfix_runes_def init_builder_def parse_loop_next parse_loop_end utf8_decode_def
      parser_eval on_open_brace_def can_emit_standalone_closer_def allow_standalone_closer_literals_def
      is_literal_brace_after_escape_def on_range_quantifier_def parse_bounds_def parse_number.simps
      is_ascii_digit_at_def apply_range_def expand_range_def mandatory_copies_def Let_def)

lemma literal_parse: "\<exists>b. regexp_to_postfix_runes fc Extended [0x41] = (b, True) \<and> postfix b = [0x41] \<and> error_code b = NoError \<and>
   rune_classes b = [] \<and> num_captures b = 0"
  by (simp add: regexp_to_postfix_runes_def init_builder_def parse_loop_next parse_loop_end utf8_decode_def
      parser_eval Let_def)

abbreviation literal_engine :: engine where "literal_engine \<equiv> RegexEngine no_categories [0x41] Extended"

lemma literal_first_char: "fc_test (first_char_info literal_engine) 0xC1 = False \<and> can_match_empty (first_char_info literal_engine) = False"
proof -
  obtain b where b: "regexp_to_postfix_runes no_categories Extended [0x41] = (b, True)" "postfix b = [0x41]" "error_code b = NoError"
   "rune_classes b = []" "num_captures b = 0" using literal_parse by blast
  have "parse_pattern no_categories [0x41] (init_engine Extended) = (init_engine Extended, [0x41])"
    using b by (simp add: parse_pattern_def init_engine_def)
  then have e: "RegexEngine no_categories [0x41] Extended = (let e = finalize_states (precompute_epsilon_closures
      ((init_engine Extended)\<lparr>states_capacity := 3, owned_states :=
        [mk_state Match None None 0, mk_state 0x41 (Some 0) None 1], start_state := 1\<rparr>))
      in e\<lparr>first_char_info := compute_first_char_info e\<rparr>)"
    by (simp add: RegexEngine_def init_engine_def create_state_def postfix_to_nfa_def nfa_step_def Let_def patch_def
        set_slot_def detect_conditional_states_def engine_ok_def mk_state_def)
  show ?thesis
    unfolding e
    by (simp add: precompute_epsilon_closures_def engine_ok_def num_flag_combos_def Let_def upt_rec precompute_flags.simps
        compute_epsilon_closure_def closure_loop.simps closure_pushes_def is_capture_open_def is_capture_close_def
        mk_state_def init_engine_def)
      (simp add: finalize_states_def engine_ok_def finalize_state_def is_class_ref_def bitmap_set_def
        compute_first_char_info_def num_flag_combos_def combo_closure_def epsilon_closure_cached_def first_char_add_def
        Let_def bitmap_or_def fc_minimal_def fc_test_def is_ascii_def)
qed

lemma literal_find: "snd (find_prefix literal_engine 1 [0xC1, 0x81] new_context True) = Some 2"
proof -
  let ?s = "[0xC1, 0x81] :: bytes"
  obtain b where b: "regexp_to_postfix_runes no_categories Extended [0x41] = (b, True)" "postfix b = [0x41]"
    using literal_parse by blast
  have "postfix_ast (postfix b) \<noteq> None" unfolding b(2) by (simp add: postfix_ast_def ast_step_def)
  with RegexEngine_success [OF b(1)] b(2) have ok: "engine_ok literal_engine"
    "pattern_tokens no_categories [0x41] Extended = [0x41]" by (simp_all add: pattern_tokens_def)
  have r: "input_runes ?s = [(0x41, 2)]"
    by (simp add: input_runes_def decode_from.simps rune_at_def decode_rune_def is_ascii_def utf8_decode_def Let_def)
  have "prefix_ends (eng_classes literal_engine) [0x41] ?s True False = {1}"
    by (auto simp: prefix_ends_def tokens_rel_def postfix_ast_def ast_step_def is_condition_def input_acc_def r
        accepts_def is_class_ref_def)
  then have "longest ?s (prefix_ends (eng_classes literal_engine) (pattern_tokens no_categories [0x41] Extended) ?s True False) = Some 2"
    unfolding ok(2) by (simp add: longest_def offset_def r)
  with find_prefix_noncapturing_longest [OF constructed_inv [OF no_categories_ok refl ok(1)] ok(1) new_context_ok]
  show ?thesis unfolding find_prefix_def by (metis prod.collapse)
qed

text \<open>Overlong encodings defeat the filter on the first byte: the decoder reads the bytes
  C1 81 as the letter A, so \<open>find_prefix\<close> matches the pattern \<open>A\<close> on them, while
  \<open>first_char_info\<close> says that no match begins with the byte C1 and none is empty.\<close>

theorem first_char_overlong:
  "snd (find_prefix (RegexEngine no_categories [0x41] Extended) 1 [0xC1, 0x81] new_context True) = Some 2 \<and>
   \<not> fc_test (first_char_info (RegexEngine no_categories [0x41] Extended)) 0xC1 \<and>
   \<not> can_match_empty (first_char_info (RegexEngine no_categories [0x41] Extended))"
  using literal_find literal_first_char by simp

subsection \<open>The closure cache\<close>

text \<open>C4: in an engine that constructed, the cache answers for every state and every truth of the
  three conditions with the states that read or accept and are reachable without reading, each
  once.\<close>

theorem closure_cache_correct:
  assumes "categories_ok fc" "engine_ok (RegexEngine fc pat mode)"
    and "s < length (owned_states (RegexEngine fc pat mode))"
  shows "distinct (epsilon_closure_cached (RegexEngine fc pat mode) (Some s) bm as ae) \<and>
    set (epsilon_closure_cached (RegexEngine fc pat mode) (Some s) bm as ae) =
      {t \<in> (eps (owned_states (RegexEngine fc pat mode)) bm as ae)\<^sup>* `` {s}.
         rests (owned_states (RegexEngine fc pat mode) ! t)}"
proof -
  note inv = constructed_inv [OF assms(1) refl assms(2)]
  then have "cache_ok (RegexEngine fc pat mode)" by (simp add: engine_inv_def)
  with assms(3) show ?thesis by (simp add: cache_ok_def is_closure_def eps_masked [OF inv refl])
qed

theorem closure_cache_correct_witness:
  "\<exists>s. distinct (epsilon_closure_cached sample_engine (Some s) True False True) \<and>
    set (epsilon_closure_cached sample_engine (Some s) True False True) =
      {t \<in> (eps (owned_states sample_engine) True False True)\<^sup>* `` {s}. rests (owned_states sample_engine ! t)}"
proof -
  have "start_state sample_engine < length (owned_states sample_engine)"
    using constructed_inv [OF no_categories_ok refl sample_ok(1)] by (simp add: engine_inv_def)
  from closure_cache_correct [OF no_categories_ok sample_ok(1) this] show ?thesis by blast
qed

subsection \<open>The visited set\<close>

text \<open>C14: both implementations of the visited set (the bitset for at most 128 states and the
  epochs above) implement a set: testing a state answers whether it is a member and makes it
  one, and a new generation is empty, also when the epoch counter wraps around.\<close>

theorem visited_set_correct:
  assumes "ctx_valid n ep c" "i < n" "already_visited ep i c = (c', seen)" "next_generation ep c = (ep'', c'')"
  shows "ctx_valid n ep c' \<and> (seen \<longleftrightarrow> i \<in> ctx_members ep c) \<and>
    ctx_members ep c' = insert i (ctx_members ep c) \<and> ctx_valid n ep'' c'' \<and> ctx_members ep'' c'' = {}"
  using ctx.test_and_set_law [OF assms(1-3)] ctx.fresh_law [OF assms(1,4)] by blast

theorem visited_set_correct_witness:
  "\<exists>ep'' c''. next_generation (- 1) (new_context\<lparr>visited_states := replicate 200 (- 1), epoch_counter := - 1\<rparr>) = (ep'', c'') \<and>
     ctx_members ep'' c'' = {}"
proof -
  let ?c = "new_context\<lparr>visited_states := replicate 200 (- 1), epoch_counter := - 1\<rparr>"
  have v: "ctx_valid 200 (- 1) ?c" by (simp add: ctx_valid_def epoch_valid_def new_context_def)
  obtain c' seen where a: "already_visited (- 1) 7 ?c = (c', seen)" by fastforce
  obtain ep'' c'' where n: "next_generation (- 1) ?c = (ep'', c'')" by fastforce
  from visited_set_correct [OF v _ a n] n show ?thesis by simp
qed

end
